(* ===== verification/Js_Prelude.thy ===== *)
theory Js_Prelude
  imports Main "HOL-Library.Word"
begin

unbundle bit_operations_syntax

text \<open>
  Shared vocabulary of the development: the fragment of JavaScript the modelled code uses.

  \<^item> A JavaScript string is a list of UTF-16 code units (\<open>jsstring\<close>); \<open>jstr\<close> turns an ASCII
    literal into one.
  \<^item> A number that the code keeps integral is an \<open>int\<close>; where the code can also produce
    \<open>NaN\<close> or read \<open>undefined\<close> it is a \<open>jnum\<close> (\<open>int option\<close>), with \<open>None\<close> for both,
    which every arithmetic operator of the language treats alike.  All integers that occur
    stay below \<open>2 ^ 53\<close> in absolute value, where a double is exact.
  \<^item> The bitwise operators first convert to a 32-bit integer (\<open>to_int32\<close>, \<open>to_uint32\<close>).
  \<^item> A thrown exception is the left injection of a sum (\<open>'a res\<close>).
\<close>

named_theorems js_defs \<open>definitions of the JavaScript operators\<close>
named_theorems js_arith \<open>bit operations as integer arithmetic\<close>

section \<open>Types\<close>

type_synonym byte = "8 word"
type_synonym code_unit = "16 word"
type_synonym jsstring = "code_unit list"
type_synonym jnum = "int option"

datatype js_error = RangeError string | TypeError string | Error string

type_synonym 'a res = "js_error + 'a"

definition bind_r :: "'e + 'a \<Rightarrow> ('a \<Rightarrow> 'e + 'b) \<Rightarrow> 'e + 'b" where
  "bind_r m f = (case m of Inl e \<Rightarrow> Inl e | Inr x \<Rightarrow> f x)"

lemma bind_r_simps [simp]:
  "bind_r (Inl e) f = Inl e"
  "bind_r (Inr x) f = f x"
  by (simp_all add: bind_r_def)

lemma bind_r_Inr_iff:
  "bind_r m f = Inr y \<longleftrightarrow> (\<exists>x. m = Inr x \<and> f x = Inr y)"
  by (cases m) auto

lemma bind_r_InrE:
  assumes "bind_r m f = Inr y"
  obtains x where "m = Inr x" "f x = Inr y"
  using assms by (cases m) auto

lemma bind_r_cong [fundef_cong]:
  "m = m' \<Longrightarrow> (\<And>x. m' = Inr x \<Longrightarrow> f x = g x) \<Longrightarrow> bind_r m f = bind_r m' g"
  by (cases m') auto

section \<open>Strings\<close>

definition jstr :: "string \<Rightarrow> jsstring" where
  "jstr s = map of_char s"

lemma jstr_simps [simp]:
  "jstr [] = []"
  "jstr (c # s) = of_char c # jstr s"
  "jstr (s @ t) = jstr s @ jstr t"
  "length (jstr s) = length s"
  by (simp_all add: jstr_def)

lemma unat_of_char_u16: "unat (of_char c :: code_unit) = of_char c"
proof -
  have "(of_char c :: nat) < 65536"
    using nat_of_char_less_256 [of c] by linarith
  then have "unat (of_nat (of_char c) :: code_unit) = of_char c"
    by (simp only: unat_of_nat) simp
  then show ?thesis by (simp only: of_nat_of_char)
qed

lemma of_char_u16_eq_iff [simp]: "(of_char c :: code_unit) = of_char d \<longleftrightarrow> c = d"
  by (metis unat_of_char_u16 of_char_eq_iff)

lemma jstr_eq_iff [simp]: "jstr s = jstr t \<longleftrightarrow> s = t"
  by (auto simp: jstr_def inj_map_eq_map inj_def)

text \<open>\<open>s.charCodeAt(i)\<close>: the code unit, or \<open>NaN\<close> out of range.\<close>

definition charCodeAt :: "jsstring \<Rightarrow> int \<Rightarrow> jnum" where
  "charCodeAt s i =
     (if 0 \<le> i \<and> i < int (length s) then Some (uint (s ! nat i)) else None)"

text \<open>\<open>s.slice(a, b)\<close> for \<open>0 \<le> a\<close>, \<open>0 \<le> b\<close>.\<close>

definition str_slice :: "jsstring \<Rightarrow> int \<Rightarrow> int \<Rightarrow> jsstring" where
  "str_slice s a b = take (nat (b - a)) (drop (nat a) s)"

text \<open>\<open>String.fromCharCode\<close> of one number.\<close>

definition fromCharCode :: "int \<Rightarrow> code_unit" where
  "fromCharCode n = word_of_int n"

text \<open>
  \<open>toLowerCase\<close> on the ASCII range.  The modelled code compares its result only with the
  ASCII names of encodings, none of which a non-ASCII code unit lowers to.
\<close>

definition lower :: "code_unit \<Rightarrow> code_unit" where
  "lower c = (if 65 \<le> c \<and> c \<le> 90 then c + 32 else c)"

definition toLowerCase :: "jsstring \<Rightarrow> jsstring" where
  "toLowerCase s = map lower s"

section \<open>Numbers\<close>

definition to_int32 :: "int \<Rightarrow> int" where
  [js_defs]: "to_int32 x = (x + 2 ^ 31) mod 2 ^ 32 - 2 ^ 31"

definition to_uint32 :: "int \<Rightarrow> int" where
  [js_defs]: "to_uint32 x = x mod 2 ^ 32"

definition num32 :: "jnum \<Rightarrow> int" where
  [js_defs]: "num32 v = (case v of None \<Rightarrow> 0 | Some x \<Rightarrow> to_int32 x)"

text \<open>The binary operators on numbers that may be \<open>NaN\<close>.\<close>

definition nadd :: "jnum \<Rightarrow> jnum \<Rightarrow> jnum" where
  [js_defs]: "nadd a b = (case (a, b) of (Some x, Some y) \<Rightarrow> Some (x + y) | _ \<Rightarrow> None)"

definition nmul :: "jnum \<Rightarrow> jnum \<Rightarrow> jnum" where
  [js_defs]: "nmul a b = (case (a, b) of (Some x, Some y) \<Rightarrow> Some (x * y) | _ \<Rightarrow> None)"

definition nor :: "jnum \<Rightarrow> jnum \<Rightarrow> jnum" where
  [js_defs]: "nor a b = Some (num32 a OR num32 b)"

definition nand :: "jnum \<Rightarrow> jnum \<Rightarrow> jnum" where
  [js_defs]: "nand a b = Some (num32 a AND num32 b)"

definition nshl :: "jnum \<Rightarrow> nat \<Rightarrow> jnum" where
  [js_defs]: "nshl a n = Some (to_int32 (num32 a * 2 ^ n))"

definition band :: "int \<Rightarrow> int \<Rightarrow> int" where
  [js_defs]: "band a b = to_int32 a AND to_int32 b"

definition bor :: "int \<Rightarrow> int \<Rightarrow> int" where
  [js_defs]: "bor a b = to_int32 a OR to_int32 b"

definition shl :: "int \<Rightarrow> nat \<Rightarrow> int" where
  [js_defs]: "shl a n = to_int32 (to_int32 a * 2 ^ n)"

definition sar :: "int \<Rightarrow> nat \<Rightarrow> int" where
  [js_defs]: "sar a n = to_int32 a div 2 ^ n"

definition shr :: "int \<Rightarrow> nat \<Rightarrow> int" where
  [js_defs]: "shr a n = to_uint32 a div 2 ^ n"

text \<open>\<open>a / b\<close> followed by a conversion to an integer: the quotient rounded towards zero.\<close>

definition tdiv :: "int \<Rightarrow> int \<Rightarrow> int" where
  [js_defs]: "tdiv a b = sgn a * sgn b * (\<bar>a\<bar> div \<bar>b\<bar>)"

lemma to_int32_id [simp]: "- (2 ^ 31) \<le> x \<Longrightarrow> x < 2 ^ 31 \<Longrightarrow> to_int32 x = x"
  by (simp add: to_int32_def)

lemma to_uint32_id [simp]: "0 \<le> x \<Longrightarrow> x < 2 ^ 32 \<Longrightarrow> to_uint32 x = x"
  by (simp add: to_uint32_def)

lemma to_int32_bounds: "- (2 ^ 31) \<le> to_int32 x" "to_int32 x < 2 ^ 31"
proof -
  have "0 \<le> (x + 2 ^ 31) mod 2 ^ 32" "(x + 2 ^ 31) mod 2 ^ 32 < (2 ^ 32 :: int)"
    by simp_all
  then show "- (2 ^ 31) \<le> to_int32 x" "to_int32 x < 2 ^ 31"
    by (simp_all add: to_int32_def)
qed

lemma to_int32_mod: "to_int32 x mod 2 ^ 32 = x mod 2 ^ 32"
  by (simp add: to_int32_def mod_simps)

lemma to_int32_wrap:
  assumes "2 ^ 31 \<le> x" "x < 2 ^ 32"
  shows "to_int32 x = x - 2 ^ 32"
proof -
  have "(x + 2 ^ 31) mod 2 ^ 32 = (x + 2 ^ 31 - 2 ^ 32) mod 2 ^ 32"
    by (rule minus_mod_self2 [symmetric])
  also have "\<dots> = x + 2 ^ 31 - 2 ^ 32"
    using assms by (intro mod_pos_pos_trivial) auto
  finally show ?thesis by (simp add: to_int32_def)
qed

lemma to_int32_mod_power: "n \<le> 32 \<Longrightarrow> to_int32 x mod 2 ^ n = x mod 2 ^ n"
  using mod_mod_cancel [OF le_imp_power_dvd, of n 32 "to_int32 x" 2]
    mod_mod_cancel [OF le_imp_power_dvd, of n 32 x 2]
  by (simp only: to_int32_mod)

lemma to_int32_mod_byte [simp]: "to_int32 x mod 256 = x mod 256"
  using to_int32_mod_power [of 8 x] by simp

section \<open>Bit operations as arithmetic\<close>

lemma and_mask_mod: "(a :: int) AND (2 ^ n - 1) = a mod 2 ^ n"
  using take_bit_eq_mask [of n a] by (simp add: take_bit_eq_mod mask_eq_exp_minus_1)

lemmas and_mask_numerals [js_arith] =
  and_mask_mod [of _ 4, simplified] and_mask_mod [of _ 5, simplified]
  and_mask_mod [of _ 6, simplified] and_mask_mod [of _ 7, simplified]
  and_mask_mod [of _ 8, simplified] and_mask_mod [of _ 10, simplified]

lemma and_shifted_eq_0:
  fixes a b :: int
  assumes "0 \<le> a" "a < 2 ^ n"
  shows "a AND (b * 2 ^ n) = 0"
proof -
  have "take_bit n a AND push_bit n b = 0"
    by (rule bit_eqI) (auto simp: bit_simps)
  then show ?thesis
    using assms by (simp add: take_bit_int_eq_self push_bit_eq_mult)
qed

lemma or_shifted_eq_add:
  fixes a b :: int
  assumes "0 \<le> a" "a < 2 ^ n"
  shows "a OR (b * 2 ^ n) = a + b * 2 ^ n" "(b * 2 ^ n) OR a = b * 2 ^ n + a"
  using and_shifted_eq_0 [OF assms, of b]
  by (simp_all add: disjunctive_add_eq_or and.commute)

lemma uint_byte_bounds [simp]: "0 \<le> uint (b :: byte)" "uint (b :: byte) < 256"
  using uint_lt2p [of b] by simp_all

lemma uint_code_unit_bounds [simp]:
  "0 \<le> uint (c :: code_unit)" "uint (c :: code_unit) < 65536"
  using uint_lt2p [of c] by simp_all

lemma to_int32_uint [simp]:
  "to_int32 (uint (b :: byte)) = uint b" "to_int32 (uint (c :: code_unit)) = uint c"
proof -
  have "- (2 ^ 31) \<le> uint b" "uint b < 2 ^ 31" "- (2 ^ 31) \<le> uint c" "uint c < 2 ^ 31"
    using order_less_trans [OF uint_byte_bounds(2) [of b], of "2 ^ 31"]
      order_less_trans [OF uint_code_unit_bounds(2) [of c], of "2 ^ 31"]
      order_trans [OF _ uint_byte_bounds(1) [of b], of "- (2 ^ 31)"]
      order_trans [OF _ uint_code_unit_bounds(1) [of c], of "- (2 ^ 31)"] by simp_all
  then show "to_int32 (uint b) = uint b" "to_int32 (uint c) = uint c"
    by (simp_all only: to_int32_id)
qed

lemma uint_byte_of_int [simp]: "uint (word_of_int x :: byte) = x mod 256"
  by (simp add: uint_word_of_int)

lemma uint_code_unit_of_int [simp]: "uint (word_of_int x :: code_unit) = x mod 65536"
  by (simp add: uint_word_of_int)

lemma to_int32_signed_take_bit: "to_int32 x = signed_take_bit 31 x"
  by (simp add: to_int32_def signed_take_bit_eq_take_bit_shift take_bit_eq_mod)

lemma to_int32_idem [simp]: "to_int32 (to_int32 x) = to_int32 x"
  using to_int32_bounds [of x] by (intro to_int32_id) auto

lemma num32_Some_to_int32 [simp]: "to_int32 (num32 a) = num32 a"
  by (cases a) (simp_all add: num32_def)

lemma num32_nor: "num32 (nor a b) = num32 a OR num32 b"
proof -
  have "to_int32 (num32 a OR num32 b) = to_int32 (num32 a) OR to_int32 (num32 b)"
    by (simp only: to_int32_signed_take_bit) (rule bit_eqI, auto simp: bit_simps)
  then show ?thesis by (simp add: nor_def num32_def [of "Some _"])
qed

lemma nor_ac: "nor (nor a b) c = nor a (nor b c)" "nor a b = nor b a" "nor a (nor b c) = nor b (nor a c)"
  using num32_nor [of a b] num32_nor [of b c] num32_nor [of a c]
  by (simp_all add: nor_def ac_simps)

lemma length1E:
  assumes "length xs = 1"
  obtains a0 where "xs = [a0]"
  using assms by (auto simp: length_Suc_conv)

lemma length2E:
  assumes "length xs = 2"
  obtains a0 a1 where "xs = [a0, a1]"
  using assms by (auto simp: length_Suc_conv numeral_eq_Suc)

end
