(* ===== verification/Buffer_Core.thy ===== *)
theory Buffer_Core
  imports Js_Prelude "HOL-Library.List_Lexorder"
begin

text \<open>
  The \<open>Buffer\<close> object of \<open>client/lcd/swagger-ui/swagger-ui.js\<close>: its memory, allocation, slices,
  byte swapping, comparison, copying and concatenation.

  A \<open>Buffer\<close> is a view of a byte array that other buffers may share (\<open>subarray\<close>), so the model
  has an explicit store: \<open>h_blocks\<close> holds the arrays, a \<open>buf\<close> names its array, offset and length,
  and \<open>b_id\<close> is the identity of the object (what \<open>===\<close> compares).  \<open>contents h b\<close> is the list of
  bytes that \<open>b\<close> denotes in \<open>h\<close>: the operations are specified over it.  \<open>h_typed\<close> is
  \<open>Buffer.TYPED_ARRAY_SUPPORT\<close>; in the mode without typed arrays a buffer is a plain object whose
  indices below \<open>length\<close> always hold bytes, and index properties at or above \<open>length\<close> are not
  represented.
\<close>

section \<open>The store\<close>

record buf =
  b_id :: nat
  b_arr :: nat
  b_off :: nat
  b_len :: nat

record heap =
  h_blocks :: "byte list list"
  h_next :: nat
  h_typed :: bool

definition buf_ok :: "heap \<Rightarrow> buf \<Rightarrow> bool" where
  "buf_ok h b \<longleftrightarrow> b_arr b < length (h_blocks h)
     \<and> b_off b + b_len b \<le> length (h_blocks h ! b_arr b)"

definition contents :: "heap \<Rightarrow> buf \<Rightarrow> byte list" where
  "contents h b = take (b_len b) (drop (b_off b) (h_blocks h ! b_arr b))"

text \<open>\<open>b[i]\<close>: the byte as a number, \<open>undefined\<close> out of range.\<close>

definition bget :: "heap \<Rightarrow> buf \<Rightarrow> int \<Rightarrow> jnum" where
  "bget h b i =
     (if 0 \<le> i \<and> i < int (b_len b)
      then Some (uint (h_blocks h ! b_arr b ! (b_off b + nat i))) else None)"

text \<open>\<open>b[i] = v\<close>: the number modulo 256; no effect out of range.\<close>

definition bset :: "heap \<Rightarrow> buf \<Rightarrow> int \<Rightarrow> jnum \<Rightarrow> heap" where
  "bset h b i v =
     (if 0 \<le> i \<and> i < int (b_len b)
      then h\<lparr>h_blocks := (h_blocks h)[b_arr b :=
             (h_blocks h ! b_arr b)[b_off b + nat i :=
               word_of_int (case v of None \<Rightarrow> 0 | Some x \<Rightarrow> x)]]\<rparr>
      else h)"

section \<open>Allocation\<close>

definition kMaxLength :: "heap \<Rightarrow> int" where
  "kMaxLength h = (if h_typed h then 2147483647 else 1073741823)"

definition assertSize :: "int \<Rightarrow> unit res" where
  "assertSize size' =
     (if size' < 0 then Inl (RangeError ''\"size\" argument must not be negative'') else Inr ())"

definition checked :: "heap \<Rightarrow> int \<Rightarrow> int res" where
  "checked h length' =
     (if kMaxLength h \<le> length' then Inl (RangeError ''Attempt to allocate Buffer larger than maximum size'')
      else Inr (to_int32 length'))"

text \<open>
  With typed arrays \<open>createBuffer(null, length)\<close> is \<open>new Uint8Array(length)\<close> under the prototype of
  \<open>Buffer\<close>; without them it is \<open>new Buffer(length)\<close>, that is \<open>allocUnsafe\<close> on the new object, which
  checks the size and zeroes the bytes.
\<close>

definition fresh_buffer :: "heap \<Rightarrow> nat \<Rightarrow> buf \<times> heap" where
  "fresh_buffer h n =
     (\<lparr>b_id = h_next h, b_arr = length (h_blocks h), b_off = 0, b_len = n\<rparr>,
      h\<lparr>h_blocks := h_blocks h @ [replicate n 0], h_next := Suc (h_next h)\<rparr>)"

definition createBuffer :: "heap \<Rightarrow> int \<Rightarrow> (buf \<times> heap) res" where
  "createBuffer h length' =
     (if kMaxLength h < length' then Inl (RangeError ''Invalid typed array length'')
      else if h_typed h
      then if length' < 0 then Inl (RangeError ''Invalid typed array length'')
           else Inr (fresh_buffer h (nat length'))
      else bind_r (assertSize length') (\<lambda>_.
           bind_r (checked h length') (\<lambda>n. Inr (fresh_buffer h (nat n)))))"

definition allocUnsafe :: "heap \<Rightarrow> int \<Rightarrow> (buf \<times> heap) res" where
  "allocUnsafe h size' =
     bind_r (assertSize size') (\<lambda>_.
     if size' < 0 then createBuffer h 0
     else bind_r (checked h size') (\<lambda>n. createBuffer h (to_int32 n)))"

text \<open>\<open>Buffer.alloc(size)\<close> without a fill value.\<close>

definition alloc :: "heap \<Rightarrow> int \<Rightarrow> (buf \<times> heap) res" where
  "alloc h size' = bind_r (assertSize size') (\<lambda>_. createBuffer h size')"

fun store_all :: "heap \<Rightarrow> buf \<Rightarrow> int \<Rightarrow> jnum list \<Rightarrow> heap" where
  "store_all h b i [] = h"
| "store_all h b i (x # xs) = store_all (bset h b i x) b (i + 1) xs"

definition fromArrayLike :: "heap \<Rightarrow> jnum list \<Rightarrow> (buf \<times> heap) res" where
  "fromArrayLike h array =
     bind_r (checked h (int (length array))) (\<lambda>n.
     bind_r (createBuffer h (to_int32 n)) (\<lambda>(that, h').
     Inr (that, store_all h' that 0 (map (\<lambda>x. nand x (Some 255)) array))))"

section \<open>Slices\<close>

definition clamp_index :: "int \<Rightarrow> int \<Rightarrow> int" where
  "clamp_index len i =
     (if i < 0 then (if i + len < 0 then 0 else i + len)
      else if i > len then len else i)"

fun copy_bytes :: "heap \<Rightarrow> buf \<Rightarrow> int \<Rightarrow> buf \<Rightarrow> int \<Rightarrow> int \<Rightarrow> nat \<Rightarrow> heap" where
  "copy_bytes h src start dst targetStart i 0 = h"
| "copy_bytes h src start dst targetStart i (Suc n) =
     copy_bytes (bset h dst (i + targetStart) (bget h src (i + start)))
       src start dst targetStart (i + 1) n"

definition slice :: "heap \<Rightarrow> buf \<Rightarrow> int \<Rightarrow> int option \<Rightarrow> (buf \<times> heap) res" where
  "slice h b start end' =
     (let len = int (b_len b);
          s = clamp_index len (to_int32 start);
          e0 = (case end' of None \<Rightarrow> len | Some e \<Rightarrow> clamp_index len (to_int32 e));
          e = (if e0 < s then s else e0)
      in if h_typed h
         then Inr (\<lparr>b_id = h_next h, b_arr = b_arr b, b_off = b_off b + nat s, b_len = nat (e - s)\<rparr>,
                   h\<lparr>h_next := Suc (h_next h)\<rparr>)
         else bind_r (allocUnsafe h (e - s)) (\<lambda>(newBuf, h').
              Inr (newBuf, copy_bytes h' b s newBuf 0 0 (nat (e - s)))))"

section \<open>Comparison\<close>

fun compare_loop :: "heap \<Rightarrow> buf \<Rightarrow> buf \<Rightarrow> int \<Rightarrow> nat \<Rightarrow> int \<times> int \<Rightarrow> int \<times> int" where
  "compare_loop h a b i 0 xy = xy"
| "compare_loop h a b i (Suc n) xy =
     (case (bget h a i, bget h b i) of
        (Some x, Some y) \<Rightarrow> if x \<noteq> y then (x, y) else compare_loop h a b (i + 1) n xy
      | _ \<Rightarrow> compare_loop h a b (i + 1) n xy)"

definition order_of :: "int \<times> int \<Rightarrow> int" where
  "order_of p = (case p of (x, y) \<Rightarrow> if x < y then - 1 else if y < x then 1 else 0)"

definition compare :: "heap \<Rightarrow> buf \<Rightarrow> buf \<Rightarrow> int" where
  "compare h a b =
     (if b_id a = b_id b then 0
      else order_of (compare_loop h a b 0 (min (b_len a) (b_len b)) (int (b_len a), int (b_len b))))"

definition equals :: "heap \<Rightarrow> buf \<Rightarrow> buf \<Rightarrow> bool" where
  "equals h a b = (if b_id a = b_id b then True else compare h a b = 0)"

text \<open>\<open>Buffer.prototype.compare\<close>: a range of \<open>this\<close> against a range of \<open>target\<close>.\<close>

definition compare_range ::
  "heap \<Rightarrow> buf \<Rightarrow> buf \<Rightarrow> int option \<Rightarrow> int option \<Rightarrow> int option \<Rightarrow> int option \<Rightarrow> int res" where
  "compare_range h this target start' end' thisStart' thisEnd' =
     (let start = (case start' of None \<Rightarrow> 0 | Some x \<Rightarrow> x);
          endv = (case end' of None \<Rightarrow> int (b_len target) | Some x \<Rightarrow> x);
          thisStart = (case thisStart' of None \<Rightarrow> 0 | Some x \<Rightarrow> x);
          thisEnd = (case thisEnd' of None \<Rightarrow> int (b_len this) | Some x \<Rightarrow> x)
      in if start < 0 \<or> endv > int (b_len target) \<or> thisStart < 0 \<or> thisEnd > int (b_len this)
         then Inl (RangeError ''out of range index'')
         else if thisStart \<ge> thisEnd \<and> start \<ge> endv then Inr 0
         else if thisStart \<ge> thisEnd then Inr (- 1)
         else if start \<ge> endv then Inr 1
         else if b_id this = b_id target then Inr 0
         else
           let s = to_uint32 start; e = to_uint32 endv;
               ts = to_uint32 thisStart; te = to_uint32 thisEnd
           in bind_r (slice h this ts (Some te)) (\<lambda>(thisCopy, h1).
              bind_r (slice h1 target s (Some e)) (\<lambda>(targetCopy, h2).
              Inr (order_of (compare_loop h2 thisCopy targetCopy 0 (nat (min (te - ts) (e - s)))
                     (te - ts, e - s))))))"

section \<open>Byte swapping\<close>

definition swap :: "heap \<Rightarrow> buf \<Rightarrow> int \<Rightarrow> int \<Rightarrow> heap" where
  "swap h b n m =
     (let i = bget h b n; h1 = bset h b n (bget h b m) in bset h1 b m i)"

fun swap16_loop :: "heap \<Rightarrow> buf \<Rightarrow> int \<Rightarrow> nat \<Rightarrow> heap" where
  "swap16_loop h b i 0 = h"
| "swap16_loop h b i (Suc n) = swap16_loop (swap h b i (i + 1)) b (i + 2) n"

definition swap16 :: "heap \<Rightarrow> buf \<Rightarrow> heap res" where
  "swap16 h b =
     (if b_len b mod 2 \<noteq> 0 then Inl (RangeError ''Buffer size must be a multiple of 16-bits'')
      else Inr (swap16_loop h b 0 (b_len b div 2)))"

fun swap32_loop :: "heap \<Rightarrow> buf \<Rightarrow> int \<Rightarrow> nat \<Rightarrow> heap" where
  "swap32_loop h b i 0 = h"
| "swap32_loop h b i (Suc n) =
     swap32_loop (swap (swap h b i (i + 3)) b (i + 1) (i + 2)) b (i + 4) n"

definition swap32 :: "heap \<Rightarrow> buf \<Rightarrow> heap res" where
  "swap32 h b =
     (if b_len b mod 4 \<noteq> 0 then Inl (RangeError ''Buffer size must be a multiple of 32-bits'')
      else Inr (swap32_loop h b 0 (b_len b div 4)))"

fun swap64_loop :: "heap \<Rightarrow> buf \<Rightarrow> int \<Rightarrow> nat \<Rightarrow> heap" where
  "swap64_loop h b i 0 = h"
| "swap64_loop h b i (Suc n) =
     swap64_loop
       (swap (swap (swap (swap h b i (i + 7)) b (i + 1) (i + 6)) b (i + 2) (i + 5)) b (i + 3) (i + 4))
       b (i + 8) n"

definition swap64 :: "heap \<Rightarrow> buf \<Rightarrow> heap res" where
  "swap64 h b =
     (if b_len b mod 8 \<noteq> 0 then Inl (RangeError ''Buffer size must be a multiple of 64-bits'')
      else Inr (swap64_loop h b 0 (b_len b div 8)))"

section \<open>Copying and concatenation\<close>

fun copy_bytes_down :: "heap \<Rightarrow> buf \<Rightarrow> int \<Rightarrow> buf \<Rightarrow> int \<Rightarrow> nat \<Rightarrow> heap" where
  "copy_bytes_down h src start dst targetStart 0 = h"
| "copy_bytes_down h src start dst targetStart (Suc n) =
     copy_bytes_down (bset h dst (int n + targetStart) (bget h src (int n + start)))
       src start dst targetStart n"

text \<open>\<open>Uint8Array.prototype.set\<close> reads the whole source before it writes.\<close>

definition typed_set :: "heap \<Rightarrow> buf \<Rightarrow> int \<Rightarrow> buf \<Rightarrow> int \<Rightarrow> int \<Rightarrow> heap" where
  "typed_set h src start dst targetStart len =
     store_all h dst targetStart (map (\<lambda>i. bget h src (start + int i)) [0..<nat len])"

definition copy ::
  "heap \<Rightarrow> buf \<Rightarrow> buf \<Rightarrow> jnum \<Rightarrow> jnum \<Rightarrow> jnum \<Rightarrow> (int \<times> heap) res" where
  "copy h this target targetStart' start' end' =
     (let start = (case start' of None \<Rightarrow> 0 | Some s \<Rightarrow> s);
          end0 = (case end' of None \<Rightarrow> int (b_len this) | Some e \<Rightarrow> e);
          targetStart =
            (case targetStart' of None \<Rightarrow> 0
             | Some t \<Rightarrow> if t \<ge> int (b_len target) then int (b_len target) else t);
          end1 = (if end0 > 0 \<and> end0 < start then start else end0)
      in if end1 = start then Inr (0, h)
         else if b_len target = 0 \<or> b_len this = 0 then Inr (0, h)
         else if targetStart < 0 then Inl (RangeError ''targetStart out of bounds'')
         else if start < 0 \<or> start \<ge> int (b_len this) then Inl (RangeError ''sourceStart out of bounds'')
         else if end1 < 0 then Inl (RangeError ''sourceEnd out of bounds'')
         else
           let end2 = (if end1 > int (b_len this) then int (b_len this) else end1);
               end3 = (if int (b_len target) - targetStart < end2 - start
                       then int (b_len target) - targetStart + start else end2);
               len = end3 - start
           in if b_id this = b_id target \<and> start < targetStart \<and> targetStart < end3
              then Inr (len, copy_bytes_down h this start target targetStart (nat len))
              else if len < 1000 \<or> \<not> h_typed h
              then Inr (len, copy_bytes h this start target targetStart 0 (nat len))
              else Inr (len, typed_set h this start target targetStart len))"

fun concat_loop :: "heap \<Rightarrow> buf \<Rightarrow> int \<Rightarrow> buf list \<Rightarrow> heap res" where
  "concat_loop h buffer pos [] = Inr h"
| "concat_loop h buffer pos (b # bs) =
     bind_r (copy h b buffer (Some pos) None None) (\<lambda>(_, h').
     concat_loop h' buffer (pos + int (b_len b)) bs)"

definition concat_bufs :: "heap \<Rightarrow> buf list \<Rightarrow> int option \<Rightarrow> (buf \<times> heap) res" where
  "concat_bufs h bs length' =
     (if bs = [] then alloc h 0
      else
        let n = (case length' of None \<Rightarrow> sum_list (map (int \<circ> b_len) bs) | Some n \<Rightarrow> n)
        in bind_r (allocUnsafe h n) (\<lambda>(buffer, h').
           bind_r (concat_loop h' buffer 0 bs) (\<lambda>h''. Inr (buffer, h''))))"


section \<open>Reading and writing through a view\<close>

lemma length_contents [simp]: "buf_ok h b \<Longrightarrow> length (contents h b) = b_len b"
  by (auto simp: buf_ok_def contents_def)

lemma bget_contents:
  "buf_ok h b \<Longrightarrow>
   bget h b i = (if 0 \<le> i \<and> i < int (b_len b) then Some (uint (contents h b ! nat i)) else None)"
  by (auto simp: bget_def contents_def buf_ok_def nat_less_iff)

lemma bget_out [simp]: "\<not> (0 \<le> i \<and> i < int (b_len b)) \<Longrightarrow> bget h b i = None"
  by (auto simp: bget_def)

definition num_byte :: "jnum \<Rightarrow> byte" where
  "num_byte v = word_of_int (case v of None \<Rightarrow> 0 | Some x \<Rightarrow> x)"

lemma num_byte_Some [simp]: "num_byte (Some x) = word_of_int x"
  by (simp add: num_byte_def)

lemma buf_ok_bset [simp]: "buf_ok (bset h b i v) c \<longleftrightarrow> buf_ok h c"
  by (cases "b_arr b = b_arr c") (auto simp: buf_ok_def bset_def)

lemma bset_frame [simp]:
  "h_typed (bset h b i v) = h_typed h" "h_next (bset h b i v) = h_next h"
  "length (h_blocks (bset h b i v)) = length (h_blocks h)"
  by (simp_all add: bset_def)

lemma contents_bset_same:
  assumes "buf_ok h b"
  shows "contents (bset h b i v) b =
    (if 0 \<le> i \<and> i < int (b_len b) then (contents h b)[nat i := num_byte v] else contents h b)"
  using assms
  by (auto simp: contents_def bset_def buf_ok_def num_byte_def drop_update_swap take_update_swap
      nat_less_iff)

lemma contents_bset_other:
  "b_arr b \<noteq> b_arr c \<Longrightarrow> contents (bset h b i v) c = contents h c"
  by (auto simp: contents_def bset_def)

text \<open>A write through one view of an array seen through another view of it.\<close>

lemma contents_bset_alias:
  assumes "buf_ok h b" "buf_ok h c" "b_arr b = b_arr c" "0 \<le> i" "i < int (b_len b)"
  shows "contents (bset h b i v) c =
    (if b_off c \<le> b_off b + nat i
     then (contents h c)[b_off b + nat i - b_off c := num_byte v] else contents h c)"
  using assms
  by (auto simp: contents_def bset_def buf_ok_def num_byte_def drop_update_swap take_update_swap
      not_le)


section \<open>The interface of a byte array\<close>

text \<open>
  What the accessors of the next theories rely on: a state of which a fixed range of bytes can be
  read and written by index, with the semantics of a typed array.
\<close>

definition overwrite :: "nat \<Rightarrow> 'a list \<Rightarrow> 'a list \<Rightarrow> 'a list" where
  "overwrite i ys xs = take i xs @ ys @ drop (i + length ys) xs"

lemma overwrite_Nil [simp]: "overwrite i [] xs = xs"
  by (simp add: overwrite_def)

lemma length_overwrite [simp]: "i + length ys \<le> length xs \<Longrightarrow> length (overwrite i ys xs) = length xs"
  by (auto simp: overwrite_def)

lemma overwrite_Cons:
  assumes "i + length (y # ys) \<le> length xs"
  shows "overwrite (Suc i) ys (xs[i := y]) = overwrite i (y # ys) xs"
  using assms by (simp add: overwrite_def take_Suc_conv_app_nth upd_conv_take_nth_drop ac_simps)

lemma nth_overwrite:
  assumes "i + length ys \<le> length xs" "j < length xs"
  shows "overwrite i ys xs ! j = (if i \<le> j \<and> j < i + length ys then ys ! (j - i) else xs ! j)"
  using assms by (auto simp: overwrite_def nth_append)

locale byte_array =
  fixes get :: "'s \<Rightarrow> int \<Rightarrow> jnum"
    and put :: "'s \<Rightarrow> int \<Rightarrow> jnum \<Rightarrow> 's"
    and len :: nat
    and bytes :: "'s \<Rightarrow> byte list"
    and ok :: "'s \<Rightarrow> bool"
  assumes length_bytes: "ok s \<Longrightarrow> length (bytes s) = len"
    and get_bytes: "ok s \<Longrightarrow>
      get s i = (if 0 \<le> i \<and> i < int len then Some (uint (bytes s ! nat i)) else None)"
    and bytes_put: "ok s \<Longrightarrow>
      bytes (put s i v) = (if 0 \<le> i \<and> i < int len then (bytes s)[nat i := num_byte v] else bytes s)"
    and ok_put: "ok s \<Longrightarrow> ok (put s i v)"
begin

lemma get_put:
  assumes "ok s" "0 \<le> i" "i < int len"
  shows "get (put s i v) j = (if i = j then Some (uint (num_byte v)) else get s j)"
proof (cases "0 \<le> j \<and> j < int len")
  case True
  then have "nat i = nat j \<longleftrightarrow> i = j" "nat i < length (bytes s)" "nat j < length (bytes s)"
    using assms by (auto simp: length_bytes)
  with assms True show ?thesis
    by (simp add: get_bytes ok_put bytes_put nth_list_update)
next
  case False
  with assms show ?thesis
    by (auto simp: get_bytes ok_put)
qed

lemma get_put_same:
  "ok s \<Longrightarrow> 0 \<le> i \<Longrightarrow> i < int len \<Longrightarrow> get (put s i (Some x)) i = Some (x mod 256)"
  by (simp add: get_put)

lemma get_put_other:
  "ok s \<Longrightarrow> i \<noteq> j \<Longrightarrow> get (put s i v) j = get s j"
  by (cases "0 \<le> i \<and> i < int len") (auto simp: get_put get_bytes ok_put bytes_put)

text \<open>A run of writes at consecutive indices replaces that run of bytes.\<close>

lemma bytes_puts:
  assumes "ok s" "i + length vs \<le> len"
  shows "bytes (snd (foldl (\<lambda>(j, t) v. (j + 1, put t j v)) (int i, s) vs)) =
           overwrite i (map num_byte vs) (bytes s)"
    and "ok (snd (foldl (\<lambda>(j, t) v. (j + 1, put t j v)) (int i, s) vs))"
  using assms
proof (induction vs arbitrary: i s)
  case Nil
  { case 1 then show ?case by simp }
  { case 2 then show ?case by simp }
next
  case (Cons v vs)
  { case 1
    then show ?case
      using Cons.IH(1) [of "put s (int i) v" "Suc i"]
      by (simp add: ok_put bytes_put overwrite_Cons length_bytes ac_simps) }
  { case 2
    then show ?case
      using Cons.IH(2) [of "put s (int i) v" "Suc i"] by (simp add: ok_put ac_simps) }
qed

end

interpretation view: byte_array
  "\<lambda>h. bget h b" "\<lambda>h. bset h b" "b_len b" "\<lambda>h. contents h b" "\<lambda>h. buf_ok h b" for b
  by unfold_locales (simp_all add: bget_contents contents_bset_same)

lemma store_all_foldl:
  "store_all h b i vs = snd (foldl (\<lambda>(j, t) v. (j + 1, bset t b j v)) (i, h) vs)"
  by (induction vs arbitrary: h i) simp_all

lemma contents_store_all:
  assumes "buf_ok h b" "i + length vs \<le> b_len b"
  shows "contents (store_all h b (int i) vs) b = overwrite i (map num_byte vs) (contents h b)"
  using view.bytes_puts(1) [OF assms] by (simp add: store_all_foldl)

lemma buf_ok_store_all [simp]: "buf_ok (store_all h b i vs) c \<longleftrightarrow> buf_ok h c"
  by (induction h b i vs rule: store_all.induct) simp_all

lemma store_all_frame [simp]:
  "h_typed (store_all h b i vs) = h_typed h" "h_next (store_all h b i vs) = h_next h"
  "length (h_blocks (store_all h b i vs)) = length (h_blocks h)"
  by (induction h b i vs rule: store_all.induct) simp_all

lemma contents_store_all_other:
  "b_arr b \<noteq> b_arr c \<Longrightarrow> contents (store_all h b i vs) c = contents h c"
  by (induction h b i vs rule: store_all.induct) (simp_all add: contents_bset_other)

section \<open>Allocation and the copy loops\<close>

lemma to_int32_len: "0 \<le> n \<Longrightarrow> n < kMaxLength h \<Longrightarrow> to_int32 n = n"
  by (auto simp: kMaxLength_def split: if_splits)

lemma createBuffer_fresh: "0 \<le> n \<Longrightarrow> n < kMaxLength h \<Longrightarrow> createBuffer h n = Inr (fresh_buffer h (nat n))"
  by (simp add: createBuffer_def assertSize_def checked_def to_int32_len)

lemma createBuffer_ok:
  assumes "0 \<le> n" "n < kMaxLength h"
  shows "\<exists>b h'. createBuffer h n = Inr (b, h') \<and> b_len b = nat n \<and> b_id b = h_next h
    \<and> b_arr b = length (h_blocks h) \<and> b_off b = 0 \<and> contents h' b = replicate (nat n) 0 \<and> buf_ok h' b
    \<and> h_typed h' = h_typed h \<and> h_next h' = Suc (h_next h)
    \<and> (\<forall>c. buf_ok h c \<longrightarrow> buf_ok h' c \<and> contents h' c = contents h c \<and> b_arr c \<noteq> b_arr b)"
  using assms by (auto simp: createBuffer_fresh fresh_buffer_def buf_ok_def contents_def nth_append)

lemma allocUnsafe_eq:
  assumes "0 \<le> n" "n < kMaxLength h"
  shows "allocUnsafe h n = createBuffer h n"
  using assms by (simp add: allocUnsafe_def assertSize_def checked_def to_int32_len)

lemma copy_bytes_store_all:
  assumes "\<And>h k j v. P h \<Longrightarrow> i \<le> k \<Longrightarrow> k < j \<Longrightarrow> j < i + int n \<Longrightarrow>
             bget (bset h dst (k + t) v) src (j + s) = bget h src (j + s)"
    and "\<And>h k v. P h \<Longrightarrow> P (bset h dst k v)" and "P h"
  shows "copy_bytes h src s dst t i n =
           store_all h dst (i + t) (map (\<lambda>k. bget h src (i + int k + s)) [0..<n])"
  using assms
proof (induction n arbitrary: h i)
  case 0
  then show ?case by simp
next
  case (Suc n)
  let ?h = "bset h dst (i + t) (bget h src (i + s))"
  have IH: "copy_bytes ?h src s dst t (i + 1) n =
      store_all ?h dst (i + 1 + t) (map (\<lambda>k. bget ?h src (i + 1 + int k + s)) [0..<n])"
    using Suc.prems by (intro Suc.IH) auto
  have "bget ?h src (i + 1 + int k + s) = bget h src (i + int (Suc k) + s)" if "k < n" for k
    using Suc.prems(1) [OF Suc.prems(3), of i "i + 1 + int k"] that by (simp add: ac_simps)
  then have eq: "map (\<lambda>k. bget ?h src (i + 1 + int k + s)) [0..<n] =
      map (\<lambda>k. bget h src (i + int k + s)) [Suc 0..<Suc n]"
    by (simp add: map_Suc_upt [symmetric] del: upt_Suc)
  show ?case
    using IH [unfolded eq] by (simp add: upt_conv_Cons ac_simps del: upt_Suc)
qed

lemma map_bget_range:
  assumes "buf_ok h b" "s + n \<le> b_len b"
  shows "map (\<lambda>k. num_byte (bget h b (int k + int s))) [0..<n] = take n (drop s (contents h b))"
  using assms by (intro nth_equalityI) (auto simp: bget_contents nat_add_distrib ac_simps)


definition same_view :: "buf \<Rightarrow> buf \<Rightarrow> bool" where
  "same_view a b \<longleftrightarrow> b_arr a = b_arr b \<and> b_off a = b_off b \<and> b_len a = b_len b"

lemma same_view_bget: "same_view a b \<Longrightarrow> bget h a i = bget h b i"
  by (simp add: same_view_def bget_def)

lemma same_view_contents: "same_view a b \<Longrightarrow> contents h a = contents h b"
  by (simp add: same_view_def contents_def)

lemma bget_bset_other_arr: "b_arr b \<noteq> b_arr c \<Longrightarrow> bget (bset h b i v) c j = bget h c j"
  by (auto simp: bget_def bset_def)

lemma copy_bytes_contents:
  assumes ok: "buf_ok h src" "buf_ok h dst" and fit: "s + n \<le> b_len src" "t + n \<le> b_len dst"
    and apart: "b_arr src \<noteq> b_arr dst \<or> same_view src dst \<and> (t \<le> s \<or> s + n \<le> t)"
  shows "contents (copy_bytes h src (int s) dst (int t) 0 n) dst =
           overwrite t (take n (drop s (contents h src))) (contents h dst)"
proof -
  have "copy_bytes h src (int s) dst (int t) 0 n =
      store_all h dst (0 + int t) (map (\<lambda>k. bget h src (0 + int k + int s)) [0..<n])"
  proof (rule copy_bytes_store_all [where P = "\<lambda>h. buf_ok h dst"])
    fix h k j v
    assume h: "buf_ok h dst" and kj: "(0::int) \<le> k" "k < j" "j < 0 + int n"
    show "bget (bset h dst (k + int t) v) src (j + int s) = bget h src (j + int s)"
    proof (cases "b_arr src = b_arr dst")
      case True
      with apart have sv: "same_view src dst" and "k + int t \<noteq> j + int s"
        using kj by auto
      then show ?thesis
        using view.get_put_other [OF h, of "k + int t" "j + int s" v] by (simp add: same_view_bget)
    qed (simp add: bget_bset_other_arr)
  qed (use ok in auto)
  then show ?thesis
    using contents_store_all [OF ok(2), of t "map (\<lambda>k. bget h src (int k + int s)) [0..<n]"] fit ok(1)
    by (simp add: map_bget_range comp_def)
qed

lemma copy_bytes_frame [simp]:
  "buf_ok (copy_bytes h src s dst t i n) c \<longleftrightarrow> buf_ok h c"
  "h_typed (copy_bytes h src s dst t i n) = h_typed h"
  "h_next (copy_bytes h src s dst t i n) = h_next h"
  by (induction h src s dst t i n rule: copy_bytes.induct) simp_all

lemma copy_bytes_other:
  "b_arr dst \<noteq> b_arr c \<Longrightarrow> contents (copy_bytes h src s dst t i n) c = contents h c"
  by (induction h src s dst t i n rule: copy_bytes.induct) (simp_all add: contents_bset_other)

lemma overwrite_snoc:
  assumes "t + length ys < length xs"
  shows "overwrite t ys (xs[t + length ys := y]) = overwrite t (ys @ [y]) xs"
  using assms by (simp add: overwrite_def Cons_nth_drop_Suc [symmetric] drop_update_swap)

lemma copy_bytes_down_contents:
  assumes "buf_ok h b" "s + n \<le> b_len b" "t + n \<le> b_len b" "s < t"
  shows "contents (copy_bytes_down h b (int s) b (int t) n) b =
           overwrite t (take n (drop s (contents h b))) (contents h b)"
  using assms
proof (induction n arbitrary: h)
  case 0
  then show ?case by simp
next
  case (Suc n)
  let ?h = "bset h b (int n + int t) (bget h b (int n + int s))"
  let ?xs = "contents h b"
  have len: "length ?xs = b_len b" using Suc.prems by simp
  have xs': "contents ?h b = ?xs[t + n := ?xs ! (s + n)]"
    using Suc.prems by (simp add: contents_bset_same bget_contents nat_add_distrib add.commute)
  have "contents (copy_bytes_down ?h b (int s) b (int t) n) b =
      overwrite t (take n (drop s (contents ?h b))) (contents ?h b)"
    using Suc.prems by (intro Suc.IH) auto
  also have "take n (drop s (contents ?h b)) = take n (drop s ?xs)"
    using Suc.prems by (simp add: xs' drop_update_swap)
  also have "overwrite t (take n (drop s ?xs)) (contents ?h b) =
      overwrite t (take n (drop s ?xs) @ [?xs ! (s + n)]) ?xs"
    using Suc.prems len overwrite_snoc [of t "take n (drop s ?xs)" ?xs "?xs ! (s + n)"]
    by (simp add: xs')
  also have "take n (drop s ?xs) @ [?xs ! (s + n)] = take (Suc n) (drop s ?xs)"
    using Suc.prems len by (simp add: take_Suc_conv_app_nth)
  finally show ?case by simp
qed




lemma copy_bytes_down_frame [simp]:
  "buf_ok (copy_bytes_down h src s dst t n) c \<longleftrightarrow> buf_ok h c"
  "h_typed (copy_bytes_down h src s dst t n) = h_typed h"
  "h_next (copy_bytes_down h src s dst t n) = h_next h"
  by (induction h src s dst t n rule: copy_bytes_down.induct) simp_all

lemma copy_bytes_down_other:
  "b_arr dst \<noteq> b_arr c \<Longrightarrow> contents (copy_bytes_down h src s dst t n) c = contents h c"
  by (induction h src s dst t n rule: copy_bytes_down.induct) (simp_all add: contents_bset_other)

lemma typed_set_contents:
  assumes "buf_ok h src" "buf_ok h dst" "s + n \<le> b_len src" "t + n \<le> b_len dst"
  shows "contents (typed_set h src (int s) dst (int t) (int n)) dst =
           overwrite t (take n (drop s (contents h src))) (contents h dst)"
  using assms contents_store_all [OF assms(2), of t "map (\<lambda>k. bget h src (int s + int k)) [0..<n]"]
  by (simp add: typed_set_def map_bget_range [symmetric] comp_def add.commute)

text \<open>Object identity: two names of one object are the same view.\<close>

definition distinct_ids :: "buf \<Rightarrow> buf \<Rightarrow> bool" where
  "distinct_ids a b \<longleftrightarrow> (b_id a = b_id b \<longleftrightarrow> a = b)"


definition move_bytes :: "heap \<Rightarrow> buf \<Rightarrow> buf \<Rightarrow> nat \<Rightarrow> nat \<Rightarrow> nat \<Rightarrow> heap" where
  "move_bytes h this target t s n =
     (if b_id this = b_id target \<and> s < t \<and> t < s + n
      then copy_bytes_down h this (int s) target (int t) n
      else if n < 1000 \<or> \<not> h_typed h then copy_bytes h this (int s) target (int t) 0 n
      else typed_set h this (int s) target (int t) (int n))"

lemma copy_eq_move_bytes:
  assumes "s < e" "e \<le> b_len this" "t \<le> b_len target" "0 < b_len target"
  defines "n \<equiv> min (e - s) (b_len target - t)"
  shows "copy h this target (Some (int t)) (Some (int s)) (Some (int e)) =
           Inr (int n, move_bytes h this target t s n)"
proof -
  let ?e3 = "if int (b_len target) - int t < int e - int s
    then int (b_len target) - int t + int s else int e"
  have e3: "?e3 = int s + int n"
    using assms by (auto simp: n_def)
  have "copy h this target (Some (int t)) (Some (int s)) (Some (int e)) =
     (let end3 = ?e3; len = end3 - int s
      in if b_id this = b_id target \<and> int s < int t \<and> int t < end3
         then Inr (len, copy_bytes_down h this (int s) target (int t) (nat len))
         else if len < 1000 \<or> \<not> h_typed h
         then Inr (len, copy_bytes h this (int s) target (int t) 0 (nat len))
         else Inr (len, typed_set h this (int s) target (int t) len))"
    using assms by (simp add: copy_def Let_def not_le)
  also have "\<dots> = Inr (int n, move_bytes h this target t s n)"
    unfolding Let_def e3 by (simp add: move_bytes_def)
  finally show ?thesis .
qed

lemma move_bytes_contents:
  assumes ok: "buf_ok h this" "buf_ok h target"
    and fit: "s + n \<le> b_len this" "t + n \<le> b_len target"
    and apart: "this = target \<or> b_arr this \<noteq> b_arr target"
    and id: "distinct_ids this target"
  shows "contents (move_bytes h this target t s n) target =
           overwrite t (take n (drop s (contents h this))) (contents h target)"
proof (cases "this = target \<and> s < t \<and> t < s + n")
  case True
  then show ?thesis
    using ok fit by (auto simp: move_bytes_def copy_bytes_down_contents)
next
  case False
  with id have "\<not> (b_id this = b_id target \<and> s < t \<and> t < s + n)"
    by (auto simp: distinct_ids_def)
  moreover have "b_arr this \<noteq> b_arr target \<or> same_view this target \<and> (t \<le> s \<or> s + n \<le> t)"
    using False apart by (auto simp: same_view_def)
  ultimately show ?thesis
    using copy_bytes_contents [OF ok fit] typed_set_contents [OF ok fit]
    by (auto simp: move_bytes_def)
qed

lemma move_bytes_frame [simp]:
  "buf_ok (move_bytes h this target t s n) c \<longleftrightarrow> buf_ok h c"
  "h_typed (move_bytes h this target t s n) = h_typed h"
  "h_next (move_bytes h this target t s n) = h_next h"
  by (simp_all add: move_bytes_def typed_set_def)

lemma move_bytes_other:
  "b_arr target \<noteq> b_arr c \<Longrightarrow> contents (move_bytes h this target t s n) c = contents h c"
  by (simp add: move_bytes_def typed_set_def copy_bytes_other copy_bytes_down_other
      contents_store_all_other)

lemma copy_run:
  assumes "buf_ok h this" "buf_ok h target"
    and "s \<le> e" "e \<le> b_len this" "t \<le> b_len target"
    and "this = target \<or> b_arr this \<noteq> b_arr target" and "distinct_ids this target"
  obtains h' where
    "copy h this target (Some (int t)) (Some (int s)) (Some (int e)) =
       Inr (int (min (e - s) (b_len target - t)), h')"
    "contents h' target =
       overwrite t (take (min (e - s) (b_len target - t)) (drop s (contents h this))) (contents h target)"
    "\<And>c. b_arr c \<noteq> b_arr target \<Longrightarrow> contents h' c = contents h c"
    "\<And>c. buf_ok h' c \<longleftrightarrow> buf_ok h c" "h_typed h' = h_typed h" "h_next h' = h_next h"
proof (cases "s = e \<or> b_len target = 0")
  case True
  then have "copy h this target (Some (int t)) (Some (int s)) (Some (int e)) = Inr (0, h)"
    using assms by (auto simp: copy_def Let_def)
  moreover have "min (e - s) (b_len target - t) = 0"
    using True by auto
  ultimately show ?thesis by (intro that [of h]) simp_all
next
  case False
  let ?n = "min (e - s) (b_len target - t)"
  have "copy h this target (Some (int t)) (Some (int s)) (Some (int e)) =
      Inr (int ?n, move_bytes h this target t s ?n)"
    using False assms by (intro copy_eq_move_bytes) auto
  moreover have "contents (move_bytes h this target t s ?n) target =
      overwrite t (take ?n (drop s (contents h this))) (contents h target)"
    using assms by (intro move_bytes_contents) auto
  ultimately show ?thesis
    by (intro that [of "move_bytes h this target t s ?n"])
      (simp_all add: move_bytes_other [OF not_sym])
qed


text \<open>Two distinct views of one array that overlap: the ascending loop smears bytes.\<close>

theorem copy_overlapping_views:
  "let h = \<lparr>h_blocks = [[1, 2, 3, 4]], h_next = 2, h_typed = True\<rparr>;
       src = \<lparr>b_id = 0, b_arr = 0, b_off = 0, b_len = 3\<rparr>;
       dst = \<lparr>b_id = 1, b_arr = 0, b_off = 0, b_len = 4\<rparr>
   in map_sum id (\<lambda>(n, h'). (n, contents h' dst)) (copy h src dst (Some 1) (Some 0) (Some 3))
        = Inr (3, [1, 1, 1, 1])
    \<and> overwrite 1 (contents h src) (contents h dst) = [1, 1, 2, 3]"
  by (simp add: copy_def contents_def overwrite_def numeral_eq_Suc bset_def bget_def)



section \<open>Comparison is the lexicographic order of the bytes\<close>

definition lex_sign :: "byte list \<Rightarrow> byte list \<Rightarrow> int" where
  "lex_sign xs ys = (if xs < ys then - 1 else if ys < xs then 1 else 0)"

lemma lex_sign_simps [simp]:
  "lex_sign [] [] = 0" "lex_sign [] (y # ys) = - 1" "lex_sign (x # xs) [] = 1"
  "lex_sign (x # xs) (y # ys) =
     (if x < y then - 1 else if y < x then 1 else lex_sign xs ys)"
  by (auto simp: lex_sign_def)

lemma lex_sign_eq_0 [simp]: "lex_sign xs ys = 0 \<longleftrightarrow> xs = ys"
  by (auto simp: lex_sign_def)

lemma compare_loop_lex_sign:
  assumes "buf_ok h a" "buf_ok h b" "i + n = min (b_len a) (b_len b)"
  shows "order_of (compare_loop h a b (int i) n (int (b_len a), int (b_len b))) =
           lex_sign (drop i (contents h a)) (drop i (contents h b))"
  using assms
proof (induction n arbitrary: i)
  case 0
  then have "b_len a = i \<or> b_len b = i" by linarith
  with 0 show ?case
    by (cases "drop i (contents h a)"; cases "drop i (contents h b)")
      (auto simp: order_of_def min_def split: if_splits dest: arg_cong [of _ _ length])
next
  case (Suc n)
  let ?x = "contents h a ! i" and ?y = "contents h b ! i"
  have i: "i < b_len a" "i < b_len b" using Suc.prems by linarith+
  then have get: "bget h a (int i) = Some (uint ?x)" "bget h b (int i) = Some (uint ?y)"
    using Suc.prems by (simp_all add: bget_contents)
  have drop: "drop i (contents h a) = ?x # drop (Suc i) (contents h a)"
    "drop i (contents h b) = ?y # drop (Suc i) (contents h b)"
    using i Suc.prems by (simp_all add: Cons_nth_drop_Suc)
  have "order_of (compare_loop h a b (int (Suc i)) n (int (b_len a), int (b_len b))) =
      lex_sign (drop (Suc i) (contents h a)) (drop (Suc i) (contents h b))"
    using Suc.prems by (intro Suc.IH) auto
  then show ?case
    by (simp add: get drop order_of_def word_less_def add.commute) 
qed

text \<open>
  C8: \<open>Buffer.compare\<close> is the sign of the lexicographic order on the bytes of the two buffers, and
  \<open>equals\<close> holds exactly when the bytes agree.
\<close>

theorem compare_is_lexicographic:
  assumes "buf_ok h a" "buf_ok h b" "distinct_ids a b"
  shows "compare h a b = lex_sign (contents h a) (contents h b)
    \<and> (equals h a b \<longleftrightarrow> contents h a = contents h b)"
proof -
  have "compare h a b = lex_sign (contents h a) (contents h b)"
    using assms compare_loop_lex_sign [of h a b 0] by (auto simp: compare_def distinct_ids_def)
  then show ?thesis
    using assms by (auto simp: equals_def distinct_ids_def)
qed

section \<open>Byte swapping reverses fixed-size groups\<close>

function rev_groups :: "nat \<Rightarrow> 'a list \<Rightarrow> 'a list" where
  "rev_groups k xs =
     (if k = 0 \<or> length xs < k then xs else rev (take k xs) @ rev_groups k (drop k xs))"
  by pat_completeness auto
termination by (relation "measure (length \<circ> snd)") auto

declare rev_groups.simps [simp del]

lemma rev_groups_append:
  "length xs = k \<Longrightarrow> 0 < k \<Longrightarrow> rev_groups k (xs @ ys) = rev xs @ rev_groups k ys"
  by (subst rev_groups.simps) simp

lemma rev_groups_involutive: "rev_groups k (rev_groups k xs) = xs"
proof (induction k xs rule: rev_groups.induct)
  case (1 k xs)
  show ?case
  proof (cases "k = 0 \<or> length xs < k")
    case True
    then show ?thesis by (simp add: rev_groups.simps)
  next
    case False
    then have "rev_groups k xs = rev (take k xs) @ rev_groups k (drop k xs)"
      by (subst rev_groups.simps) simp
    with False 1 show ?thesis
      by (simp add: rev_groups_append)
  qed
qed

lemma contents_swap:
  assumes "buf_ok h b" "i < b_len b" "j < b_len b"
  shows "contents (swap h b (int i) (int j)) b =
    (contents h b)[i := contents h b ! j, j := contents h b ! i]"
  using assms by (simp add: swap_def contents_bset_same bget_contents num_byte_def)

lemma swap_frame [simp]: "buf_ok (swap h b i j) c \<longleftrightarrow> buf_ok h c"
  by (simp add: swap_def)

lemma list_update_pre: "length pre = i \<Longrightarrow> (pre @ ys)[i + k := z] = pre @ ys[k := z]"
  by (auto simp: list_update_append)

lemma swap_pre:
  assumes "buf_ok h b" "contents h b = pre @ ys" "p < length ys" "q < length ys"
  shows "contents (swap h b (int (length pre + p)) (int (length pre + q))) b =
    pre @ ys[p := ys ! q, q := ys ! p]"
proof -
  have "length pre + length ys = b_len b" using assms by (metis length_append length_contents)
  then show ?thesis using assms by (subst contents_swap) (auto simp: list_update_pre)
qed

lemma swap16_loop_contents:
  assumes "buf_ok h b" "contents h b = pre @ ys" "length ys = 2 * n"
  shows "contents (swap16_loop h b (int (length pre)) n) b = pre @ rev_groups 2 ys"
  using assms
proof (induction n arbitrary: h pre ys)
  case 0
  then show ?case by (simp add: rev_groups.simps)
next
  case (Suc n)
  then obtain x y zs where ys: "ys = [x, y] @ zs" and zs: "length zs = 2 * n"
    by (auto simp: length_Suc_conv numeral_2_eq_2)
  let ?h = "swap h b (int (length pre + 0)) (int (length pre + 1))"
  have "contents ?h b = (pre @ [y, x]) @ zs"
    using Suc.prems ys by (subst swap_pre [of h b pre ys]) auto
  then have "contents (swap16_loop ?h b (int (length (pre @ [y, x]))) n) b =
      (pre @ [y, x]) @ rev_groups 2 zs"
    using Suc.prems zs by (intro Suc.IH) auto
  then show ?case
    by (simp add: ys rev_groups_append [of "[x, y]" 2, simplified] add.commute)
qed


lemma length4E:
  assumes "length xs = 4"
  obtains a0 a1 a2 a3 where "xs = [a0, a1, a2, a3]"
  using assms by (auto simp: length_Suc_conv numeral_eq_Suc)

lemma length8E:
  assumes "length xs = 8"
  obtains a0 a1 a2 a3 a4 a5 a6 a7 where "xs = [a0, a1, a2, a3, a4, a5, a6, a7]"
  using assms by (auto simp: length_Suc_conv numeral_eq_Suc)

lemma swap32_loop_contents:
  assumes "buf_ok h b" "contents h b = pre @ ys" "length ys = 4 * n"
  shows "contents (swap32_loop h b (int (length pre)) n) b = pre @ rev_groups 4 ys"
  using assms
proof (induction n arbitrary: h pre ys)
  case 0
  then show ?case by (simp add: rev_groups.simps)
next
  case (Suc n)
  then have "length (take 4 ys) = 4" by simp
  then obtain a0 a1 a2 a3 where "take 4 ys = [a0, a1, a2, a3]"
    by (rule length4E)
  then obtain zs where ys: "ys = [a0, a1, a2, a3] @ zs" and zs: "length zs = 4 * n"
    using Suc.prems by (metis append_take_drop_id length_drop diff_mult_distrib2 diff_Suc_1 mult_1_right One_nat_def)
  let ?h1 = "swap h b (int (length pre + 0)) (int (length pre + 3))"
  let ?h = "swap ?h1 b (int (length pre + 1)) (int (length pre + 2))"
  have "contents ?h1 b = pre @ [a3, a1, a2, a0] @ zs"
    using Suc.prems ys by (subst swap_pre [of h b pre ys]) (auto simp: numeral_eq_Suc)
  then have "contents ?h b = pre @ [a3, a2, a1, a0] @ zs"
    using Suc.prems by (subst swap_pre) (auto simp: numeral_eq_Suc)
  then have "contents (swap32_loop ?h b (int (length (pre @ [a3, a2, a1, a0]))) n) b =
      (pre @ [a3, a2, a1, a0]) @ rev_groups 4 zs"
    using Suc.prems zs by (intro Suc.IH) auto
  moreover have "rev_groups 4 ys = [a3, a2, a1, a0] @ rev_groups 4 zs"
    using rev_groups_append [of "[a0, a1, a2, a3]" 4 zs] ys by simp
  ultimately show ?case by (simp add: add.commute)
qed

lemma swap64_loop_contents:
  assumes "buf_ok h b" "contents h b = pre @ ys" "length ys = 8 * n"
  shows "contents (swap64_loop h b (int (length pre)) n) b = pre @ rev_groups 8 ys"
  using assms
proof (induction n arbitrary: h pre ys)
  case 0
  then show ?case by (simp add: rev_groups.simps)
next
  case (Suc n)
  then have "length (take 8 ys) = 8" by simp
  then obtain a0 a1 a2 a3 a4 a5 a6 a7 where "take 8 ys = [a0, a1, a2, a3, a4, a5, a6, a7]"
    by (rule length8E)
  then obtain zs where ys: "ys = [a0, a1, a2, a3, a4, a5, a6, a7] @ zs" and zs: "length zs = 8 * n"
    using Suc.prems by (metis append_take_drop_id length_drop diff_mult_distrib2 diff_Suc_1 mult_1_right One_nat_def)
  let ?h1 = "swap h b (int (length pre + 0)) (int (length pre + 7))"
  let ?h2 = "swap ?h1 b (int (length pre + 1)) (int (length pre + 6))"
  let ?h3 = "swap ?h2 b (int (length pre + 2)) (int (length pre + 5))"
  let ?h = "swap ?h3 b (int (length pre + 3)) (int (length pre + 4))"
  have "contents ?h1 b = pre @ [a7, a1, a2, a3, a4, a5, a6, a0] @ zs"
    using Suc.prems ys by (subst swap_pre [of h b pre ys]) (auto simp: numeral_eq_Suc)
  then have "contents ?h2 b = pre @ [a7, a6, a2, a3, a4, a5, a1, a0] @ zs"
    using Suc.prems by (subst swap_pre) (auto simp: numeral_eq_Suc)
  then have "contents ?h3 b = pre @ [a7, a6, a5, a3, a4, a2, a1, a0] @ zs"
    using Suc.prems by (subst swap_pre) (auto simp: numeral_eq_Suc)
  then have "contents ?h b = pre @ [a7, a6, a5, a4, a3, a2, a1, a0] @ zs"
    using Suc.prems by (subst swap_pre) (auto simp: numeral_eq_Suc)
  then have "contents (swap64_loop ?h b (int (length (pre @ [a7, a6, a5, a4, a3, a2, a1, a0]))) n) b =
      (pre @ [a7, a6, a5, a4, a3, a2, a1, a0]) @ rev_groups 8 zs"
    using Suc.prems zs by (intro Suc.IH) auto
  moreover have "rev_groups 8 ys = [a7, a6, a5, a4, a3, a2, a1, a0] @ rev_groups 8 zs"
    using rev_groups_append [of "[a0, a1, a2, a3, a4, a5, a6, a7]" 8 zs] ys by simp
  ultimately show ?case by (simp add: add.commute)
qed

lemma swap_loop_frame [simp]:
  "buf_ok (swap16_loop h b i n) c \<longleftrightarrow> buf_ok h c"
  "buf_ok (swap32_loop h b i n) c \<longleftrightarrow> buf_ok h c"
  "buf_ok (swap64_loop h b i n) c \<longleftrightarrow> buf_ok h c"
  by (induction n arbitrary: h i) simp_all

lemma swap16_contents:
  assumes "buf_ok h b" "swap16 h b = Inr h'"
  shows "contents h' b = rev_groups 2 (contents h b)" "buf_ok h' b"
  using assms swap16_loop_contents [of h b "[]" "contents h b"]
  by (auto simp: swap16_def split: if_splits)

lemma swap32_contents:
  assumes "buf_ok h b" "swap32 h b = Inr h'"
  shows "contents h' b = rev_groups 4 (contents h b)" "buf_ok h' b"
  using assms swap32_loop_contents [of h b "[]" "contents h b"]
  by (auto simp: swap32_def split: if_splits)

lemma swap64_contents:
  assumes "buf_ok h b" "swap64 h b = Inr h'"
  shows "contents h' b = rev_groups 8 (contents h b)" "buf_ok h' b"
  using assms swap64_loop_contents [of h b "[]" "contents h b"]
  by (auto simp: swap64_def split: if_splits)


lemma swap_Inr_iff:
  "(\<exists>h'. swap16 h b = Inr h') \<longleftrightarrow> 2 dvd b_len b"
  "(\<exists>h'. swap32 h b = Inr h') \<longleftrightarrow> 4 dvd b_len b"
  "(\<exists>h'. swap64 h b = Inr h') \<longleftrightarrow> 8 dvd b_len b"
  by (auto simp: swap16_def swap32_def swap64_def dvd_eq_mod_eq_0)

text \<open>
  C14: \<open>swap16\<close>, \<open>swap32\<close> and \<open>swap64\<close> reverse every group of 2, 4 or 8 bytes in place, are their own
  inverse, and throw a \<open>RangeError\<close> exactly when the length is not a multiple of the group size.
\<close>

theorem swaps_reverse_groups:
  assumes "buf_ok h b" and "(k, swp) \<in> {(2, swap16), (4, swap32), (8, swap64)}"
  shows "if k dvd b_len b
     then \<exists>h' h''. swp h b = Inr h' \<and> contents h' b = rev_groups k (contents h b)
            \<and> swp h' b = Inr h'' \<and> contents h'' b = contents h b
     else \<exists>msg. swp h b = Inl (RangeError msg)"
proof (cases "k dvd b_len b")
  case True
  have "\<exists>h'. swp g b = Inr h'" for g
    using True assms(2) swap_Inr_iff [of g b] by auto
  then obtain h' h'' where h: "swp h b = Inr h'" "swp h' b = Inr h''" by blast
  have *: "contents g' b = rev_groups k (contents g b) \<and> buf_ok g' b"
    if "buf_ok g b" "swp g b = Inr g'" for g g'
    using assms(2) that(2) swap16_contents [OF that(1)] swap32_contents [OF that(1)]
      swap64_contents [OF that(1)] by auto
  have "contents h' b = rev_groups k (contents h b)" "contents h'' b = contents h b"
    using * [OF assms(1) h(1)] * [of h' h''] h(2) by (simp_all add: rev_groups_involutive)
  with True h show ?thesis by auto
next
  case False
  with assms(2) show ?thesis
    by (auto simp: swap16_def swap32_def swap64_def dvd_eq_mod_eq_0)
qed

section \<open>Live buffers: allocation, slices and concatenation\<close>


definition live :: "heap \<Rightarrow> buf \<Rightarrow> bool" where
  "live h b \<longleftrightarrow> buf_ok h b \<and> b_id b < h_next h"

lemma createBuffer_live:
  assumes "0 \<le> n" "n < kMaxLength h"
  obtains b h' where "createBuffer h n = Inr (b, h')" "b_len b = nat n" "b_id b = h_next h"
    "contents h' b = replicate (nat n) 0" "live h' b" "h_typed h' = h_typed h"
    "\<And>c. live h c \<Longrightarrow> live h' c" "\<And>c. live h c \<Longrightarrow> contents h' c = contents h c"
    "\<And>c. live h c \<Longrightarrow> b_arr c \<noteq> b_arr b"
  using createBuffer_ok [OF assms] by (auto simp: live_def intro: that)

lemma live_store_all [simp]: "live (store_all h b i vs) c \<longleftrightarrow> live h c"
  by (simp add: live_def)

lemma live_bset [simp]: "live (bset h b i v) c \<longleftrightarrow> live h c"
  by (simp add: live_def)

lemma live_copy_bytes [simp]: "live (copy_bytes h src s dst t i n) c \<longleftrightarrow> live h c"
  by (simp add: live_def)

lemma num_byte_and_255: "num_byte (nand x (Some 255)) = num_byte x"
proof -
  have "word_of_int (to_int32 y AND 255) = (word_of_int y :: byte)" for y
    by (rule word_uint_eqI) (simp add: js_arith)
  then show ?thesis by (cases x) (simp_all add: nand_def num32_def num_byte_def)
qed

lemma fromArrayLike_contents:
  assumes "int (length array) < kMaxLength h"
  obtains b h' where "fromArrayLike h array = Inr (b, h')" "contents h' b = map num_byte array"
    "live h' b" "\<And>c. live h c \<Longrightarrow> live h' c \<and> contents h' c = contents h c"
proof -
  obtain b h' where b: "createBuffer h (int (length array)) = Inr (b, h')" "b_len b = length array"
    "contents h' b = replicate (length array) 0" "live h' b"
    and fr: "\<And>c. live h c \<Longrightarrow> live h' c" "\<And>c. live h c \<Longrightarrow> contents h' c = contents h c"
    "\<And>c. live h c \<Longrightarrow> b_arr c \<noteq> b_arr b"
    using assms by (rule_tac createBuffer_live [of "int (length array)" h]) auto
  let ?vs = "map (\<lambda>x. nand x (Some 255)) array"
  have "contents (store_all h' b (int 0) ?vs) b = overwrite 0 (map num_byte ?vs) (contents h' b)"
    using b by (intro contents_store_all) (auto simp: live_def)
  then have "contents (store_all h' b 0 ?vs) b = map num_byte array"
    using b by (simp add: overwrite_def comp_def num_byte_and_255)
  moreover have "fromArrayLike h array = Inr (b, store_all h' b 0 ?vs)"
    using assms b by (simp add: fromArrayLike_def checked_def to_int32_len)
  ultimately show ?thesis
    using b fr by (intro that [of b "store_all h' b 0 ?vs"])
      (auto simp: contents_store_all_other [OF not_sym])
qed

lemma clamp_index_bounds: "0 \<le> l \<Longrightarrow> 0 \<le> clamp_index l i \<and> clamp_index l i \<le> l"
  by (auto simp: clamp_index_def)

text \<open>The range of indices that \<open>slice(start, end)\<close> selects from a buffer of \<open>len\<close> bytes.\<close>

definition slice_range :: "nat \<Rightarrow> int \<Rightarrow> int option \<Rightarrow> nat \<times> nat" where
  "slice_range len start end' =
     (let s = clamp_index (int len) (to_int32 start);
          e = (case end' of None \<Rightarrow> int len | Some e \<Rightarrow> clamp_index (int len) (to_int32 e))
      in (nat s, nat (e - s)))"

lemma slice_range_fits: "slice_range len start e = (s, n) \<Longrightarrow> s + n \<le> len"
  using clamp_index_bounds [of "int len" "to_int32 start"] clamp_index_bounds [of "int len" "to_int32 (the e)"]
  by (auto simp: slice_range_def Let_def nat_le_iff split: option.splits)

lemma slice_contents:
  assumes "live h b" "int (b_len b) < kMaxLength h" "slice_range (b_len b) start e = (s, n)"
  obtains v h' where "slice h b start e = Inr (v, h')" "live h' v"
    "contents h' v = take n (drop s (contents h b))"
    "\<And>c. live h c \<Longrightarrow> live h' c" "\<And>c. live h c \<Longrightarrow> contents h' c = contents h c"
    "b_len v = n" "h_typed h' = h_typed h" "b_id v = h_next h"
    "h_typed h \<Longrightarrow> b_arr v = b_arr b \<and> b_off v = b_off b + s \<and> h_blocks h' = h_blocks h"
    "\<not> h_typed h \<Longrightarrow> b_arr v \<noteq> b_arr b"
proof -
  define e' where "e' = (case e of None \<Rightarrow> int (b_len b) | Some x \<Rightarrow> clamp_index (int (b_len b)) (to_int32 x))"
  define s' where "s' = clamp_index (int (b_len b)) (to_int32 start)"
  define e2 where "e2 = (if e' < s' then s' else e')"
  have s': "0 \<le> s'" "s' \<le> int (b_len b)" "0 \<le> e'" "e' \<le> int (b_len b)"
    using clamp_index_bounds [of "int (b_len b)"] by (auto simp: s'_def e'_def split: option.splits)
  have sn: "s = nat s'" "n = nat (e2 - s')" "n = nat (e' - s')"
    using assms(3) by (auto simp: slice_range_def s'_def e'_def e2_def Let_def)
  have fit: "s + n \<le> b_len b" using slice_range_fits [OF assms(3)] .
  have sl: "slice h b start e =
     (if h_typed h
      then Inr (\<lparr>b_id = h_next h, b_arr = b_arr b, b_off = b_off b + s, b_len = n\<rparr>,
                h\<lparr>h_next := Suc (h_next h)\<rparr>)
      else bind_r (allocUnsafe h (e2 - s')) (\<lambda>(newBuf, h').
           Inr (newBuf, copy_bytes h' b s' newBuf 0 0 n)))"
    unfolding slice_def Let_def e2_def sn(1,2) by (simp flip: e'_def s'_def)
  show ?thesis
  proof (cases "h_typed h")
    case True
    let ?v = "\<lparr>b_id = h_next h, b_arr = b_arr b, b_off = b_off b + s, b_len = n\<rparr>"
    show ?thesis
      using True assms(1) fit
      by (intro that [of ?v "h\<lparr>h_next := Suc (h_next h)\<rparr>"])
        (auto simp: sl live_def buf_ok_def contents_def drop_take min_def ac_simps)
  next
    case False
    have e2: "0 \<le> e2 - s'" "e2 - s' < kMaxLength h" using s' assms(2) by (auto simp: e2_def)
    then obtain v h' where v: "createBuffer h (e2 - s') = Inr (v, h')" "b_len v = nat (e2 - s')"
      "b_id v = h_next h" "contents h' v = replicate (nat (e2 - s')) 0" "live h' v" "h_typed h' = h_typed h"
      and fr: "\<And>c. live h c \<Longrightarrow> live h' c" "\<And>c. live h c \<Longrightarrow> contents h' c = contents h c"
      "\<And>c. live h c \<Longrightarrow> b_arr c \<noteq> b_arr v"
      by (rule_tac createBuffer_live [of "e2 - s'" h]) auto
    have "contents (copy_bytes h' b (int s) v (int 0) 0 n) v =
        overwrite 0 (take n (drop s (contents h' b))) (contents h' v)"
      using v fr [OF assms(1)] fit sn by (intro copy_bytes_contents) (auto simp: live_def)
    moreover have "length (take n (drop s (contents h b))) = n"
      using fit assms(1) by (simp add: live_def)
    ultimately have "contents (copy_bytes h' b s' v 0 0 n) v = take n (drop s (contents h b))"
      using v fr [OF assms(1)] fit sn s' assms(1) by (simp add: overwrite_def live_def)
    then show ?thesis
      using False v fr fr(3) [OF assms(1)] e2 sn
      by (intro that [of v "copy_bytes h' b s' v 0 0 n"])
        (auto simp: sl allocUnsafe_eq copy_bytes_other [OF not_sym])
  qed
qed





lemma overwrite_overwrite:
  "i + length xs + length ys \<le> length zs \<Longrightarrow>
   overwrite (i + length xs) ys (overwrite i xs zs) = overwrite i (xs @ ys) zs"
  by (auto simp: overwrite_def ac_simps min_def)

lemma copy_defaults:
  "copy h this target t None None = copy h this target t (Some 0) (Some (int (b_len this)))"
  by (simp add: copy_def)

lemma concat_loop_contents:
  assumes "buf_ok h buffer"
    and "\<And>b. b \<in> set bs \<Longrightarrow> buf_ok h b \<and> b_arr b \<noteq> b_arr buffer \<and> b_id b \<noteq> b_id buffer"
    and "pos + length (concat (map (contents h) bs)) \<le> b_len buffer"
  shows "\<exists>h'. concat_loop h buffer (int pos) bs = Inr h'
    \<and> contents h' buffer = overwrite pos (concat (map (contents h) bs)) (contents h buffer)
    \<and> (\<forall>c. buf_ok h' c \<longleftrightarrow> buf_ok h c) \<and> h_next h' = h_next h
    \<and> (\<forall>c. b_arr c \<noteq> b_arr buffer \<longrightarrow> contents h' c = contents h c)"
  using assms
proof (induction bs arbitrary: h pos)
  case Nil
  then show ?case by simp
next
  case (Cons b bs)
  have b: "buf_ok h b" "b_arr b \<noteq> b_arr buffer" "b_id b \<noteq> b_id buffer"
    using Cons.prems(2) [of b] by auto
  then have len: "length (contents h b) = b_len b" by simp
  obtain h1 where h1: "copy h b buffer (Some (int pos)) (Some (int 0)) (Some (int (b_len b))) =
       Inr (int (min (b_len b - 0) (b_len buffer - pos)), h1)"
    and c1: "contents h1 buffer = overwrite pos (take (min (b_len b - 0) (b_len buffer - pos))
         (drop 0 (contents h b))) (contents h buffer)"
    and fr: "\<And>c. b_arr c \<noteq> b_arr buffer \<Longrightarrow> contents h1 c = contents h c"
      "\<And>c. buf_ok h1 c \<longleftrightarrow> buf_ok h c" "h_next h1 = h_next h"
    using Cons.prems b by (rule_tac copy_run [of h b buffer 0 "b_len b" pos]) (auto simp: distinct_ids_def)
  have c1': "contents h1 buffer = overwrite pos (contents h b) (contents h buffer)"
    using c1 Cons.prems(3) len by simp
  have same: "concat (map (contents h1) bs) = concat (map (contents h) bs)"
    using Cons.prems(2) fr(1) by (intro arg_cong [where f = concat] map_cong) auto
  have "\<exists>h'. concat_loop h1 buffer (int (pos + b_len b)) bs = Inr h'
    \<and> contents h' buffer = overwrite (pos + b_len b) (concat (map (contents h1) bs)) (contents h1 buffer)
    \<and> (\<forall>c. buf_ok h' c \<longleftrightarrow> buf_ok h1 c) \<and> h_next h' = h_next h1
    \<and> (\<forall>c. b_arr c \<noteq> b_arr buffer \<longrightarrow> contents h' c = contents h1 c)"
    using Cons.prems fr same len by (intro Cons.IH) (auto simp: ac_simps)
  then obtain h' where h': "concat_loop h1 buffer (int (pos + b_len b)) bs = Inr h'"
    "contents h' buffer = overwrite (pos + b_len b) (concat (map (contents h) bs)) (contents h1 buffer)"
    "\<forall>c. buf_ok h' c \<longleftrightarrow> buf_ok h c" "h_next h' = h_next h"
    "\<forall>c. b_arr c \<noteq> b_arr buffer \<longrightarrow> contents h' c = contents h c"
    using same fr by metis
  moreover have "contents h' buffer = overwrite pos (contents h b @ concat (map (contents h) bs)) (contents h buffer)"
    using h'(2) c1' len Cons.prems
      overwrite_overwrite [of pos "contents h b" "concat (map (contents h) bs)" "contents h buffer"]
    by simp
  ultimately show ?case
    using h1 by (simp add: copy_defaults)
qed



definition sub_bytes :: "nat \<Rightarrow> nat \<Rightarrow> 'a list \<Rightarrow> 'a list" where
  "sub_bytes s e xs = take (e - s) (drop s xs)"

lemma slice_range_nat:
  assumes "int e < 2 ^ 31" "s \<le> e" "e \<le> len"
  shows "slice_range len (int s) (Some (int e)) = (s, e - s)"
  using assms by (auto simp: slice_range_def clamp_index_def Let_def)

lemma compare_slices:
  assumes "live h this" "live h target" "int (b_len this) < kMaxLength h" "int (b_len target) < kMaxLength h"
    and "ts \<le> te" "te \<le> b_len this" "s \<le> e" "e \<le> b_len target"
  obtains v1 h1 v2 h2 where "slice h this (int ts) (Some (int te)) = Inr (v1, h1)"
    "slice h1 target (int s) (Some (int e)) = Inr (v2, h2)"
    "order_of (compare_loop h2 v1 v2 0 (min (te - ts) (e - s)) (int te - int ts, int e - int s)) =
      lex_sign (sub_bytes ts te (contents h this)) (sub_bytes s e (contents h target))"
proof -
  have big: "kMaxLength h < 2 ^ 31" by (simp add: kMaxLength_def)
  obtain v1 h1 where v1: "slice h this (int ts) (Some (int te)) = Inr (v1, h1)" "live h1 v1"
    "contents h1 v1 = take (te - ts) (drop ts (contents h this))"
    and fr1: "\<And>c. live h c \<Longrightarrow> live h1 c" "\<And>c. live h c \<Longrightarrow> contents h1 c = contents h c"
    and l1: "b_len v1 = te - ts" "h_typed h1 = h_typed h"
    using assms big
    by (rule_tac slice_contents [OF assms(1) assms(3) slice_range_nat, of te ts]) auto
  have km: "kMaxLength h1 = kMaxLength h" using l1 by (simp add: kMaxLength_def)
  obtain v2 h2 where v2: "slice h1 target (int s) (Some (int e)) = Inr (v2, h2)" "live h2 v2"
    "contents h2 v2 = take (e - s) (drop s (contents h1 target))"
    and fr2: "\<And>c. live h1 c \<Longrightarrow> live h2 c" "\<And>c. live h1 c \<Longrightarrow> contents h2 c = contents h1 c"
    and l2: "b_len v2 = e - s"
    using assms big km
    by (rule_tac slice_contents [OF fr1(1) [OF assms(2)] _ slice_range_nat, of e s]) auto
  have "order_of (compare_loop h2 v1 v2 (int 0) (min (b_len v1) (b_len v2)) (int (b_len v1), int (b_len v2))) =
      lex_sign (drop 0 (contents h2 v1)) (drop 0 (contents h2 v2))"
    using v1(2) v2(2) fr2(1) by (intro compare_loop_lex_sign) (auto simp: live_def)
  then have "order_of (compare_loop h2 v1 v2 0 (min (te - ts) (e - s)) (int te - int ts, int e - int s)) =
      lex_sign (sub_bytes ts te (contents h this)) (sub_bytes s e (contents h target))"
    using v1 v2 fr2 fr1(2) [OF assms(2)] l1 l2 assms by (simp add: sub_bytes_def of_nat_diff)
  with v1(1) v2(1) show ?thesis by (rule that)
qed


text \<open>
  The exception is visible: two different ranges of one buffer compare as equal.
\<close>

theorem compare_range_same_object:
  "let h = \<lparr>h_blocks = [[1, 2]], h_next = 1, h_typed = True\<rparr>;
       b = \<lparr>b_id = 0, b_arr = 0, b_off = 0, b_len = 2\<rparr>
   in compare_range h b b (Some 0) (Some 1) (Some 1) (Some 2) = Inr 0
    \<and> lex_sign (sub_bytes 1 2 (contents h b)) (sub_bytes 0 1 (contents h b)) = 1"
  by (simp add: compare_range_def contents_def sub_bytes_def numeral_eq_Suc)


section \<open>Witnesses\<close>

definition demo_heap :: heap where
  "demo_heap = \<lparr>h_blocks = [[1, 2, 3, 4]], h_next = 1, h_typed = True\<rparr>"

definition demo_buf :: buf where
  "demo_buf = \<lparr>b_id = 0, b_arr = 0, b_off = 0, b_len = 4\<rparr>"

lemma demo_live: "live demo_heap demo_buf" "buf_ok demo_heap demo_buf"
  "contents demo_heap demo_buf = [1, 2, 3, 4]" "b_len demo_buf = 4" "kMaxLength demo_heap = 2147483647"
  by (simp_all add: live_def buf_ok_def demo_heap_def demo_buf_def contents_def kMaxLength_def)

lemma demo_ids: "distinct_ids demo_buf demo_buf"
  by (simp add: distinct_ids_def)


theorem compare_is_lexicographic_witness:
  "compare demo_heap demo_buf demo_buf = 0"
  using compare_is_lexicographic [of demo_heap demo_buf demo_buf] by (simp add: demo_live demo_ids)

theorem swaps_reverse_groups_witness:
  "\<exists>h' h''. swap16 demo_heap demo_buf = Inr h' \<and> contents h' demo_buf = rev_groups 2 [1, 2, 3, 4]
     \<and> swap16 h' demo_buf = Inr h'' \<and> contents h'' demo_buf = [1, 2, 3, 4]"
  using swaps_reverse_groups [of demo_heap demo_buf 2 swap16] by (simp add: demo_live)




end
