(* ===== verification/Buffer_Int.thy ===== *)
theory Buffer_Int
  imports Buffer_Core
begin

text \<open>
  Reading and writing integers in a \<open>Buffer\<close> (\<open>readUIntLE\<close> to \<open>writeInt32BE\<close> of
  \<open>client/lcd/swagger-ui/swagger-ui.js\<close>).

  A read returns a \<open>jnum\<close>: with \<open>noAssert\<close> an index out of range reads \<open>undefined\<close>.  A write returns
  the next offset and the new store.  The variable-width accessors are exact up to six bytes, the
  widest whose values a double represents; the model computes with unbounded integers.  The
  conversion between bytes and floating-point numbers is the package \<open>ieee754\<close>, which is not part of
  the repository: \<open>readFloatLE\<close> and its kin take it as a parameter.
\<close>

section \<open>Reading\<close>

definition checkOffset :: "int \<Rightarrow> int \<Rightarrow> int \<Rightarrow> unit res" where
  "checkOffset offset ext length' =
     (if offset < 0 then Inl (RangeError ''offset is not uint'')
      else if offset + ext > length' then Inl (RangeError ''Trying to access beyond buffer length'')
      else Inr ())"

definition asserted :: "bool \<Rightarrow> int \<Rightarrow> int \<Rightarrow> buf \<Rightarrow> unit res" where
  "asserted noAssert offset ext b =
     (if noAssert then Inr () else checkOffset offset ext (int (b_len b)))"

fun read_le_loop :: "heap \<Rightarrow> buf \<Rightarrow> int \<Rightarrow> int \<Rightarrow> nat \<Rightarrow> int \<Rightarrow> jnum \<Rightarrow> jnum \<times> int" where
  "read_le_loop h b offset i 0 mul val = (val, mul)"
| "read_le_loop h b offset i (Suc n) mul val =
     read_le_loop h b offset (i + 1) n (mul * 256)
       (nadd val (nmul (bget h b (offset + i)) (Some (mul * 256))))"

fun read_be_loop :: "heap \<Rightarrow> buf \<Rightarrow> int \<Rightarrow> nat \<Rightarrow> int \<Rightarrow> jnum \<Rightarrow> jnum \<times> int" where
  "read_be_loop h b offset 0 mul val = (val, mul)"
| "read_be_loop h b offset (Suc n) mul val =
     read_be_loop h b offset n (mul * 256)
       (nadd val (nmul (bget h b (offset + int n)) (Some (mul * 256))))"

definition readUIntLE :: "heap \<Rightarrow> buf \<Rightarrow> int \<Rightarrow> int \<Rightarrow> bool \<Rightarrow> jnum res" where
  "readUIntLE h b offset' byteLength' noAssert =
     (let offset = to_int32 offset'; byteLength = to_int32 byteLength'
      in bind_r (asserted noAssert offset byteLength b) (\<lambda>_.
         Inr (fst (read_le_loop h b offset 1 (nat (byteLength - 1)) 1 (bget h b offset)))))"

definition readUIntBE :: "heap \<Rightarrow> buf \<Rightarrow> int \<Rightarrow> int \<Rightarrow> bool \<Rightarrow> jnum res" where
  "readUIntBE h b offset' byteLength' noAssert =
     (let offset = to_int32 offset'; byteLength = to_int32 byteLength'
      in bind_r (asserted noAssert offset byteLength b) (\<lambda>_.
         Inr (fst (read_be_loop h b offset (nat (byteLength - 1)) 1
                     (bget h b (offset + (byteLength - 1)))))))"

definition readUInt8 :: "heap \<Rightarrow> buf \<Rightarrow> int \<Rightarrow> bool \<Rightarrow> jnum res" where
  "readUInt8 h b offset noAssert =
     bind_r (asserted noAssert offset 1 b) (\<lambda>_. Inr (bget h b offset))"

definition readUInt16LE :: "heap \<Rightarrow> buf \<Rightarrow> int \<Rightarrow> bool \<Rightarrow> jnum res" where
  "readUInt16LE h b offset noAssert =
     bind_r (asserted noAssert offset 2 b) (\<lambda>_.
     Inr (nor (bget h b offset) (nshl (bget h b (offset + 1)) 8)))"

definition readUInt16BE :: "heap \<Rightarrow> buf \<Rightarrow> int \<Rightarrow> bool \<Rightarrow> jnum res" where
  "readUInt16BE h b offset noAssert =
     bind_r (asserted noAssert offset 2 b) (\<lambda>_.
     Inr (nor (nshl (bget h b offset) 8) (bget h b (offset + 1))))"

definition readUInt32LE :: "heap \<Rightarrow> buf \<Rightarrow> int \<Rightarrow> bool \<Rightarrow> jnum res" where
  "readUInt32LE h b offset noAssert =
     bind_r (asserted noAssert offset 4 b) (\<lambda>_.
     Inr (nadd (nor (nor (bget h b offset) (nshl (bget h b (offset + 1)) 8))
                    (nshl (bget h b (offset + 2)) 16))
               (nmul (bget h b (offset + 3)) (Some 16777216))))"

definition readUInt32BE :: "heap \<Rightarrow> buf \<Rightarrow> int \<Rightarrow> bool \<Rightarrow> jnum res" where
  "readUInt32BE h b offset noAssert =
     bind_r (asserted noAssert offset 4 b) (\<lambda>_.
     Inr (nadd (nmul (bget h b offset) (Some 16777216))
               (nor (nor (nshl (bget h b (offset + 1)) 16) (nshl (bget h b (offset + 2)) 8))
                    (bget h b (offset + 3)))))"

definition sign_correct :: "jnum \<Rightarrow> int \<Rightarrow> int \<Rightarrow> jnum" where
  "sign_correct val mul bits =
     (case val of None \<Rightarrow> None
      | Some v \<Rightarrow> if v \<ge> mul * 128 then Some (v - 2 ^ nat bits) else Some v)"

definition readIntLE :: "heap \<Rightarrow> buf \<Rightarrow> int \<Rightarrow> int \<Rightarrow> bool \<Rightarrow> jnum res" where
  "readIntLE h b offset' byteLength' noAssert =
     (let offset = to_int32 offset'; byteLength = to_int32 byteLength'
      in bind_r (asserted noAssert offset byteLength b) (\<lambda>_.
         let (val, mul) = read_le_loop h b offset 1 (nat (byteLength - 1)) 1 (bget h b offset)
         in Inr (sign_correct val mul (8 * byteLength))))"

definition readIntBE :: "heap \<Rightarrow> buf \<Rightarrow> int \<Rightarrow> int \<Rightarrow> bool \<Rightarrow> jnum res" where
  "readIntBE h b offset' byteLength' noAssert =
     (let offset = to_int32 offset'; byteLength = to_int32 byteLength'
      in bind_r (asserted noAssert offset byteLength b) (\<lambda>_.
         let (val, mul) = read_be_loop h b offset (nat (byteLength - 1)) 1
                            (bget h b (offset + (byteLength - 1)))
         in Inr (sign_correct val mul (8 * byteLength))))"

definition readInt8 :: "heap \<Rightarrow> buf \<Rightarrow> int \<Rightarrow> bool \<Rightarrow> jnum res" where
  "readInt8 h b offset noAssert =
     bind_r (asserted noAssert offset 1 b) (\<lambda>_.
     Inr (if nand (bget h b offset) (Some 128) = Some 0 then bget h b offset
          else nmul (nadd (nadd (Some 255) (nmul (Some (- 1)) (bget h b offset))) (Some 1)) (Some (- 1))))"

definition sign16 :: "jnum \<Rightarrow> jnum" where
  "sign16 val = (if nand val (Some 32768) \<noteq> Some 0 then nor val (Some 4294901760) else val)"

definition readInt16LE :: "heap \<Rightarrow> buf \<Rightarrow> int \<Rightarrow> bool \<Rightarrow> jnum res" where
  "readInt16LE h b offset noAssert =
     bind_r (asserted noAssert offset 2 b) (\<lambda>_.
     Inr (sign16 (nor (bget h b offset) (nshl (bget h b (offset + 1)) 8))))"

definition readInt16BE :: "heap \<Rightarrow> buf \<Rightarrow> int \<Rightarrow> bool \<Rightarrow> jnum res" where
  "readInt16BE h b offset noAssert =
     bind_r (asserted noAssert offset 2 b) (\<lambda>_.
     Inr (sign16 (nor (bget h b (offset + 1)) (nshl (bget h b offset) 8))))"

definition readInt32LE :: "heap \<Rightarrow> buf \<Rightarrow> int \<Rightarrow> bool \<Rightarrow> jnum res" where
  "readInt32LE h b offset noAssert =
     bind_r (asserted noAssert offset 4 b) (\<lambda>_.
     Inr (nor (nor (nor (bget h b offset) (nshl (bget h b (offset + 1)) 8))
                   (nshl (bget h b (offset + 2)) 16))
              (nshl (bget h b (offset + 3)) 24)))"

definition readInt32BE :: "heap \<Rightarrow> buf \<Rightarrow> int \<Rightarrow> bool \<Rightarrow> jnum res" where
  "readInt32BE h b offset noAssert =
     bind_r (asserted noAssert offset 4 b) (\<lambda>_.
     Inr (nor (nor (nor (nshl (bget h b offset) 24) (nshl (bget h b (offset + 1)) 16))
                   (nshl (bget h b (offset + 2)) 8))
              (bget h b (offset + 3))))"

type_synonym 'f ieee_read = "heap \<Rightarrow> buf \<Rightarrow> int \<Rightarrow> bool \<Rightarrow> int \<Rightarrow> int \<Rightarrow> 'f"

definition readFloatLE :: "'f ieee_read \<Rightarrow> heap \<Rightarrow> buf \<Rightarrow> int \<Rightarrow> bool \<Rightarrow> 'f res" where
  "readFloatLE ieee_read h b offset noAssert =
     bind_r (asserted noAssert offset 4 b) (\<lambda>_. Inr (ieee_read h b offset True 23 4))"

definition readFloatBE :: "'f ieee_read \<Rightarrow> heap \<Rightarrow> buf \<Rightarrow> int \<Rightarrow> bool \<Rightarrow> 'f res" where
  "readFloatBE ieee_read h b offset noAssert =
     bind_r (asserted noAssert offset 4 b) (\<lambda>_. Inr (ieee_read h b offset False 23 4))"

definition readDoubleLE :: "'f ieee_read \<Rightarrow> heap \<Rightarrow> buf \<Rightarrow> int \<Rightarrow> bool \<Rightarrow> 'f res" where
  "readDoubleLE ieee_read h b offset noAssert =
     bind_r (asserted noAssert offset 8 b) (\<lambda>_. Inr (ieee_read h b offset True 52 8))"

definition readDoubleBE :: "'f ieee_read \<Rightarrow> heap \<Rightarrow> buf \<Rightarrow> int \<Rightarrow> bool \<Rightarrow> 'f res" where
  "readDoubleBE ieee_read h b offset noAssert =
     bind_r (asserted noAssert offset 8 b) (\<lambda>_. Inr (ieee_read h b offset False 52 8))"

section \<open>Writing\<close>

definition checkInt :: "buf \<Rightarrow> int \<Rightarrow> int \<Rightarrow> int \<Rightarrow> int \<Rightarrow> int \<Rightarrow> unit res" where
  "checkInt b value offset ext max' min' =
     (if value > max' \<or> value < min' then Inl (RangeError ''\"value\" argument is out of bounds'')
      else if offset + ext > int (b_len b) then Inl (RangeError ''Index out of range'')
      else Inr ())"

definition assertInt :: "bool \<Rightarrow> buf \<Rightarrow> int \<Rightarrow> int \<Rightarrow> int \<Rightarrow> int \<Rightarrow> int \<Rightarrow> unit res" where
  "assertInt noAssert b value offset ext max' min' =
     (if noAssert then Inr () else checkInt b value offset ext max' min')"

text \<open>\<open>Math.pow(2, k)\<close>, rounded down to an integer.\<close>

definition pow2 :: "int \<Rightarrow> int" where
  "pow2 k = (if k < 0 then 0 else 2 ^ nat k)"

fun write_le_loop :: "heap \<Rightarrow> buf \<Rightarrow> int \<Rightarrow> int \<Rightarrow> int \<Rightarrow> nat \<Rightarrow> int \<Rightarrow> heap" where
  "write_le_loop h b value offset i 0 mul = h"
| "write_le_loop h b value offset i (Suc n) mul =
     write_le_loop (bset h b (offset + i) (Some (band (tdiv value (mul * 256)) 255)))
       b value offset (i + 1) n (mul * 256)"

fun write_be_loop :: "heap \<Rightarrow> buf \<Rightarrow> int \<Rightarrow> int \<Rightarrow> nat \<Rightarrow> int \<Rightarrow> heap" where
  "write_be_loop h b value offset 0 mul = h"
| "write_be_loop h b value offset (Suc n) mul =
     write_be_loop (bset h b (offset + int n) (Some (band (tdiv value (mul * 256)) 255)))
       b value offset n (mul * 256)"

definition writeUIntLE ::
  "heap \<Rightarrow> buf \<Rightarrow> int \<Rightarrow> int \<Rightarrow> int \<Rightarrow> bool \<Rightarrow> (int \<times> heap) res" where
  "writeUIntLE h b value offset' byteLength' noAssert =
     (let offset = to_int32 offset'; byteLength = to_int32 byteLength'
      in bind_r (assertInt noAssert b value offset byteLength (pow2 (8 * byteLength) - 1) 0) (\<lambda>_.
         let h1 = bset h b offset (Some (band value 255))
         in Inr (offset + byteLength, write_le_loop h1 b value offset 1 (nat (byteLength - 1)) 1)))"

definition writeUIntBE ::
  "heap \<Rightarrow> buf \<Rightarrow> int \<Rightarrow> int \<Rightarrow> int \<Rightarrow> bool \<Rightarrow> (int \<times> heap) res" where
  "writeUIntBE h b value offset' byteLength' noAssert =
     (let offset = to_int32 offset'; byteLength = to_int32 byteLength'
      in bind_r (assertInt noAssert b value offset byteLength (pow2 (8 * byteLength) - 1) 0) (\<lambda>_.
         let h1 = bset h b (offset + (byteLength - 1)) (Some (band value 255))
         in Inr (offset + byteLength, write_be_loop h1 b value offset (nat (byteLength - 1)) 1)))"

definition writeUInt8 :: "heap \<Rightarrow> buf \<Rightarrow> int \<Rightarrow> int \<Rightarrow> bool \<Rightarrow> (int \<times> heap) res" where
  "writeUInt8 h b value offset' noAssert =
     (let offset = to_int32 offset'
      in bind_r (assertInt noAssert b value offset 1 255 0) (\<lambda>_.
         Inr (offset + 1, bset h b offset (Some (band value 255)))))"

fun objectWriteUInt16_loop :: "heap \<Rightarrow> buf \<Rightarrow> int \<Rightarrow> int \<Rightarrow> bool \<Rightarrow> nat \<Rightarrow> nat \<Rightarrow> heap" where
  "objectWriteUInt16_loop h b value offset littleEndian i 0 = h"
| "objectWriteUInt16_loop h b value offset littleEndian i (Suc n) =
     (let k = 8 * (if littleEndian then i else 1 - i)
      in objectWriteUInt16_loop
           (bset h b (offset + int i) (Some (shr (band value (shl 255 k)) k)))
           b value offset littleEndian (Suc i) n)"

definition objectWriteUInt16 :: "heap \<Rightarrow> buf \<Rightarrow> int \<Rightarrow> int \<Rightarrow> bool \<Rightarrow> heap" where
  "objectWriteUInt16 h b value' offset littleEndian =
     (let value = (if value' < 0 then 65535 + value' + 1 else value')
      in objectWriteUInt16_loop h b value offset littleEndian 0
           (nat (min (int (b_len b) - offset) 2)))"

definition put16LE :: "heap \<Rightarrow> buf \<Rightarrow> int \<Rightarrow> int \<Rightarrow> heap" where
  "put16LE h b value offset =
     (if h_typed h
      then bset (bset h b offset (Some (band value 255))) b (offset + 1) (Some (shr value 8))
      else objectWriteUInt16 h b value offset True)"

definition put16BE :: "heap \<Rightarrow> buf \<Rightarrow> int \<Rightarrow> int \<Rightarrow> heap" where
  "put16BE h b value offset =
     (if h_typed h
      then bset (bset h b offset (Some (shr value 8))) b (offset + 1) (Some (band value 255))
      else objectWriteUInt16 h b value offset False)"

definition writeUInt16LE :: "heap \<Rightarrow> buf \<Rightarrow> int \<Rightarrow> int \<Rightarrow> bool \<Rightarrow> (int \<times> heap) res" where
  "writeUInt16LE h b value offset' noAssert =
     (let offset = to_int32 offset'
      in bind_r (assertInt noAssert b value offset 2 65535 0) (\<lambda>_.
         Inr (offset + 2, put16LE h b value offset)))"

definition writeUInt16BE :: "heap \<Rightarrow> buf \<Rightarrow> int \<Rightarrow> int \<Rightarrow> bool \<Rightarrow> (int \<times> heap) res" where
  "writeUInt16BE h b value offset' noAssert =
     (let offset = to_int32 offset'
      in bind_r (assertInt noAssert b value offset 2 65535 0) (\<lambda>_.
         Inr (offset + 2, put16BE h b value offset)))"

fun objectWriteUInt32_loop :: "heap \<Rightarrow> buf \<Rightarrow> int \<Rightarrow> int \<Rightarrow> bool \<Rightarrow> nat \<Rightarrow> nat \<Rightarrow> heap" where
  "objectWriteUInt32_loop h b value offset littleEndian i 0 = h"
| "objectWriteUInt32_loop h b value offset littleEndian i (Suc n) =
     objectWriteUInt32_loop
       (bset h b (offset + int i)
         (Some (band (shr value (8 * (if littleEndian then i else 3 - i))) 255)))
       b value offset littleEndian (Suc i) n"

definition objectWriteUInt32 :: "heap \<Rightarrow> buf \<Rightarrow> int \<Rightarrow> int \<Rightarrow> bool \<Rightarrow> heap" where
  "objectWriteUInt32 h b value' offset littleEndian =
     (let value = (if value' < 0 then 4294967295 + value' + 1 else value')
      in objectWriteUInt32_loop h b value offset littleEndian 0
           (nat (min (int (b_len b) - offset) 4)))"

definition writeUInt32LE :: "heap \<Rightarrow> buf \<Rightarrow> int \<Rightarrow> int \<Rightarrow> bool \<Rightarrow> (int \<times> heap) res" where
  "writeUInt32LE h b value offset' noAssert =
     (let offset = to_int32 offset'
      in bind_r (assertInt noAssert b value offset 4 4294967295 0) (\<lambda>_.
         Inr (offset + 4,
           if h_typed h then
             bset (bset (bset (bset h b (offset + 3) (Some (shr value 24)))
               b (offset + 2) (Some (shr value 16)))
               b (offset + 1) (Some (shr value 8)))
               b offset (Some (band value 255))
           else objectWriteUInt32 h b value offset True)))"

definition put32BE :: "heap \<Rightarrow> buf \<Rightarrow> int \<Rightarrow> int \<Rightarrow> heap" where
  "put32BE h b value offset =
     (if h_typed h then
        bset (bset (bset (bset h b offset (Some (shr value 24)))
          b (offset + 1) (Some (shr value 16)))
          b (offset + 2) (Some (shr value 8)))
          b (offset + 3) (Some (band value 255))
      else objectWriteUInt32 h b value offset False)"

definition writeUInt32BE :: "heap \<Rightarrow> buf \<Rightarrow> int \<Rightarrow> int \<Rightarrow> bool \<Rightarrow> (int \<times> heap) res" where
  "writeUInt32BE h b value offset' noAssert =
     (let offset = to_int32 offset'
      in bind_r (assertInt noAssert b value offset 4 4294967295 0) (\<lambda>_.
         Inr (offset + 4, put32BE h b value offset)))"

text \<open>
  The signed writers carry \<open>sub\<close>: once a lower byte of a negative value was not zero, the
  truncated quotient is one above the floor.
\<close>

fun write_int_le_loop :: "heap \<Rightarrow> buf \<Rightarrow> int \<Rightarrow> int \<Rightarrow> int \<Rightarrow> nat \<Rightarrow> int \<Rightarrow> int \<Rightarrow> heap" where
  "write_int_le_loop h b value offset i 0 mul sub = h"
| "write_int_le_loop h b value offset i (Suc n) mul sub =
     (let sub' = (if value < 0 \<and> sub = 0 \<and> bget h b (offset + i - 1) \<noteq> Some 0 then 1 else sub)
      in write_int_le_loop
           (bset h b (offset + i) (Some (band (to_int32 (tdiv value (mul * 256)) - sub') 255)))
           b value offset (i + 1) n (mul * 256) sub')"

fun write_int_be_loop :: "heap \<Rightarrow> buf \<Rightarrow> int \<Rightarrow> int \<Rightarrow> nat \<Rightarrow> int \<Rightarrow> int \<Rightarrow> heap" where
  "write_int_be_loop h b value offset 0 mul sub = h"
| "write_int_be_loop h b value offset (Suc n) mul sub =
     (let sub' = (if value < 0 \<and> sub = 0 \<and> bget h b (offset + int n + 1) \<noteq> Some 0 then 1 else sub)
      in write_int_be_loop
           (bset h b (offset + int n) (Some (band (to_int32 (tdiv value (mul * 256)) - sub') 255)))
           b value offset n (mul * 256) sub')"

definition writeIntLE ::
  "heap \<Rightarrow> buf \<Rightarrow> int \<Rightarrow> int \<Rightarrow> int \<Rightarrow> bool \<Rightarrow> (int \<times> heap) res" where
  "writeIntLE h b value offset' byteLength noAssert =
     (let offset = to_int32 offset'; limit = pow2 (8 * byteLength - 1)
      in bind_r (assertInt noAssert b value offset byteLength (limit - 1) (- limit)) (\<lambda>_.
         let h1 = bset h b offset (Some (band value 255))
         in Inr (offset + byteLength,
                 write_int_le_loop h1 b value offset 1 (nat (byteLength - 1)) 1 0)))"

definition writeIntBE ::
  "heap \<Rightarrow> buf \<Rightarrow> int \<Rightarrow> int \<Rightarrow> int \<Rightarrow> bool \<Rightarrow> (int \<times> heap) res" where
  "writeIntBE h b value offset' byteLength noAssert =
     (let offset = to_int32 offset'; limit = pow2 (8 * byteLength - 1)
      in bind_r (assertInt noAssert b value offset byteLength (limit - 1) (- limit)) (\<lambda>_.
         let h1 = bset h b (offset + (byteLength - 1)) (Some (band value 255))
         in Inr (offset + byteLength,
                 write_int_be_loop h1 b value offset (nat (byteLength - 1)) 1 0)))"

definition writeInt8 :: "heap \<Rightarrow> buf \<Rightarrow> int \<Rightarrow> int \<Rightarrow> bool \<Rightarrow> (int \<times> heap) res" where
  "writeInt8 h b value offset' noAssert =
     (let offset = to_int32 offset'
      in bind_r (assertInt noAssert b value offset 1 127 (- 128)) (\<lambda>_.
         let v = (if value < 0 then 255 + value + 1 else value)
         in Inr (offset + 1, bset h b offset (Some (band v 255)))))"

definition writeInt16LE :: "heap \<Rightarrow> buf \<Rightarrow> int \<Rightarrow> int \<Rightarrow> bool \<Rightarrow> (int \<times> heap) res" where
  "writeInt16LE h b value offset' noAssert =
     (let offset = to_int32 offset'
      in bind_r (assertInt noAssert b value offset 2 32767 (- 32768)) (\<lambda>_.
         Inr (offset + 2, put16LE h b value offset)))"

definition writeInt16BE :: "heap \<Rightarrow> buf \<Rightarrow> int \<Rightarrow> int \<Rightarrow> bool \<Rightarrow> (int \<times> heap) res" where
  "writeInt16BE h b value offset' noAssert =
     (let offset = to_int32 offset'
      in bind_r (assertInt noAssert b value offset 2 32767 (- 32768)) (\<lambda>_.
         Inr (offset + 2, put16BE h b value offset)))"

definition writeInt32LE :: "heap \<Rightarrow> buf \<Rightarrow> int \<Rightarrow> int \<Rightarrow> bool \<Rightarrow> (int \<times> heap) res" where
  "writeInt32LE h b value offset' noAssert =
     (let offset = to_int32 offset'
      in bind_r (assertInt noAssert b value offset 4 2147483647 (- 2147483648)) (\<lambda>_.
         Inr (offset + 4,
           if h_typed h then
             bset (bset (bset (bset h b offset (Some (band value 255)))
               b (offset + 1) (Some (shr value 8)))
               b (offset + 2) (Some (shr value 16)))
               b (offset + 3) (Some (shr value 24))
           else objectWriteUInt32 h b value offset True)))"

definition writeInt32BE :: "heap \<Rightarrow> buf \<Rightarrow> int \<Rightarrow> int \<Rightarrow> bool \<Rightarrow> (int \<times> heap) res" where
  "writeInt32BE h b value offset' noAssert =
     (let offset = to_int32 offset'
      in bind_r (assertInt noAssert b value offset 4 2147483647 (- 2147483648)) (\<lambda>_.
         let v = (if value < 0 then 4294967295 + value + 1 else value)
         in Inr (offset + 4, put32BE h b v offset)))"

definition checkIEEE754 :: "buf \<Rightarrow> int \<Rightarrow> int \<Rightarrow> unit res" where
  "checkIEEE754 b offset ext =
     (if offset + ext > int (b_len b) then Inl (RangeError ''Index out of range'')
      else if offset < 0 then Inl (RangeError ''Index out of range'')
      else Inr ())"

type_synonym 'f ieee_write = "heap \<Rightarrow> buf \<Rightarrow> 'f \<Rightarrow> int \<Rightarrow> bool \<Rightarrow> int \<Rightarrow> int \<Rightarrow> heap"

definition writeFloat ::
  "'f ieee_write \<Rightarrow> heap \<Rightarrow> buf \<Rightarrow> 'f \<Rightarrow> int \<Rightarrow> bool \<Rightarrow> bool \<Rightarrow> (int \<times> heap) res" where
  "writeFloat ieee_write h b value offset littleEndian noAssert =
     bind_r (if noAssert then Inr () else checkIEEE754 b offset 4) (\<lambda>_.
     Inr (offset + 4, ieee_write h b value offset littleEndian 23 4))"

definition writeDouble ::
  "'f ieee_write \<Rightarrow> heap \<Rightarrow> buf \<Rightarrow> 'f \<Rightarrow> int \<Rightarrow> bool \<Rightarrow> bool \<Rightarrow> (int \<times> heap) res" where
  "writeDouble ieee_write h b value offset littleEndian noAssert =
     bind_r (if noAssert then Inr () else checkIEEE754 b offset 8) (\<lambda>_.
     Inr (offset + 8, ieee_write h b value offset littleEndian 52 8))"

section \<open>Byte strings as integers\<close>

fun le_val :: "byte list \<Rightarrow> int" where
  "le_val [] = 0"
| "le_val (x # xs) = uint x + 256 * le_val xs"

fun le_bytes :: "nat \<Rightarrow> int \<Rightarrow> byte list" where
  "le_bytes 0 v = []"
| "le_bytes (Suc n) v = word_of_int v # le_bytes n (v div 256)"

definition signed_val :: "nat \<Rightarrow> int \<Rightarrow> int" where
  "signed_val n v = (if v \<ge> 2 ^ (8 * n - 1) then v - 2 ^ (8 * n) else v)"

lemma length_le_bytes [simp]: "length (le_bytes n v) = n"
  by (induction n v rule: le_bytes.induct) simp_all

lemma le_val_bounds: "0 \<le> le_val xs \<and> le_val xs < 256 ^ length xs"
proof (induction xs)
  case (Cons x xs)
  then have "le_val xs + 1 \<le> 256 ^ length xs" by simp
  moreover have "uint x < 256" "0 \<le> uint x" by simp_all
  ultimately have "0 \<le> uint x + 256 * le_val xs" "uint x + 256 * le_val xs < 256 * 256 ^ length xs"
    using Cons by linarith+
  then show ?case by simp
qed simp

lemma le_val_le_bytes: "le_val (le_bytes n v) = v mod 256 ^ n"
proof (induction n v rule: le_bytes.induct)
  case (2 n v)
  have "v mod 256 ^ Suc n = v mod 256 + 256 * (v div 256 mod 256 ^ n)"
    using zmod_zmult2_eq [of "256 ^ n" v 256] by (simp add: mult.commute)
  with 2 show ?case by simp
qed simp

lemma le_val_append: "le_val (xs @ ys) = le_val xs + 256 ^ length xs * le_val ys"
  by (induction xs) (simp_all add: algebra_simps)

lemma le_bytes_nth: "i < n \<Longrightarrow> le_bytes n v ! i = word_of_int (v div 256 ^ i)"
proof (induction n v arbitrary: i rule: le_bytes.induct)
  case (2 n v)
  then show ?case
    by (cases i) (simp_all add: zdiv_zmult2_eq)
qed simp

lemma le_bytes_eq_map: "le_bytes n v = map (\<lambda>i. word_of_int (v div 256 ^ i)) [0..<n]"
  by (intro nth_equalityI) (simp_all add: le_bytes_nth)

lemma signed_val_mod:
  assumes "0 < n" "- (2 ^ (8 * n - 1)) \<le> v" "v < 2 ^ (8 * n - 1)"
  shows "signed_val n (v mod 256 ^ n) = v"
proof -
  have p: "(256 :: int) ^ n = 2 * 2 ^ (8 * n - 1)"
  proof -
    have "(256 :: int) ^ n = 2 ^ (8 * n)"
      by (simp add: power_mult)
    also have "8 * n = Suc (8 * n - 1)" using assms(1) by simp
    finally show ?thesis by (metis power_Suc)
  qed
  have q: "(2 :: int) ^ (8 * n) = 256 ^ n" by (simp add: power_mult)
  show ?thesis
  proof (cases "0 \<le> v")
    case True
    then show ?thesis using assms p by (simp add: signed_val_def)
  next
    case False
    have "v mod 256 ^ n = (v + 256 ^ n) mod 256 ^ n" by simp
    also have "\<dots> = v + 256 ^ n"
      using False assms p by (intro mod_pos_pos_trivial) auto
    finally have "v mod 256 ^ n = v + 256 ^ n" .
    then show ?thesis using False assms p q by (simp add: signed_val_def)
  qed
qed

section \<open>Joining bytes\<close>

lemma nor_bytes:
  assumes "0 \<le> a" "a < 2 ^ n" "0 \<le> b" "b < 256" "n \<le> 16"
  shows "nor (Some a) (nshl (Some b) n) = Some (a + b * 2 ^ n)"
    and "nor (nshl (Some b) n) (Some a) = Some (a + b * 2 ^ n)"
proof -
  have "(2 :: int) ^ n \<le> 2 ^ 16" using assms by (intro power_increasing) auto
  then have "b * 2 ^ n \<le> 255 * 2 ^ 16" using assms by (intro mult_mono) auto
  then have b: "b * 2 ^ n < 2 ^ 31" "0 \<le> b * 2 ^ n" using assms by auto
  then have t: "to_int32 (b * 2 ^ n) = b * 2 ^ n" by (intro to_int32_id) auto
  moreover have "a < 2 ^ 31" using assms \<open>2 ^ n \<le> 2 ^ 16\<close> by simp
  ultimately have "nshl (Some b) n = Some (b * 2 ^ n)" "to_int32 a = a" "to_int32 b = b"
    using assms by (simp_all add: nshl_def num32_def)
  then show "nor (Some a) (nshl (Some b) n) = Some (a + b * 2 ^ n)"
    "nor (nshl (Some b) n) (Some a) = Some (a + b * 2 ^ n)"
    using assms b or_shifted_eq_add [OF assms(1,2), of b]
    by (simp_all add: nor_def num32_def t add.commute)
qed

lemma nor_top_byte:
  assumes "0 \<le> a" "a < 2 ^ 24" "0 \<le> b" "b < 256"
  shows "nor (Some a) (nshl (Some b) 24) = Some (signed_val 4 (a + b * 2 ^ 24))"
    and "nor (nshl (Some b) 24) (Some a) = Some (signed_val 4 (a + b * 2 ^ 24))"
proof -
  define c where "c = (if b \<ge> 128 then b - 256 else b)"
  have "to_int32 (b * 2 ^ 24) = c * 2 ^ 24"
  proof (cases "b \<ge> 128")
    case True
    then show ?thesis
      using assms(4) to_int32_wrap [of "b * 2 ^ 24"] by (simp add: c_def algebra_simps)
  qed (use assms in \<open>simp add: c_def\<close>)
  moreover have "to_int32 b = b" "to_int32 a = a" using assms by simp_all
  ultimately have n: "nshl (Some b) 24 = Some (c * 2 ^ 24)" "num32 (Some (c * 2 ^ 24)) = c * 2 ^ 24"
    "num32 (Some a) = a"
    using assms by (auto simp: nshl_def num32_def c_def)
  have "a + c * 2 ^ 24 = signed_val 4 (a + b * 2 ^ 24)"
    using assms by (auto simp: c_def signed_val_def)
  then show "nor (Some a) (nshl (Some b) 24) = Some (signed_val 4 (a + b * 2 ^ 24))"
    "nor (nshl (Some b) 24) (Some a) = Some (signed_val 4 (a + b * 2 ^ 24))"
    using or_shifted_eq_add [OF assms(1,2), of c]
    by (simp_all only: nor_def n) (simp_all add: add.commute)
qed


lemma sign16_val:
  assumes "0 \<le> v" "v < 65536"
  shows "sign16 (Some v) = Some (signed_val 2 v)"
proof -
  have "v AND 32768 = 0 \<longleftrightarrow> \<not> bit v 15"
    using and_exp_eq_0_iff_not_bit [of v 15] by simp
  also have "\<dots> \<longleftrightarrow> even (v div 32768)" by (simp add: bit_iff_odd)
  also have "\<dots> \<longleftrightarrow> v < 32768"
  proof -
    have "v div 32768 = (if v < 32768 then 0 else 1)"
      using assms by (auto intro: int_div_pos_eq [where r = "v - 32768"])
    then show ?thesis by simp
  qed
  finally have a: "v AND 32768 = 0 \<longleftrightarrow> v < 32768" .
  have "to_int32 4294901760 = - 65536" by (simp add: to_int32_def)
  moreover have "v OR - 65536 = v - 65536"
    using or_shifted_eq_add(1) [of v 16 "- 1"] assms by simp
  ultimately show ?thesis
    using assms a by (simp add: sign16_def nand_def nor_def num32_def signed_val_def)
qed

section \<open>What the readers compute\<close>

lemma checkOffset_in: "checkOffset (int o') (int n) (int l) = (if o' + n \<le> l then Inr () else
    Inl (RangeError ''Trying to access beyond buffer length''))"
  by (auto simp: checkOffset_def)

lemma read_le_loop_val:
  assumes "buf_ok h b" "i + n \<le> b_len b - o'" "o' \<le> b_len b"
  shows "read_le_loop h b (int o') (int i) n mul (Some v) =
    (Some (v + mul * 256 * le_val (take n (drop (o' + i) (contents h b)))), mul * 256 ^ n)"
  using assms
proof (induction n arbitrary: i mul v)
  case (Suc n)
  then have i: "o' + i < b_len b" by linarith
  then have g: "bget h b (int o' + int i) = Some (uint (contents h b ! (o' + i)))"
    using Suc.prems by (simp add: bget_contents nat_add_distrib)
  have d: "drop (o' + i) (contents h b) = contents h b ! (o' + i) # drop (Suc (o' + i)) (contents h b)"
    using i Suc.prems by (simp add: Cons_nth_drop_Suc)
  have "read_le_loop h b (int o') (int (Suc i)) n (mul * 256)
      (Some (v + uint (contents h b ! (o' + i)) * (mul * 256))) =
    (Some (v + uint (contents h b ! (o' + i)) * (mul * 256) +
        mul * 256 * 256 * le_val (take n (drop (o' + Suc i) (contents h b)))), mul * 256 * 256 ^ n)"
    using Suc.prems by (intro Suc.IH) auto
  moreover have "read_le_loop h b (int o') (int i) (Suc n) mul (Some v) =
      read_le_loop h b (int o') (int (Suc i)) n (mul * 256)
        (Some (v + uint (contents h b ! (o' + i)) * (mul * 256)))"
    by (simp add: g nadd_def nmul_def add.commute [of 1])
  ultimately show ?case
    unfolding d by (simp add: algebra_simps)
qed simp

lemma read_be_loop_val:
  assumes "buf_ok h b" "o' + n \<le> b_len b"
  shows "read_be_loop h b (int o') n mul (Some v) =
    (Some (v + mul * 256 * le_val (rev (take n (drop o' (contents h b))))), mul * 256 ^ n)"
  using assms
proof (induction n arbitrary: mul v)
  case (Suc n)
  then have i: "o' + n < b_len b" by linarith
  then have g: "bget h b (int o' + int n) = Some (uint (contents h b ! (o' + n)))"
    using Suc.prems by (simp add: bget_contents nat_add_distrib)
  have d: "take (Suc n) (drop o' (contents h b)) = take n (drop o' (contents h b)) @ [contents h b ! (o' + n)]"
    using i Suc.prems by (simp add: take_Suc_conv_app_nth)
  have "read_be_loop h b (int o') (Suc n) mul (Some v) =
      read_be_loop h b (int o') n (mul * 256) (Some (v + uint (contents h b ! (o' + n)) * (mul * 256)))"
    by (simp add: g nadd_def nmul_def)
  then show ?case
    using Suc.IH [of "mul * 256"] Suc.prems unfolding d by (simp add: algebra_simps)
qed simp


abbreviation field :: "heap \<Rightarrow> buf \<Rightarrow> nat \<Rightarrow> nat \<Rightarrow> byte list" where
  "field h b o' n \<equiv> take n (drop o' (contents h b))"

lemma read_le_all:
  assumes "buf_ok h b" "o' + n \<le> b_len b" "0 < n"
  shows "read_le_loop h b (int o') 1 (n - 1) 1 (bget h b (int o')) =
    (Some (le_val (field h b o' n)), 256 ^ (n - 1))"
proof -
  obtain m where n: "n = Suc m" using assms(3) by (cases n) auto
  then have "drop o' (contents h b) = contents h b ! o' # drop (Suc o') (contents h b)"
    "bget h b (int o') = Some (uint (contents h b ! o'))"
    using assms by (simp_all add: Cons_nth_drop_Suc bget_contents)
  then show ?thesis
    using read_le_loop_val [of h b 1 m o' 1] assms n by simp
qed

lemma read_be_all:
  assumes "buf_ok h b" "o' + n \<le> b_len b" "0 < n"
  shows "read_be_loop h b (int o') (n - 1) 1 (bget h b (int o' + (int n - 1))) =
    (Some (le_val (rev (field h b o' n))), 256 ^ (n - 1))"
proof -
  obtain m where n: "n = Suc m" using assms(3) by (cases n) auto
  then have "field h b o' n = field h b o' m @ [contents h b ! (o' + m)]"
    "bget h b (int o' + (int n - 1)) = Some (uint (contents h b ! (o' + m)))"
    using assms by (simp_all add: take_Suc_conv_app_nth bget_contents nat_add_distrib)
  then show ?thesis
    using read_be_loop_val [of h b o' m 1] assms n by simp
qed

lemma small32 [simp]: "n < 2147483648 \<Longrightarrow> to_int32 (int n) = int n"
  by simp

lemma general_readers:
  assumes "buf_ok h b" "b_len b < 2147483648" "o' + n \<le> b_len b" "0 < n"
  shows "readUIntLE h b (int o') (int n) na = Inr (Some (le_val (field h b o' n)))"
    and "readUIntBE h b (int o') (int n) na = Inr (Some (le_val (rev (field h b o' n))))"
    and "readIntLE h b (int o') (int n) na = Inr (Some (signed_val n (le_val (field h b o' n))))"
    and "readIntBE h b (int o') (int n) na = Inr (Some (signed_val n (le_val (rev (field h b o' n)))))"
proof -
  have n1: "nat (int n - 1) = n - 1" by simp
  have t: "to_int32 (int o') = int o'" "to_int32 (int n) = int n"
    using assms by (simp_all add: small32 del: to_int32_id)
  have "(2 :: int) ^ (8 * n - 1) = 256 ^ (n - 1) * 128"
  proof -
    have "8 * n - 1 = 8 * (n - 1) + 7" using assms(4) by simp
    then have "(2 :: int) ^ (8 * n - 1) = 2 ^ (8 * (n - 1)) * 2 ^ 7"
      by (simp only: power_add)
    then show ?thesis by (simp add: power_mult)
  qed
  then have s: "sign_correct (Some v) (256 ^ (n - 1)) (8 * int n) = Some (signed_val n v)" for v
    by (simp add: sign_correct_def signed_val_def nat_mult_distrib)
  have a: "asserted na (int o') (int n) b = Inr ()"
    using assms by (simp add: asserted_def checkOffset_in)
  show "readUIntLE h b (int o') (int n) na = Inr (Some (le_val (field h b o' n)))"
    "readUIntBE h b (int o') (int n) na = Inr (Some (le_val (rev (field h b o' n))))"
    "readIntLE h b (int o') (int n) na = Inr (Some (signed_val n (le_val (field h b o' n))))"
    "readIntBE h b (int o') (int n) na = Inr (Some (signed_val n (le_val (rev (field h b o' n)))))"
    using read_le_all [OF assms(1,3,4)] read_be_all [OF assms(1,3,4)]
    by (simp_all add: readUIntLE_def readUIntBE_def readIntLE_def readIntBE_def t a s [simplified] n1 Let_def
        del: to_int32_id)
qed

lemma bget_field:
  assumes "buf_ok h b" "o' + n \<le> b_len b" "i < n"
  shows "bget h b (int o' + int i) = Some (uint (field h b o' n ! i))"
  using assms by (simp add: bget_contents nat_add_distrib)

lemma length_field [simp]: "buf_ok h b \<Longrightarrow> o' + n \<le> b_len b \<Longrightarrow> length (field h b o' n) = n"
  by simp

lemma read8:
  assumes "buf_ok h b" "o' + 1 \<le> b_len b"
  shows "readUInt8 h b (int o') na = Inr (Some (le_val (field h b o' 1)))"
    and "readInt8 h b (int o') na = Inr (Some (signed_val 1 (le_val (field h b o' 1))))"
proof -
  have a: "asserted na (int o') 1 b = Inr ()"
    using assms checkOffset_in [of o' 1 "b_len b"] by (simp add: asserted_def)
  have "length (field h b o' 1) = 1" by (rule length_field [OF assms])
  then obtain x where x: "field h b o' 1 = [x]" by (rule length1E)
  then have g: "bget h b (int o') = Some (uint x)"
    using bget_field [OF assms, of 0] by simp
  have "uint x AND 128 = 0 \<longleftrightarrow> \<not> bit (uint x) 7"
    using and_exp_eq_0_iff_not_bit [of "uint x" 7] by simp
  also have "\<dots> \<longleftrightarrow> even (uint x div 128)" by (simp add: bit_iff_odd)
  also have "\<dots> \<longleftrightarrow> uint x < 128"
  proof -
    have "uint x < 256" "0 \<le> uint x" by simp_all
    then have "uint x div 128 = (if uint x < 128 then 0 else 1)"
      by (auto intro: int_div_pos_eq [where r = "uint x - 128"] simp del: uint_byte_bounds)
    then show ?thesis by simp
  qed
  finally have s: "uint x AND 128 = 0 \<longleftrightarrow> uint x < 128" .
  show "readUInt8 h b (int o') na = Inr (Some (le_val (field h b o' 1)))"
    unfolding x by (simp add: readUInt8_def a g)
  show "readInt8 h b (int o') na = Inr (Some (signed_val 1 (le_val (field h b o' 1))))"
    unfolding x
    using s by (simp add: readInt8_def a g nand_def num32_def nmul_def nadd_def signed_val_def)
qed

lemma read16:
  assumes "buf_ok h b" "o' + 2 \<le> b_len b"
  shows "readUInt16LE h b (int o') na = Inr (Some (le_val (field h b o' 2)))"
    and "readUInt16BE h b (int o') na = Inr (Some (le_val (rev (field h b o' 2))))"
    and "readInt16LE h b (int o') na = Inr (Some (signed_val 2 (le_val (field h b o' 2))))"
    and "readInt16BE h b (int o') na = Inr (Some (signed_val 2 (le_val (rev (field h b o' 2)))))"
proof -
  have a: "asserted na (int o') 2 b = Inr ()"
    using assms checkOffset_in [of o' 2 "b_len b"] by (simp add: asserted_def)
  have "length (field h b o' 2) = 2" by (rule length_field [OF assms])
  then obtain x y where x: "field h b o' 2 = [x, y]" by (rule length2E)
  have g: "bget h b (int o') = Some (uint x)" "bget h b (int o' + 1) = Some (uint y)"
    using bget_field [OF assms, of 0] bget_field [OF assms, of 1] x by simp_all
  have n: "nor (Some (uint x)) (nshl (Some (uint y)) 8) = Some (le_val [x, y])"
    "nor (nshl (Some (uint x)) 8) (Some (uint y)) = Some (le_val [y, x])"
    "nor (Some (uint y)) (nshl (Some (uint x)) 8) = Some (le_val [y, x])"
    using nor_bytes [of "uint x" 8 "uint y"] nor_bytes [of "uint y" 8 "uint x"]
    by (simp_all add: mult.commute)
  have s: "sign16 (Some (le_val [u, v])) = Some (signed_val 2 (le_val [u, v]))" for u v
    using le_val_bounds [of "[u, v]"] by (intro sign16_val) (auto simp: eval_nat_numeral)
  show "readUInt16LE h b (int o') na = Inr (Some (le_val (field h b o' 2)))"
    unfolding x by (simp only: readUInt16LE_def a g n bind_r_simps)
  show "readUInt16BE h b (int o') na = Inr (Some (le_val (rev (field h b o' 2))))"
    unfolding x by (simp only: readUInt16BE_def a g n bind_r_simps rev.simps append.simps)
  show "readInt16LE h b (int o') na = Inr (Some (signed_val 2 (le_val (field h b o' 2))))"
    unfolding x by (simp only: readInt16LE_def a g n s bind_r_simps)
  show "readInt16BE h b (int o') na = Inr (Some (signed_val 2 (le_val (rev (field h b o' 2)))))"
    unfolding x by (simp only: readInt16BE_def a g n s bind_r_simps rev.simps append.simps)
qed

lemma read32:
  assumes "buf_ok h b" "o' + 4 \<le> b_len b"
  shows "readUInt32LE h b (int o') na = Inr (Some (le_val (field h b o' 4)))"
    and "readUInt32BE h b (int o') na = Inr (Some (le_val (rev (field h b o' 4))))"
    and "readInt32LE h b (int o') na = Inr (Some (signed_val 4 (le_val (field h b o' 4))))"
    and "readInt32BE h b (int o') na = Inr (Some (signed_val 4 (le_val (rev (field h b o' 4)))))"
proof -
  have a: "asserted na (int o') 4 b = Inr ()"
    using assms checkOffset_in [of o' 4 "b_len b"] by (simp add: asserted_def)
  have "length (field h b o' 4) = 4" by (rule length_field [OF assms])
  then obtain x0 x1 x2 x3 where x: "field h b o' 4 = [x0, x1, x2, x3]" by (rule length4E)
  have g: "bget h b (int o') = Some (uint x0)" "bget h b (int o' + 1) = Some (uint x1)"
    "bget h b (int o' + 2) = Some (uint x2)" "bget h b (int o' + 3) = Some (uint x3)"
    using bget_field [OF assms, of 0] bget_field [OF assms, of 1]
      bget_field [OF assms, of 2] bget_field [OF assms, of 3] x by simp_all
  have lo: "nor (nor (Some (uint u)) (nshl (Some (uint v)) 8)) (nshl (Some (uint w)) 16) =
      Some (le_val [u, v, w])" for u v w :: byte
  proof -
    have "uint u + uint v * 256 < 65536"
      using uint_byte_bounds [of u] uint_byte_bounds [of v] by linarith
    then show ?thesis
      using nor_bytes(1) [of "uint u" 8 "uint v"] nor_bytes(1) [of "uint u + uint v * 2 ^ 8" 16 "uint w"]
      by (simp add: algebra_simps)
  qed
  have lo': "nor (nor (nshl (Some (uint w)) 16) (nshl (Some (uint v)) 8)) (Some (uint u)) =
      Some (le_val [u, v, w])" for u v w :: byte
    using lo [of u v w] by (simp only: nor_ac)
  have b3: "0 \<le> le_val [u, v, w]" "le_val [u, v, w] < 2 ^ 24" for u v w
    using le_val_bounds [of "[u, v, w]"] by (simp_all add: eval_nat_numeral)
  show "readUInt32LE h b (int o') na = Inr (Some (le_val (field h b o' 4)))"
    unfolding x by (simp only: readUInt32LE_def a g lo bind_r_simps) (simp add: nadd_def nmul_def)
  show "readUInt32BE h b (int o') na = Inr (Some (le_val (rev (field h b o' 4))))"
    unfolding x by (simp only: readUInt32BE_def a g lo' bind_r_simps rev.simps append.simps)
     (simp add: nadd_def nmul_def)
  show "readInt32LE h b (int o') na = Inr (Some (signed_val 4 (le_val (field h b o' 4))))"
    unfolding x using nor_top_byte(1) [OF b3, of "uint x3" x0 x1 x2]
    by (simp only: readInt32LE_def a g lo bind_r_simps) (simp add: algebra_simps)
  show "readInt32BE h b (int o') na = Inr (Some (signed_val 4 (le_val (rev (field h b o' 4)))))"
    unfolding x
  proof -
    have "nor (nor (nor (nshl (Some (uint x0)) 24) (nshl (Some (uint x1)) 16)) (nshl (Some (uint x2)) 8))
        (Some (uint x3)) =
      nor (nor (nor (nshl (Some (uint x1)) 16) (nshl (Some (uint x2)) 8)) (Some (uint x3)))
        (nshl (Some (uint x0)) 24)"
      by (simp only: nor_ac)
    then show "readInt32BE h b (int o') na = Inr (Some (signed_val 4 (le_val (rev [x0, x1, x2, x3]))))"
      using nor_top_byte(1) [OF b3, of "uint x0" x3 x2 x1]
      by (simp only: readInt32BE_def a g bind_r_simps lo') (simp add: algebra_simps)
  qed
qed


section \<open>What the writers store\<close>

lemma band_255: "word_of_int (band x 255) = (word_of_int x :: byte)"
  by (rule word_uint_eqI) (simp add: band_def js_arith)

lemma shr_byte:
  assumes "k \<le> 24"
  shows "word_of_int (shr x k) = (word_of_int (x div 2 ^ k) :: byte)"
proof (rule word_uint_eqI)
  have "take_bit 8 (drop_bit k (take_bit 32 x)) = take_bit 8 (drop_bit k x)"
    using assms by (intro bit_eqI) (auto simp: bit_simps)
  then show "uint (word_of_int (shr x k) :: byte) = uint (word_of_int (x div 2 ^ k) :: byte)"
    by (simp add: shr_def to_uint32_def take_bit_eq_mod drop_bit_eq_div)
qed

definition borrow :: "int \<Rightarrow> nat \<Rightarrow> int" where
  "borrow v j = (if v < 0 \<and> v mod 256 ^ j \<noteq> 0 then 1 else 0)"

lemma tdiv_borrow: "tdiv v (256 ^ j) - borrow v j = v div 256 ^ j"
proof (cases "v < 0")
  case True
  have "v div 256 ^ j = - (- v) div 256 ^ j" by simp
  also have "\<dots> = (if (- v) mod 256 ^ j = 0 then - ((- v) div 256 ^ j) else - ((- v) div 256 ^ j) - 1)"
    by (rule zdiv_zminus1_eq_if) simp
  finally show ?thesis
    using True by (auto simp: tdiv_def borrow_def mod_eq_0_iff_dvd)
next
  case False
  then show ?thesis by (cases "v = 0") (auto simp: tdiv_def borrow_def)
qed

lemma borrow_Suc: "borrow v (Suc j) = (if v < 0 \<and> borrow v j = 0 \<and> v div 256 ^ j mod 256 \<noteq> 0 then 1 else borrow v j)"
proof -
  have e: "v mod 256 ^ Suc j = 256 ^ j * (v div 256 ^ j mod 256) + v mod 256 ^ j"
    using zmod_zmult2_eq [of 256 v "256 ^ j"] by (simp add: mult.commute)
  have "0 \<le> v mod 256 ^ j" "0 \<le> 256 ^ j * (v div 256 ^ j mod 256)" by simp_all
  then have "v mod 256 ^ Suc j = 0 \<longleftrightarrow> v mod 256 ^ j = 0 \<and> 256 ^ j * (v div 256 ^ j mod 256) = 0"
    unfolding e by linarith
  then show ?thesis by (auto simp: borrow_def simp del: power_Suc)
qed

lemma borrowed_byte:
  "word_of_int (band (to_int32 (tdiv v (256 ^ j)) - borrow v j) 255) = (word_of_int (v div 256 ^ j) :: byte)"
proof -
  have "(to_int32 (tdiv v (256 ^ j)) - borrow v j) mod 256 = (tdiv v (256 ^ j) - borrow v j) mod 256"
    by (metis mod_diff_left_eq to_int32_mod_byte)
  then show ?thesis
    unfolding band_255 by (intro word_uint_eqI) (simp only: uint_byte_of_int tdiv_borrow)
qed

lemma write_int_le_loop_contents:
  assumes "buf_ok h b" "o' + Suc j + n \<le> b_len b"
    and "contents h b ! (o' + j) = word_of_int (v div 256 ^ j)"
  shows "contents (write_int_le_loop h b v (int o') (int (Suc j)) n (256 ^ j) (borrow v j)) b =
      overwrite (o' + Suc j) (map (\<lambda>k. word_of_int (v div 256 ^ (Suc j + k))) [0..<n]) (contents h b)
    \<and> buf_ok (write_int_le_loop h b v (int o') (int (Suc j)) n (256 ^ j) (borrow v j)) b"
  using assms
proof (induction n arbitrary: h j)
  case (Suc n)
  have g: "bget h b (int o' + int (Suc j) - 1) = Some (v div 256 ^ j mod 256)"
    using Suc.prems by (simp add: bget_contents nat_add_distrib)
  let ?h = "bset h b (int o' + int (Suc j)) (Some (band (to_int32 (tdiv v (256 ^ Suc j)) - borrow v (Suc j)) 255))"
  have step: "write_int_le_loop h b v (int o') (int (Suc j)) (Suc n) (256 ^ j) (borrow v j) =
      write_int_le_loop ?h b v (int o') (int (Suc (Suc j))) n (256 ^ Suc j) (borrow v (Suc j))"
    unfolding write_int_le_loop.simps g borrow_Suc [of v j] Let_def
    by (simp add: mult.commute add.commute)
  have c: "contents ?h b = (contents h b)[o' + Suc j := word_of_int (v div 256 ^ Suc j)]"
    using Suc.prems by (simp add: contents_bset_same nat_add_distrib borrowed_byte del: power_Suc)
  have "contents (write_int_le_loop ?h b v (int o') (int (Suc (Suc j))) n (256 ^ Suc j) (borrow v (Suc j))) b =
      overwrite (o' + Suc (Suc j)) (map (\<lambda>k. word_of_int (v div 256 ^ (Suc (Suc j) + k))) [0..<n]) (contents ?h b)
    \<and> buf_ok (write_int_le_loop ?h b v (int o') (int (Suc (Suc j))) n (256 ^ Suc j) (borrow v (Suc j))) b"
    using Suc.prems c by (intro Suc.IH) auto
  moreover have "overwrite (o' + Suc (Suc j)) (map (\<lambda>k. word_of_int (v div 256 ^ (Suc (Suc j) + k))) [0..<n]) (contents ?h b)
      = overwrite (o' + Suc j) (map (\<lambda>k. word_of_int (v div 256 ^ (Suc j + k))) [0..<Suc n]) (contents h b)"
    using Suc.prems c
      overwrite_Cons [of "o' + Suc j" "word_of_int (v div 256 ^ Suc j)"
        "map (\<lambda>k. word_of_int (v div 256 ^ (Suc (Suc j) + k))) [0..<n]" "contents h b"]
    by (simp add: upt_conv_Cons map_Suc_upt [symmetric] comp_def del: upt_Suc power_Suc)
  ultimately show ?case unfolding step by simp
qed simp

lemma write_int_be_loop_contents:
  assumes "buf_ok h b" "o' + n < b_len b"
    and "contents h b ! (o' + n) = word_of_int (v div 256 ^ j)"
  shows "contents (write_int_be_loop h b v (int o') n (256 ^ j) (borrow v j)) b =
      overwrite o' (rev (map (\<lambda>k. word_of_int (v div 256 ^ (Suc j + k))) [0..<n])) (contents h b)
    \<and> buf_ok (write_int_be_loop h b v (int o') n (256 ^ j) (borrow v j)) b"
  using assms
proof (induction n arbitrary: h j)
  case (Suc n)
  have g: "bget h b (int o' + int n + 1) = Some (v div 256 ^ j mod 256)"
    using Suc.prems by (simp add: bget_contents nat_add_distrib)
  let ?h = "bset h b (int o' + int n) (Some (band (to_int32 (tdiv v (256 ^ Suc j)) - borrow v (Suc j)) 255))"
  have step: "write_int_be_loop h b v (int o') (Suc n) (256 ^ j) (borrow v j) =
      write_int_be_loop ?h b v (int o') n (256 ^ Suc j) (borrow v (Suc j))"
    unfolding write_int_be_loop.simps g borrow_Suc [of v j] Let_def
    by (simp add: mult.commute)
  have c: "contents ?h b = (contents h b)[o' + n := word_of_int (v div 256 ^ Suc j)]"
    using Suc.prems by (simp add: contents_bset_same nat_add_distrib borrowed_byte del: power_Suc)
  let ?ys = "rev (map (\<lambda>k. word_of_int (v div 256 ^ (Suc (Suc j) + k)) :: byte) [0..<n])"
  have "contents (write_int_be_loop ?h b v (int o') n (256 ^ Suc j) (borrow v (Suc j))) b =
      overwrite o' ?ys (contents ?h b)
    \<and> buf_ok (write_int_be_loop ?h b v (int o') n (256 ^ Suc j) (borrow v (Suc j))) b"
    using Suc.prems c by (intro Suc.IH) auto
  moreover have "overwrite o' ?ys (contents ?h b) =
      overwrite o' (rev (map (\<lambda>k. word_of_int (v div 256 ^ (Suc j + k))) [0..<Suc n])) (contents h b)"
    using Suc.prems c
      overwrite_snoc [of o' ?ys "contents h b" "word_of_int (v div 256 ^ Suc j)"]
    by (simp add: upt_conv_Cons map_Suc_upt [symmetric] comp_def del: upt_Suc power_Suc)
  ultimately show ?case unfolding step by simp
qed simp

lemma unsigned_loops:
  assumes "0 \<le> v"
  shows "write_le_loop h b v o' i n mul = write_int_le_loop h b v o' i n mul 0"
    and "write_be_loop h b v o' n mul = write_int_be_loop h b v o' n mul 0"
  using assms by (induction n arbitrary: h i mul) (simp_all add: band_def Let_def)


lemma le_bytes_Suc_map:
  "le_bytes (Suc n) v = word_of_int v # map (\<lambda>k. word_of_int (v div 256 ^ (Suc 0 + k))) [0..<n]"
  by (simp add: le_bytes_eq_map upt_conv_Cons map_Suc_upt [symmetric] comp_def del: upt_Suc le_bytes.simps)

lemma write_le_all:
  fixes v :: int
  assumes "buf_ok h b" "o' + n \<le> b_len b" "0 < n"
  defines "h' \<equiv> write_int_le_loop (bset h b (int o') (Some (band v 255))) b v (int o') 1 (n - 1) 1 0"
  shows "contents h' b = overwrite o' (le_bytes n v) (contents h b) \<and> buf_ok h' b"
proof -
  obtain m where n: "n = Suc m" using assms(3) by (cases n) auto
  let ?h = "bset h b (int o') (Some (band v 255))"
  have c: "contents ?h b = (contents h b)[o' := word_of_int v]"
    using assms n by (simp add: contents_bset_same band_255)
  have "contents (write_int_le_loop ?h b v (int o') (int (Suc 0)) m (256 ^ 0) (borrow v 0)) b =
      overwrite (o' + Suc 0) (map (\<lambda>k. word_of_int (v div 256 ^ (Suc 0 + k))) [0..<m]) (contents ?h b)
    \<and> buf_ok (write_int_le_loop ?h b v (int o') (int (Suc 0)) m (256 ^ 0) (borrow v 0)) b"
    using assms n c by (intro write_int_le_loop_contents) auto
  moreover have "borrow v 0 = 0" by (simp add: borrow_def)
  ultimately show ?thesis
    using assms n c
      overwrite_Cons [of o' "word_of_int v" "map (\<lambda>k. word_of_int (v div 256 ^ (Suc 0 + k))) [0..<m]" "contents h b"]
    unfolding h'_def n le_bytes_Suc_map by simp
qed

lemma write_be_all:
  fixes v :: int
  assumes "buf_ok h b" "o' + n \<le> b_len b" "0 < n"
  defines "h' \<equiv> write_int_be_loop (bset h b (int o' + (int n - 1)) (Some (band v 255))) b v (int o') (n - 1) 1 0"
  shows "contents h' b = overwrite o' (rev (le_bytes n v)) (contents h b) \<and> buf_ok h' b"
proof -
  obtain m where n: "n = Suc m" using assms(3) by (cases n) auto
  let ?h = "bset h b (int o' + int m) (Some (band v 255))"
  have c: "contents ?h b = (contents h b)[o' + m := word_of_int v]"
    using assms n by (simp add: contents_bset_same band_255 nat_add_distrib)
  have "contents (write_int_be_loop ?h b v (int o') m (256 ^ 0) (borrow v 0)) b =
      overwrite o' (rev (map (\<lambda>k. word_of_int (v div 256 ^ (Suc 0 + k))) [0..<m])) (contents ?h b)
    \<and> buf_ok (write_int_be_loop ?h b v (int o') m (256 ^ 0) (borrow v 0)) b"
    using assms n c by (intro write_int_be_loop_contents) auto
  moreover have "borrow v 0 = 0" by (simp add: borrow_def)
  ultimately show ?thesis
    using assms n c
      overwrite_snoc [of o' "rev (map (\<lambda>k. word_of_int (v div 256 ^ (Suc 0 + k))) [0..<m])" "contents h b" "word_of_int v"]
    unfolding h'_def n le_bytes_Suc_map by simp
qed

lemma pow2_bytes: "pow2 (8 * int n) = 256 ^ n"
  by (simp add: pow2_def nat_mult_distrib power_mult)

lemma pow2_limit: "0 < n \<Longrightarrow> pow2 (8 * int n - 1) = 2 ^ (8 * n - 1)"
  by (simp add: pow2_def nat_diff_distrib nat_mult_distrib)

text \<open>One write of an integer field, whatever the routine.\<close>

definition stores :: "heap \<Rightarrow> buf \<Rightarrow> nat \<Rightarrow> byte list \<Rightarrow> (int \<times> heap) res \<Rightarrow> bool" where
  "stores h b o' bs r \<longleftrightarrow> (\<exists>h'. r = Inr (int (o' + length bs), h')
     \<and> contents h' b = overwrite o' bs (contents h b) \<and> buf_ok h' b)"

lemma general_writers:
  assumes "buf_ok h b" "b_len b < 2147483648" "o' + n \<le> b_len b" "0 < n"
  shows "0 \<le> v \<Longrightarrow> v < 256 ^ n \<Longrightarrow> stores h b o' (le_bytes n v) (writeUIntLE h b v (int o') (int n) na)"
    and "0 \<le> v \<Longrightarrow> v < 256 ^ n \<Longrightarrow> stores h b o' (rev (le_bytes n v)) (writeUIntBE h b v (int o') (int n) na)"
    and "- (2 ^ (8 * n - 1)) \<le> v \<Longrightarrow> v < 2 ^ (8 * n - 1) \<Longrightarrow>
           stores h b o' (le_bytes n v) (writeIntLE h b v (int o') (int n) na)"
    and "- (2 ^ (8 * n - 1)) \<le> v \<Longrightarrow> v < 2 ^ (8 * n - 1) \<Longrightarrow>
           stores h b o' (rev (le_bytes n v)) (writeIntBE h b v (int o') (int n) na)"
proof -
  have "o' < 2147483648" "n < 2147483648" using assms by linarith+
  then have t: "to_int32 (int o') = int o'" "to_int32 (int n) = int n"
    by (simp_all add: small32 del: to_int32_id)
  have n1: "nat (int n - 1) = n - 1" by simp
  note le = write_le_all [OF assms(1,3,4), where v = v] and be = write_be_all [OF assms(1,3,4), where v = v]
  note defs = stores_def Let_def t n1 assertInt_def checkInt_def pow2_bytes pow2_limit [OF assms(4)]
  show "stores h b o' (le_bytes n v) (writeUIntLE h b v (int o') (int n) na)"
    if "0 \<le> v" "v < 256 ^ n"
    using le that assms(3) by (simp add: writeUIntLE_def defs unsigned_loops del: to_int32_id)
  show "stores h b o' (rev (le_bytes n v)) (writeUIntBE h b v (int o') (int n) na)"
    if "0 \<le> v" "v < 256 ^ n"
    using be that assms(3) by (simp add: writeUIntBE_def defs unsigned_loops del: to_int32_id)
  show "stores h b o' (le_bytes n v) (writeIntLE h b v (int o') (int n) na)"
    if "- (2 ^ (8 * n - 1)) \<le> v" "v < 2 ^ (8 * n - 1)"
    using le that assms(3) by (simp add: writeIntLE_def defs del: to_int32_id)
  show "stores h b o' (rev (le_bytes n v)) (writeIntBE h b v (int o') (int n) na)"
    if "- (2 ^ (8 * n - 1)) \<le> v" "v < 2 ^ (8 * n - 1)"
    using be that assms(3) by (simp add: writeIntBE_def defs del: to_int32_id)
qed

lemma stores_store_all:
  assumes "buf_ok h b" "o' + length vs \<le> b_len b" "map num_byte vs = bs" "h' = store_all h b (int o') vs"
    "r = Inr (int (o' + length vs), h')"
  shows "stores h b o' bs r"
  using assms contents_store_all [OF assms(1,2)] by (auto simp: stores_def)

lemma bset_commute:
  assumes "buf_ok h b" "i \<noteq> j"
  shows "bset (bset h b i x) b j y = bset (bset h b j y) b i x"
  using assms by (auto simp: bset_def buf_ok_def list_update_swap nat_eq_iff)

lemma le_bytes_add: "le_bytes n (v + 256 ^ n) = le_bytes n v"
proof (induction n v rule: le_bytes.induct)
  case (2 n v)
  have "(v + 256 ^ Suc n) div 256 = v div 256 + 256 ^ n" by simp
  moreover have "(word_of_int (v + 256 ^ Suc n) :: byte) = word_of_int v"
    by (rule word_uint_eqI) (simp only: uint_byte_of_int, simp)
  ultimately show ?case using 2 by (simp del: power_Suc of_int_add)
qed simp

lemma le_bytes_2: "le_bytes 2 v = [word_of_int v, word_of_int (v div 256)]"
  by (simp add: numeral_2_eq_2)

lemma le_bytes_4: "le_bytes 4 v =
    [word_of_int v, word_of_int (v div 256), word_of_int (v div 65536), word_of_int (v div 16777216)]"
  by (simp add: le_bytes_eq_map numeral_eq_Suc upt_conv_Cons)

lemma byte_shifts:
  "word_of_int (shr x 8) = (word_of_int (x div 256) :: byte)"
  "word_of_int (shr x 16) = (word_of_int (x div 65536) :: byte)"
  "word_of_int (shr x 24) = (word_of_int (x div 16777216) :: byte)"
  using shr_byte [of 8 x] shr_byte [of 16 x] shr_byte [of 24 x] by simp_all

lemma shr_band_byte:
  assumes "k \<le> 16"
  shows "word_of_int (shr (band x (shl 255 k)) k) = (word_of_int (x div 2 ^ k) :: byte)"
proof (rule word_uint_eqI)
  have "(2 :: int) ^ k \<le> 2 ^ 16" using assms by (intro power_increasing) auto
  then have "to_int32 (255 * 2 ^ k) = 255 * 2 ^ k" by (intro to_int32_id) (auto intro: order_trans [of _ 0])
  then have "to_int32 (255 * 2 ^ k) = push_bit k (mask 8)"
    by (simp add: push_bit_eq_mult mask_eq_exp_minus_1)
  then have m: "shl 255 k = push_bit k (mask 8)" "to_int32 (push_bit k (mask 8)) = push_bit k (mask 8)"
    by (simp add: shl_def) (metis to_int32_idem \<open>to_int32 (255 * 2 ^ k) = push_bit k (mask 8)\<close>)
  have "take_bit 8 (drop_bit k (take_bit 32 (signed_take_bit 31 x AND push_bit k (mask 8)))) =
      take_bit 8 (drop_bit k x)"
    using assms by (intro bit_eqI) (auto simp: bit_simps min_def)
  then have "(to_int32 x AND push_bit k (mask 8)) mod 2 ^ 32 div 2 ^ k mod 2 ^ 8 = x div 2 ^ k mod 2 ^ 8"
    by (simp only: to_int32_signed_take_bit take_bit_eq_mod drop_bit_eq_div)
  then show "uint (word_of_int (shr (band x (shl 255 k)) k) :: byte) = uint (word_of_int (x div 2 ^ k) :: byte)"
    by (simp only: shr_def to_uint32_def band_def m uint_byte_of_int) simp
qed

lemma objectWriteUInt16_stores:
  assumes "o' + 2 \<le> b_len b" "- 65536 \<le> v"
  shows "\<exists>vs. objectWriteUInt16 h b v (int o') le = store_all h b (int o') vs
    \<and> map num_byte vs = (if le then le_bytes 2 v else rev (le_bytes 2 v))"
proof -
  define w where "w = (if v < 0 then 65535 + v + 1 else v)"
  have w: "le_bytes 2 w = le_bytes 2 v"
    using le_bytes_add [of 2 v] by (auto simp: w_def add.commute)
  have two: "nat (min (int (b_len b) - int o') 2) = Suc (Suc 0)"
    using assms by simp
  have "objectWriteUInt16 h b v (int o') le = store_all h b (int o')
     (map (\<lambda>i. Some (shr (band w (shl 255 (8 * (if le then i else 1 - i)))) (8 * (if le then i else 1 - i)))) [0, 1])"
    unfolding objectWriteUInt16_def Let_def w_def [symmetric] two by simp
  moreover have "map num_byte
     (map (\<lambda>i. Some (shr (band w (shl 255 (8 * (if le then i else 1 - i)))) (8 * (if le then i else 1 - i)))) [0, 1])
      = (if le then le_bytes 2 w else rev (le_bytes 2 w))"
    using shr_band_byte [of 0 w] shr_band_byte [of 8 w] by (simp add: le_bytes_2)
  ultimately show ?thesis unfolding w by blast
qed

lemma objectWriteUInt32_stores:
  assumes "o' + 4 \<le> b_len b"
  shows "\<exists>vs. objectWriteUInt32 h b v (int o') le = store_all h b (int o') vs
    \<and> map num_byte vs = (if le then le_bytes 4 v else rev (le_bytes 4 v))"
proof -
  define w where "w = (if v < 0 then 4294967295 + v + 1 else v)"
  have w: "le_bytes 4 w = le_bytes 4 v"
    using le_bytes_add [of 4 v] by (auto simp: w_def add.commute)
  have four: "nat (min (int (b_len b) - int o') 4) = Suc (Suc (Suc (Suc 0)))"
    using assms by simp
  have "objectWriteUInt32 h b v (int o') le = store_all h b (int o')
     (map (\<lambda>i. Some (band (shr w (8 * (if le then i else 3 - i))) 255)) [0, 1, 2, 3])"
    unfolding objectWriteUInt32_def Let_def w_def [symmetric] four
    by (simp add: numeral_2_eq_2 numeral_3_eq_3 add.commute)
  moreover have "map num_byte (map (\<lambda>i. Some (band (shr w (8 * (if le then i else 3 - i))) 255)) [0, 1, 2, 3])
      = (if le then le_bytes 4 w else rev (le_bytes 4 w))"
    using shr_byte [of 0 w] by (simp add: le_bytes_4 band_255 byte_shifts)
  ultimately show ?thesis unfolding w by blast
qed

lemma put16_stores:
  assumes "buf_ok h b" "o' + 2 \<le> b_len b" "- 65536 \<le> v"
  shows "stores h b o' (le_bytes 2 v) (Inr (int o' + 2, put16LE h b v (int o')))"
    and "stores h b o' (rev (le_bytes 2 v)) (Inr (int o' + 2, put16BE h b v (int o')))"
proof -
  have len: "length vs = 2" if "map num_byte vs = le_bytes 2 v \<or> map num_byte vs = rev (le_bytes 2 v)" for vs
    using that by (metis length_le_bytes length_map length_rev)
  have "\<exists>vs. put16LE h b v (int o') = store_all h b (int o') vs \<and> map num_byte vs = le_bytes 2 v"
  proof (cases "h_typed h")
    case True
    then show ?thesis
      by (intro exI [of _ "[Some (band v 255), Some (shr v 8)]"])
       (simp add: put16LE_def le_bytes_2 band_255 byte_shifts)
  qed (use objectWriteUInt16_stores [OF assms(2,3), of h True] in \<open>simp add: put16LE_def\<close>)
  with len show "stores h b o' (le_bytes 2 v) (Inr (int o' + 2, put16LE h b v (int o')))"
    using assms by (auto intro!: stores_store_all)
  have "\<exists>vs. put16BE h b v (int o') = store_all h b (int o') vs \<and> map num_byte vs = rev (le_bytes 2 v)"
  proof (cases "h_typed h")
    case True
    then show ?thesis
      by (intro exI [of _ "[Some (shr v 8), Some (band v 255)]"])
       (simp add: put16BE_def le_bytes_2 band_255 byte_shifts)
  qed (use objectWriteUInt16_stores [OF assms(2,3), of h False] in \<open>simp add: put16BE_def\<close>)
  with len show "stores h b o' (rev (le_bytes 2 v)) (Inr (int o' + 2, put16BE h b v (int o')))"
    using assms by (auto intro!: stores_store_all)
qed

lemma put32_stores:
  assumes "buf_ok h b" "o' + 4 \<le> b_len b"
  shows "stores h b o' (rev (le_bytes 4 v)) (Inr (int o' + 4, put32BE h b v (int o')))"
    and "\<not> h_typed h \<Longrightarrow>
      stores h b o' (le_bytes 4 v) (Inr (int o' + 4, objectWriteUInt32 h b v (int o') True))"
    and "stores h b o' (le_bytes 4 v) (Inr (int o' + 4, store_all h b (int o')
      [Some (band v 255), Some (shr v 8), Some (shr v 16), Some (shr v 24)]))"
proof -
  have len: "length vs = 4" if "map num_byte vs = le_bytes 4 v \<or> map num_byte vs = rev (le_bytes 4 v)" for vs
    using that by (metis length_le_bytes length_map length_rev)
  have "\<exists>vs. put32BE h b v (int o') = store_all h b (int o') vs \<and> map num_byte vs = rev (le_bytes 4 v)"
  proof (cases "h_typed h")
    case True
    then show ?thesis
      by (intro exI [of _ "[Some (shr v 24), Some (shr v 16), Some (shr v 8), Some (band v 255)]"])
       (simp add: put32BE_def le_bytes_4 band_255 byte_shifts add.commute)
  qed (use objectWriteUInt32_stores [OF assms(2), of h v False] in \<open>simp add: put32BE_def\<close>)
  with len show "stores h b o' (rev (le_bytes 4 v)) (Inr (int o' + 4, put32BE h b v (int o')))"
    using assms by (auto intro!: stores_store_all)
  show "stores h b o' (le_bytes 4 v) (Inr (int o' + 4, objectWriteUInt32 h b v (int o') True))"
    using objectWriteUInt32_stores [OF assms(2), of h v True] len assms by (auto intro!: stores_store_all)
  show "stores h b o' (le_bytes 4 v) (Inr (int o' + 4, store_all h b (int o')
      [Some (band v 255), Some (shr v 8), Some (shr v 16), Some (shr v 24)]))"
    using assms by (intro stores_store_all [where vs = "[Some (band v 255), Some (shr v 8), Some (shr v 16), Some (shr v 24)]"])
      (simp_all add: le_bytes_4 band_255 byte_shifts)
qed

lemma down_store4:
  assumes "buf_ok h b"
  shows "bset (bset (bset (bset h b (o' + 3) w3) b (o' + 2) w2) b (o' + 1) w1) b o' w0 =
    store_all h b o' [w0, w1, w2, w3]"
proof -
  note c = bset_commute [of _ b]
  have "bset (bset (bset (bset h b (o' + 3) w3) b (o' + 2) w2) b (o' + 1) w1) b o' w0 =
      bset (bset (bset (bset h b (o' + 2) w2) b (o' + 1) w1) b o' w0) b (o' + 3) w3"
    using assms by (simp add: c [of _ "o' + 3"])
  also have "\<dots> = bset (bset (bset (bset h b (o' + 1) w1) b o' w0) b (o' + 2) w2) b (o' + 3) w3"
    using assms by (simp add: c [of _ "o' + 2" "o' + 1"] c [of _ "o' + 2" o'])
  also have "\<dots> = bset (bset (bset (bset h b o' w0) b (o' + 1) w1) b (o' + 2) w2) b (o' + 3) w3"
    using assms by (simp add: c [of _ "o' + 1" o'])
  finally show ?thesis by (simp add: add.commute)
qed

lemma writers8:
  assumes "buf_ok h b" "b_len b < 2147483648" "o' + 1 \<le> b_len b"
  shows "0 \<le> v \<Longrightarrow> v < 256 \<Longrightarrow> stores h b o' (le_bytes 1 v) (writeUInt8 h b v (int o') na)"
    and "- 128 \<le> v \<Longrightarrow> v < 128 \<Longrightarrow> stores h b o' (le_bytes 1 v) (writeInt8 h b v (int o') na)"
proof -
  have t: "to_int32 (int o') = int o'" using assms by (simp add: small32 del: to_int32_id)
  have s: "stores h b o' (le_bytes 1 v) (Inr (int o' + 1, bset h b (int o') (Some (band w 255))))"
    if "(word_of_int w :: byte) = word_of_int v" for w
    using assms that by (intro stores_store_all [where vs = "[Some (band w 255)]"]) (simp_all add: band_255)
  show "stores h b o' (le_bytes 1 v) (writeUInt8 h b v (int o') na)" if "0 \<le> v" "v < 256"
    using s [of v] that assms by (simp add: writeUInt8_def Let_def t assertInt_def checkInt_def del: to_int32_id)
  have "(word_of_int (255 + v + 1) :: byte) = word_of_int v"
    using le_bytes_add [of 1 v] by (simp add: add.commute)
  note s' = s [OF this] s [of v]
  have "assertInt na b v (int o') 1 127 (- 128) = Inr ()" if "- 128 \<le> v" "v < 128"
    using that assms(3) by (simp add: assertInt_def checkInt_def)
  then show "stores h b o' (le_bytes 1 v) (writeInt8 h b v (int o') na)" if "- 128 \<le> v" "v < 128"
    using that s' by (simp add: writeInt8_def Let_def t del: to_int32_id)
qed

lemma writers16:
  assumes "buf_ok h b" "b_len b < 2147483648" "o' + 2 \<le> b_len b"
  shows "0 \<le> v \<Longrightarrow> v < 65536 \<Longrightarrow> stores h b o' (le_bytes 2 v) (writeUInt16LE h b v (int o') na)"
    and "0 \<le> v \<Longrightarrow> v < 65536 \<Longrightarrow> stores h b o' (rev (le_bytes 2 v)) (writeUInt16BE h b v (int o') na)"
    and "- 32768 \<le> v \<Longrightarrow> v < 32768 \<Longrightarrow> stores h b o' (le_bytes 2 v) (writeInt16LE h b v (int o') na)"
    and "- 32768 \<le> v \<Longrightarrow> v < 32768 \<Longrightarrow> stores h b o' (rev (le_bytes 2 v)) (writeInt16BE h b v (int o') na)"
proof -
  have t: "to_int32 (int o') = int o'" using assms by (simp add: small32 del: to_int32_id)
  note defs = writeUInt16LE_def writeUInt16BE_def writeInt16LE_def writeInt16BE_def
    Let_def t assertInt_def checkInt_def
  show "stores h b o' (le_bytes 2 v) (writeUInt16LE h b v (int o') na)"
    "stores h b o' (rev (le_bytes 2 v)) (writeUInt16BE h b v (int o') na)" if "0 \<le> v" "v < 65536"
    using put16_stores [OF assms(1,3), of v] that assms by (simp_all add: defs del: to_int32_id)
  show "stores h b o' (le_bytes 2 v) (writeInt16LE h b v (int o') na)"
    "stores h b o' (rev (le_bytes 2 v)) (writeInt16BE h b v (int o') na)" if "- 32768 \<le> v" "v < 32768"
    using put16_stores [OF assms(1,3), of v] that assms by (simp_all add: defs del: to_int32_id)
qed

lemma writers32:
  assumes "buf_ok h b" "b_len b < 2147483648" "o' + 4 \<le> b_len b"
  shows "0 \<le> v \<Longrightarrow> v < 4294967296 \<Longrightarrow> stores h b o' (le_bytes 4 v) (writeUInt32LE h b v (int o') na)"
    and "0 \<le> v \<Longrightarrow> v < 4294967296 \<Longrightarrow> stores h b o' (rev (le_bytes 4 v)) (writeUInt32BE h b v (int o') na)"
    and "- 2147483648 \<le> v \<Longrightarrow> v < 2147483648 \<Longrightarrow> stores h b o' (le_bytes 4 v) (writeInt32LE h b v (int o') na)"
    and "- 2147483648 \<le> v \<Longrightarrow> v < 2147483648 \<Longrightarrow> stores h b o' (rev (le_bytes 4 v)) (writeInt32BE h b v (int o') na)"
proof -
  have t: "to_int32 (int o') = int o'" using assms by (simp add: small32 del: to_int32_id)
  note defs = writeUInt32LE_def writeUInt32BE_def writeInt32LE_def writeInt32BE_def
    Let_def t assertInt_def checkInt_def down_store4 [OF assms(1)]
  note put = put32_stores [OF assms(1,3), of v]
  show "stores h b o' (le_bytes 4 v) (writeUInt32LE h b v (int o') na)"
    "stores h b o' (rev (le_bytes 4 v)) (writeUInt32BE h b v (int o') na)" if "0 \<le> v" "v < 4294967296"
    using put that assms by (simp_all add: defs del: to_int32_id store_all.simps)
  have "store_all h b (int o') [Some (band v 255), Some (shr v 8), Some (shr v 16), Some (shr v 24)] =
      bset (bset (bset (bset h b (int o') (Some (band v 255))) b (int o' + 1) (Some (shr v 8)))
        b (int o' + 2) (Some (shr v 16))) b (int o' + 3) (Some (shr v 24))"
    by (simp add: add.commute)
  then show "stores h b o' (le_bytes 4 v) (writeInt32LE h b v (int o') na)"
    if "- 2147483648 \<le> v" "v < 2147483648"
    using put that assms by (simp add: defs del: to_int32_id store_all.simps)
  have "le_bytes 4 (4294967295 + v + 1) = le_bytes 4 v"
    using le_bytes_add [of 4 v] by (simp add: add.commute)
  then show "stores h b o' (rev (le_bytes 4 v)) (writeInt32BE h b v (int o') na)"
    if "- 2147483648 \<le> v" "v < 2147483648"
    using put(1) put32_stores(1) [OF assms(1,3), of "4294967295 + v + 1"] that assms
    by (simp add: defs del: to_int32_id)
qed

section \<open>The accessors against the reference\<close>

definition round_trips ::
  "(heap \<Rightarrow> buf \<Rightarrow> int \<Rightarrow> int \<Rightarrow> (int \<times> heap) res) \<Rightarrow> (heap \<Rightarrow> buf \<Rightarrow> int \<Rightarrow> jnum res) \<Rightarrow>
    nat \<Rightarrow> heap \<Rightarrow> buf \<Rightarrow> nat \<Rightarrow> int \<Rightarrow> bool" where
  "round_trips write read n h b o' v \<longleftrightarrow> (\<exists>h'. write h b v (int o') = Inr (int o' + int n, h')
     \<and> read h' b (int o') = Inr (Some v)
     \<and> take o' (contents h' b) = take o' (contents h b)
     \<and> drop (o' + n) (contents h' b) = drop (o' + n) (contents h b))"

lemma stores_round_trip:
  assumes "stores h b o' bs (w h b v (int o'))" "length bs = n" "o' + n \<le> b_len b" "buf_ok h b"
    and "\<And>h'. buf_ok h' b \<Longrightarrow> field h' b o' n = bs \<Longrightarrow> r h' b (int o') = Inr (Some v)"
  shows "round_trips w r n h b o' v"
proof -
  obtain h' where h': "w h b v (int o') = Inr (int o' + int n, h')"
    "contents h' b = overwrite o' bs (contents h b)" "buf_ok h' b"
    using assms(1,2) by (auto simp: stores_def)
  have "field h' b o' n = bs"
    using assms(2-4) by (simp add: h'(2) overwrite_def)
  moreover have "take o' (contents h' b) = take o' (contents h b)"
    "drop (o' + n) (contents h' b) = drop (o' + n) (contents h b)"
    using assms(2-4) by (simp_all add: h'(2) overwrite_def)
  ultimately show ?thesis
    unfolding round_trips_def using h' assms(5) by blast
qed

lemma signed_small: "signed_val 1 (v mod 256) = v" if "- 128 \<le> v" "v < 128"
  using signed_val_mod [of 1 v] that by simp

lemma signed16: "signed_val 2 (v mod 65536) = v" if "- 32768 \<le> v" "v < 32768"
  using signed_val_mod [of 2 v] that by simp

lemma signed32: "signed_val 4 (v mod 4294967296) = v" if "- 2147483648 \<le> v" "v < 2147483648"
  using signed_val_mod [of 4 v] that by simp



text \<open>
  C13: the fixed-width readers, which join the bytes with shifts and a multiplication for the top
  byte, return what the general readers return for widths 1, 2 and 4.
\<close>

theorem fixed_readers_agree:
  assumes "buf_ok h b" "b_len b < 2147483648"
  shows "(o' + 1 \<le> b_len b \<longrightarrow>
      readUInt8 h b (int o') na = readUIntLE h b (int o') 1 na
      \<and> readInt8 h b (int o') na = readIntLE h b (int o') 1 na)
    \<and> (o' + 2 \<le> b_len b \<longrightarrow>
      readUInt16LE h b (int o') na = readUIntLE h b (int o') 2 na
      \<and> readUInt16BE h b (int o') na = readUIntBE h b (int o') 2 na
      \<and> readInt16LE h b (int o') na = readIntLE h b (int o') 2 na
      \<and> readInt16BE h b (int o') na = readIntBE h b (int o') 2 na)
    \<and> (o' + 4 \<le> b_len b \<longrightarrow>
      readUInt32LE h b (int o') na = readUIntLE h b (int o') 4 na
      \<and> readUInt32BE h b (int o') na = readUIntBE h b (int o') 4 na
      \<and> readInt32LE h b (int o') na = readIntLE h b (int o') 4 na
      \<and> readInt32BE h b (int o') na = readIntBE h b (int o') 4 na)"
  using general_readers [OF assms, of o' 1 na] general_readers [OF assms, of o' 2 na]
    general_readers [OF assms, of o' 4 na] read8 [OF assms(1), of o' na] read16 [OF assms(1), of o' na]
    read32 [OF assms(1), of o' na]
  by simp

theorem fixed_readers_agree_witness:
  "readUInt32BE demo_heap demo_buf 0 False = readUIntBE demo_heap demo_buf 0 4 False
   \<and> readInt16LE demo_heap demo_buf 2 False = readIntLE demo_heap demo_buf 2 2 False
   \<and> readInt8 demo_heap demo_buf 3 False = readIntLE demo_heap demo_buf 3 1 False"
  using fixed_readers_agree [OF demo_live(2), of 3 False] fixed_readers_agree [OF demo_live(2), of 2 False]
    fixed_readers_agree [OF demo_live(2), of 0 False]
  by (simp add: demo_live)



text \<open>
  C9: the same for the fixed-width writers and readers, in typed-array mode (indexed stores) and in
  object mode (\<open>objectWriteUInt16\<close>, \<open>objectWriteUInt32\<close>).
\<close>

theorem fixed_round_trip:
  assumes "buf_ok h b" "b_len b < 2147483648"
  shows "(o' + 1 \<le> b_len b \<longrightarrow>
      (0 \<le> v \<and> v < 256 \<longrightarrow> round_trips (\<lambda>h b v o'. writeUInt8 h b v o' na) (\<lambda>h b o'. readUInt8 h b o' na) 1 h b o' v)
      \<and> (- 128 \<le> v \<and> v < 128 \<longrightarrow>
        round_trips (\<lambda>h b v o'. writeInt8 h b v o' na) (\<lambda>h b o'. readInt8 h b o' na) 1 h b o' v))
    \<and> (o' + 2 \<le> b_len b \<longrightarrow>
      (0 \<le> v \<and> v < 65536 \<longrightarrow>
        round_trips (\<lambda>h b v o'. writeUInt16LE h b v o' na) (\<lambda>h b o'. readUInt16LE h b o' na) 2 h b o' v
        \<and> round_trips (\<lambda>h b v o'. writeUInt16BE h b v o' na) (\<lambda>h b o'. readUInt16BE h b o' na) 2 h b o' v)
      \<and> (- 32768 \<le> v \<and> v < 32768 \<longrightarrow>
        round_trips (\<lambda>h b v o'. writeInt16LE h b v o' na) (\<lambda>h b o'. readInt16LE h b o' na) 2 h b o' v
        \<and> round_trips (\<lambda>h b v o'. writeInt16BE h b v o' na) (\<lambda>h b o'. readInt16BE h b o' na) 2 h b o' v))
    \<and> (o' + 4 \<le> b_len b \<longrightarrow>
      (0 \<le> v \<and> v < 4294967296 \<longrightarrow>
        round_trips (\<lambda>h b v o'. writeUInt32LE h b v o' na) (\<lambda>h b o'. readUInt32LE h b o' na) 4 h b o' v
        \<and> round_trips (\<lambda>h b v o'. writeUInt32BE h b v o' na) (\<lambda>h b o'. readUInt32BE h b o' na) 4 h b o' v)
      \<and> (- 2147483648 \<le> v \<and> v < 2147483648 \<longrightarrow>
        round_trips (\<lambda>h b v o'. writeInt32LE h b v o' na) (\<lambda>h b o'. readInt32LE h b o' na) 4 h b o' v
        \<and> round_trips (\<lambda>h b v o'. writeInt32BE h b v o' na) (\<lambda>h b o'. readInt32BE h b o' na) 4 h b o' v))"
  by (intro conjI impI; (rule stores_round_trip, rule writers8 writers16 writers32))
    (use assms in \<open>simp_all add: read8 read16 read32 le_val_le_bytes signed_small signed16 signed32
      del: le_bytes.simps One_nat_def\<close>)

theorem fixed_round_trip_witness:
  "round_trips (\<lambda>h b v o'. writeInt32BE h b v o' False) (\<lambda>h b o'. readInt32BE h b o' False) 4 demo_heap demo_buf 0 (- 2)
   \<and> round_trips (\<lambda>h b v o'. writeUInt16LE h b v o' False) (\<lambda>h b o'. readUInt16LE h b o' False) 2 demo_heap demo_buf 1 513"
  using fixed_round_trip [OF demo_live(2), of 0 "- 2" False] fixed_round_trip [OF demo_live(2), of 1 513 False]
  by (simp add: demo_live)



text \<open>
  \<open>checkInt\<close> has no lower bound on the offset, unlike \<open>checkOffset\<close>: a checked one-byte write at
  a negative offset reports success and stores nothing.
\<close>

theorem negative_offset_write_is_lost:
  assumes "off < 0" "- 2147483648 \<le> off" "0 \<le> v" "v < 256"
  shows "writeUInt8 h b v off False = Inr (off + 1, h) \<and> isl (readUInt8 h b off False)"
  using assms by (simp add: writeUInt8_def assertInt_def checkInt_def Let_def readUInt8_def asserted_def
      checkOffset_def bset_def)

theorem negative_offset_write_is_lost_witness:
  "writeUInt8 demo_heap demo_buf 7 (- 1) False = Inr (0, demo_heap)"
  using negative_offset_write_is_lost [of "- 1" 7 demo_heap demo_buf] by simp


end
