(* ===== verification/Buffer_Text.thy ===== *)
theory Buffer_Text
  imports Buffer_Int
begin

unbundle bit_operations_syntax

text \<open>
  The text encodings of the \<open>Buffer\<close> module: the functions that turn a string into the bytes to
  store (\<open>utf8ToBytes\<close>, \<open>asciiToBytes\<close>, \<open>utf16leToBytes\<close>, \<open>base64ToBytes\<close>, \<open>hexWrite\<close>), those that
  turn a range of a buffer into a string (\<open>utf8Slice\<close>, \<open>asciiSlice\<close>, \<open>latin1Slice\<close>, \<open>hexSlice\<close>,
  \<open>utf16leSlice\<close>, \<open>base64Slice\<close>) and the copy loop \<open>blitBuffer\<close> they share.  The base-64 codec itself is
  the package \<open>base64-js\<close>: its two functions are the parameter \<open>b64\<close>.

  The lemmas relate the loops over the store to functions on byte lists and show that decoding
  inverts encoding: UTF-8 on well-formed UTF-16, Latin-1 on code units below 256, UTF-16LE on all
  strings, hexadecimal on all byte strings.
\<close>

section \<open>Strings to bytes\<close>

text \<open>The remaining room \<open>units\<close> of the encoders; \<open>None\<close> is \<open>Infinity\<close>.\<close>

definition use_units :: "int \<Rightarrow> int option \<Rightarrow> int option" where
  "use_units n units = map_option (\<lambda>u. u - n) units"

definition units_left :: "int option \<Rightarrow> bool" where
  "units_left units = (case units of None \<Rightarrow> True | Some u \<Rightarrow> u > - 1)"

definition push_bad :: "int option \<Rightarrow> int list \<Rightarrow> int list" where
  "push_bad units bytes = (if units_left units then bytes @ [239, 191, 189] else bytes)"

text \<open>The four length classes; \<open>Inr None\<close> is the \<open>break\<close> out of the loop.\<close>

definition utf8_emit :: "int \<Rightarrow> int option \<Rightarrow> int list \<Rightarrow> ((int option \<times> int list) option) res" where
  "utf8_emit codePoint units bytes =
     (let put = (\<lambda>n bs. let u = use_units n units in
                        Inr (if units_left u then Some (u, bytes @ bs) else None))
      in if codePoint < 128 then put 1 [codePoint]
         else if codePoint < 2048 then put 2 [bor (sar codePoint 6) 192, bor (band codePoint 63) 128]
         else if codePoint < 65536 then
           put 3 [bor (sar codePoint 12) 224, bor (band (sar codePoint 6) 63) 128,
                  bor (band codePoint 63) 128]
         else if codePoint < 1114112 then
           put 4 [bor (sar codePoint 18) 240, bor (band (sar codePoint 12) 63) 128,
                  bor (band (sar codePoint 6) 63) 128, bor (band codePoint 63) 128]
         else Inl (Error ''Invalid code point''))"

fun utf8_loop :: "jsstring \<Rightarrow> int option \<Rightarrow> int option \<Rightarrow> int list \<Rightarrow> int list res" where
  "utf8_loop [] units leadSurrogate bytes = Inr bytes"
| "utf8_loop (c # cs) units leadSurrogate bytes =
     (let codePoint = uint c;
          emit = (\<lambda>cp units bytes. bind_r (utf8_emit cp units bytes) (\<lambda>r.
                    case r of None \<Rightarrow> Inr bytes
                    | Some (units', bytes') \<Rightarrow> utf8_loop cs units' None bytes'));
          bad = use_units 3 units
      in if codePoint > 55295 \<and> codePoint < 57344 then
           (case leadSurrogate of
              None \<Rightarrow>
                if codePoint > 56319 then utf8_loop cs bad None (push_bad bad bytes)
                else if cs = [] then utf8_loop cs bad None (push_bad bad bytes)
                else utf8_loop cs units (Some codePoint) bytes
            | Some lead \<Rightarrow>
                if codePoint < 56320 then utf8_loop cs bad (Some codePoint) (push_bad bad bytes)
                else emit (bor (shl (lead - 55296) 10) (codePoint - 56320) + 65536) units bytes)
         else (case leadSurrogate of
                 None \<Rightarrow> emit codePoint units bytes
               | Some _ \<Rightarrow> emit codePoint bad (push_bad bad bytes)))"

text \<open>\<open>units || Infinity\<close>: an absent or zero bound is no bound.\<close>

definition utf8ToBytes :: "jsstring \<Rightarrow> int option \<Rightarrow> int list res" where
  "utf8ToBytes s units = utf8_loop s (if units = Some 0 then None else units) None []"

definition asciiToBytes :: "jsstring \<Rightarrow> int list" where
  "asciiToBytes s = map (\<lambda>c. band (uint c) 255) s"

fun utf16leToBytes :: "jsstring \<Rightarrow> int \<Rightarrow> int list" where
  "utf16leToBytes [] units = []"
| "utf16leToBytes (c # cs) units =
     (if units - 2 < 0 then []
      else uint c mod 256 # sar (uint c) 8 # utf16leToBytes cs (units - 2))"

record base64js =
  toByteArray :: "jsstring \<Rightarrow> int list res"
  fromByteArray :: "byte list \<Rightarrow> jsstring"

text \<open>The white space that \<open>trim\<close> and \<open>parseInt\<close> skip.\<close>

definition js_space :: "code_unit \<Rightarrow> bool" where
  "js_space c \<longleftrightarrow> (9 \<le> c \<and> c \<le> 13) \<or> (8192 \<le> c \<and> c \<le> 8202) \<or>
     c \<in> {32, 160, 5760, 8232, 8233, 8239, 8287, 12288, 65279}"

definition stringtrim :: "jsstring \<Rightarrow> jsstring" where
  "stringtrim s = rev (dropWhile js_space (rev (dropWhile js_space s)))"

definition base64_char :: "code_unit \<Rightarrow> bool" where
  "base64_char c \<longleftrightarrow> c \<in> {43, 47, 45, 95} \<or> (48 \<le> c \<and> c \<le> 57) \<or> (65 \<le> c \<and> c \<le> 90) \<or> (97 \<le> c \<and> c \<le> 122)"

definition base64clean :: "jsstring \<Rightarrow> jsstring" where
  "base64clean s =
     (let str = filter base64_char (stringtrim s)
      in if length str < 2 then [] else str @ replicate ((4 - length str mod 4) mod 4) 61)"

definition base64ToBytes :: "base64js \<Rightarrow> jsstring \<Rightarrow> int list res" where
  "base64ToBytes b64 s = toByteArray b64 (base64clean s)"

text \<open>\<open>parseInt(s, 16)\<close>: white space, a sign, \<open>0x\<close>, then the longest run of digits.\<close>

definition hex_digit :: "code_unit \<Rightarrow> int option" where
  "hex_digit c =
     (if 48 \<le> c \<and> c \<le> 57 then Some (uint c - 48)
      else if 97 \<le> c \<and> c \<le> 102 then Some (uint c - 87)
      else if 65 \<le> c \<and> c \<le> 70 then Some (uint c - 55)
      else None)"

fun parse_hex :: "jsstring \<Rightarrow> int option \<Rightarrow> int option" where
  "parse_hex [] acc = acc"
| "parse_hex (c # cs) acc =
     (case hex_digit c of None \<Rightarrow> acc
      | Some d \<Rightarrow> parse_hex cs (Some ((case acc of None \<Rightarrow> 0 | Some a \<Rightarrow> 16 * a) + d)))"

definition parseInt16 :: "jsstring \<Rightarrow> jnum" where
  "parseInt16 s =
     (let s1 = dropWhile js_space s;
          neg = (s1 \<noteq> [] \<and> hd s1 = 45);
          s2 = (if s1 \<noteq> [] \<and> hd s1 \<in> {43, 45} then tl s1 else s1);
          s3 = (if length s2 \<ge> 2 \<and> s2 ! 0 = 48 \<and> s2 ! 1 \<in> {120, 88} then drop 2 s2 else s2)
      in map_option (\<lambda>n. if neg then - n else n) (parse_hex s3 None))"

section \<open>Storing\<close>

fun blit_loop :: "heap \<Rightarrow> int list \<Rightarrow> buf \<Rightarrow> int \<Rightarrow> int \<Rightarrow> nat \<Rightarrow> int \<times> heap" where
  "blit_loop h src dst offset i 0 = (i, h)"
| "blit_loop h src dst offset i (Suc n) =
     (if i + offset \<ge> int (b_len dst) \<or> i \<ge> int (length src) then (i, h)
      else blit_loop (bset h dst (i + offset) (Some (src ! nat i))) src dst offset (i + 1) n)"

definition blitBuffer :: "heap \<Rightarrow> int list \<Rightarrow> buf \<Rightarrow> int \<Rightarrow> int \<Rightarrow> int \<times> heap" where
  "blitBuffer h src dst offset len = blit_loop h src dst offset 0 (nat len)"

fun hex_loop :: "heap \<Rightarrow> buf \<Rightarrow> jsstring \<Rightarrow> int \<Rightarrow> int \<Rightarrow> nat \<Rightarrow> int \<times> heap" where
  "hex_loop h b s offset i 0 = (i, h)"
| "hex_loop h b s offset i (Suc n) =
     (case parseInt16 (str_slice s (2 * i) (2 * i + 2)) of
        None \<Rightarrow> (i, h)
      | Some parsed \<Rightarrow> hex_loop (bset h b (offset + i) (Some parsed)) b s offset (i + 1) n)"

definition hexWrite :: "heap \<Rightarrow> buf \<Rightarrow> jsstring \<Rightarrow> int \<Rightarrow> int \<Rightarrow> (int \<times> heap) res" where
  "hexWrite h b s offset length' =
     (let remaining = int (b_len b) - offset;
          len1 = (if length' = 0 then remaining else if length' > remaining then remaining else length');
          strLen = int (length s)
      in if strLen mod 2 \<noteq> 0 then Inl (TypeError ''Invalid hex string'')
         else let len2 = (if len1 > strLen div 2 then strLen div 2 else len1)
              in Inr (hex_loop h b s offset 0 (nat len2)))"

definition utf8Write :: "heap \<Rightarrow> buf \<Rightarrow> jsstring \<Rightarrow> int \<Rightarrow> int \<Rightarrow> (int \<times> heap) res" where
  "utf8Write h b s offset length' =
     bind_r (utf8ToBytes s (Some (int (b_len b) - offset))) (\<lambda>bytes.
     Inr (blitBuffer h bytes b offset length'))"

definition asciiWrite :: "heap \<Rightarrow> buf \<Rightarrow> jsstring \<Rightarrow> int \<Rightarrow> int \<Rightarrow> (int \<times> heap) res" where
  "asciiWrite h b s offset length' = Inr (blitBuffer h (asciiToBytes s) b offset length')"

definition latin1Write :: "heap \<Rightarrow> buf \<Rightarrow> jsstring \<Rightarrow> int \<Rightarrow> int \<Rightarrow> (int \<times> heap) res" where
  "latin1Write h b s offset length' = asciiWrite h b s offset length'"

definition base64Write :: "base64js \<Rightarrow> heap \<Rightarrow> buf \<Rightarrow> jsstring \<Rightarrow> int \<Rightarrow> int \<Rightarrow> (int \<times> heap) res" where
  "base64Write b64 h b s offset length' =
     bind_r (base64ToBytes b64 s) (\<lambda>bytes. Inr (blitBuffer h bytes b offset length'))"

definition ucs2Write :: "heap \<Rightarrow> buf \<Rightarrow> jsstring \<Rightarrow> int \<Rightarrow> int \<Rightarrow> (int \<times> heap) res" where
  "ucs2Write h b s offset length' =
     Inr (blitBuffer h (utf16leToBytes s (int (b_len b) - offset)) b offset length')"

section \<open>Bytes to strings\<close>

text \<open>
  One round of the loop of \<open>utf8Slice\<close>: the code point read at \<open>i\<close> (\<open>None\<close> for \<open>null\<close>) and
  \<open>bytesPerSequence\<close>.
\<close>

definition is_cont :: "jnum \<Rightarrow> bool" where
  "is_cont x \<longleftrightarrow> nand x (Some 192) = Some 128"

definition seq_length :: "jnum \<Rightarrow> int" where
  "seq_length x = (case x of None \<Rightarrow> 1
     | Some f \<Rightarrow> if f > 239 then 4 else if f > 223 then 3 else if f > 191 then 2 else 1)"

definition utf8_next :: "heap \<Rightarrow> buf \<Rightarrow> int \<Rightarrow> int \<Rightarrow> int option \<times> int" where
  "utf8_next h b i endv =
     (let firstByte = bget h b i; n = seq_length firstByte;
          low = (\<lambda>x. nand x (Some 63))
      in (if i + n \<le> endv then
            if n = 1 then (case firstByte of Some f \<Rightarrow> if f < 128 then Some f else None | None \<Rightarrow> None)
            else if n = 2 then
              (if is_cont (bget h b (i + 1)) then
                 (case nor (nshl (nand firstByte (Some 31)) 6) (low (bget h b (i + 1))) of
                    Some t \<Rightarrow> if t > 127 then Some t else None | None \<Rightarrow> None)
               else None)
            else if n = 3 then
              (if is_cont (bget h b (i + 1)) \<and> is_cont (bget h b (i + 2)) then
                 (case nor (nor (nshl (nand firstByte (Some 15)) 12) (nshl (low (bget h b (i + 1))) 6))
                    (low (bget h b (i + 2))) of
                    Some t \<Rightarrow> if t > 2047 \<and> (t < 55296 \<or> t > 57343) then Some t else None | None \<Rightarrow> None)
               else None)
            else
              (if is_cont (bget h b (i + 1)) \<and> is_cont (bget h b (i + 2)) \<and> is_cont (bget h b (i + 3)) then
                 (case nor (nor (nor (nshl (nand firstByte (Some 15)) 18) (nshl (low (bget h b (i + 1))) 12))
                    (nshl (low (bget h b (i + 2))) 6)) (low (bget h b (i + 3))) of
                    Some t \<Rightarrow> if t > 65535 \<and> t < 1114112 then Some t else None | None \<Rightarrow> None)
               else None)
          else None, n))"

lemma seq_length_pos: "0 < seq_length x"
  by (auto simp: seq_length_def split: option.splits)

lemma utf8_next_pos: "utf8_next h b i endv = (cp, n) \<Longrightarrow> 0 < n"
  by (auto simp: utf8_next_def Let_def seq_length_pos)

definition push_code_point :: "int \<Rightarrow> int list" where
  "push_code_point cp =
     (if cp > 65535
      then [bor (band (shr (cp - 65536) 10) 1023) 55296, bor 56320 (band (cp - 65536) 1023)]
      else [cp])"

function utf8_slice_loop :: "heap \<Rightarrow> buf \<Rightarrow> int \<Rightarrow> int \<Rightarrow> int list \<Rightarrow> int list" where
  "utf8_slice_loop h b i endv res =
     (if i < endv then
        (case utf8_next h b i endv of
           (None, n) \<Rightarrow> utf8_slice_loop h b (i + 1) endv (res @ [65533])
         | (Some cp, n) \<Rightarrow> utf8_slice_loop h b (i + n) endv (res @ push_code_point cp))
      else res)"
  by pat_completeness auto
termination
  by (relation "measure (\<lambda>(h, b, i, endv, res). nat (endv - i))") (auto dest: utf8_next_pos [OF sym])

declare utf8_slice_loop.simps [simp del]

definition MAX_ARGUMENTS_LENGTH :: nat where
  "MAX_ARGUMENTS_LENGTH = 4096"

function decode_chunks :: "int list \<Rightarrow> nat \<Rightarrow> jsstring \<Rightarrow> jsstring" where
  "decode_chunks codePoints i res =
     (if i < length codePoints
      then decode_chunks codePoints (i + MAX_ARGUMENTS_LENGTH)
             (res @ map fromCharCode (take MAX_ARGUMENTS_LENGTH (drop i codePoints)))
      else res)"
  by pat_completeness auto
termination
  by (relation "measure (\<lambda>(cs, i, res). length cs - i)") (auto simp: MAX_ARGUMENTS_LENGTH_def)

declare decode_chunks.simps [simp del]

definition decodeCodePointsArray :: "int list \<Rightarrow> jsstring" where
  "decodeCodePointsArray codePoints =
     (if length codePoints \<le> MAX_ARGUMENTS_LENGTH then map fromCharCode codePoints
      else decode_chunks codePoints 0 [])"

definition utf8Slice :: "heap \<Rightarrow> buf \<Rightarrow> int \<Rightarrow> int \<Rightarrow> jsstring" where
  "utf8Slice h b start endv =
     decodeCodePointsArray (utf8_slice_loop h b start (min (int (b_len b)) endv) [])"

text \<open>\<open>String.fromCharCode\<close> of a number that may be \<open>NaN\<close>, which gives the code unit 0.\<close>

definition char_of_num :: "jnum \<Rightarrow> code_unit" where
  "char_of_num x = (case x of None \<Rightarrow> 0 | Some n \<Rightarrow> fromCharCode n)"

definition range_int :: "int \<Rightarrow> int \<Rightarrow> int list" where
  "range_int a b = map (\<lambda>k. a + int k) [0..<nat (b - a)]"

definition asciiSlice :: "heap \<Rightarrow> buf \<Rightarrow> int \<Rightarrow> int \<Rightarrow> jsstring" where
  "asciiSlice h b start endv =
     map (\<lambda>i. char_of_num (nand (bget h b i) (Some 127))) (range_int start (min (int (b_len b)) endv))"

definition latin1Slice :: "heap \<Rightarrow> buf \<Rightarrow> int \<Rightarrow> int \<Rightarrow> jsstring" where
  "latin1Slice h b start endv =
     map (\<lambda>i. char_of_num (bget h b i)) (range_int start (min (int (b_len b)) endv))"

definition hex_char :: "int \<Rightarrow> code_unit" where
  "hex_char d = (if d < 10 then word_of_int (48 + d) else word_of_int (87 + d))"

text \<open>\<open>n.toString(16)\<close> of a byte and the padded form.\<close>

definition toHex :: "int \<Rightarrow> jsstring" where
  "toHex n = (if n < 16 then [48, hex_char n] else [hex_char (n div 16), hex_char (n mod 16)])"

fun hex_out :: "jnum list \<Rightarrow> jsstring res" where
  "hex_out [] = Inr []"
| "hex_out (None # xs) = Inl (TypeError ''Cannot read property of undefined'')"
| "hex_out (Some n # xs) = bind_r (hex_out xs) (\<lambda>out. Inr (toHex n @ out))"

definition hexSlice :: "heap \<Rightarrow> buf \<Rightarrow> int \<Rightarrow> int \<Rightarrow> jsstring res" where
  "hexSlice h b start' end' =
     (let len = int (b_len b);
          start = (if start' < 0 then 0 else start');
          endv = (if end' = 0 \<or> end' < 0 \<or> end' > len then len else end')
      in hex_out (map (bget h b) (range_int start endv)))"

function ucs2_loop :: "heap \<Rightarrow> buf \<Rightarrow> int \<Rightarrow> jsstring" where
  "ucs2_loop h bytes i =
     (if i < int (b_len bytes)
      then char_of_num (nadd (bget h bytes i) (nmul (bget h bytes (i + 1)) (Some 256))) # ucs2_loop h bytes (i + 2)
      else [])"
  by pat_completeness auto
termination
  by (relation "measure (\<lambda>(h, b, i). nat (int (b_len b) - i))") auto

declare ucs2_loop.simps [simp del]

text \<open>The temporary view that \<open>slice\<close> makes is unreachable after the call, so only the text is kept.\<close>

definition utf16leSlice :: "heap \<Rightarrow> buf \<Rightarrow> int \<Rightarrow> int \<Rightarrow> jsstring res" where
  "utf16leSlice h b start endv =
     bind_r (slice h b start (Some endv)) (\<lambda>(bytes, h'). Inr (ucs2_loop h' bytes 0))"

definition base64Slice :: "base64js \<Rightarrow> heap \<Rightarrow> buf \<Rightarrow> int \<Rightarrow> int \<Rightarrow> jsstring res" where
  "base64Slice b64 h b start endv =
     (if start = 0 \<and> endv = int (b_len b) then Inr (fromByteArray b64 (contents h b))
      else bind_r (slice h b start (Some endv)) (\<lambda>(v, h'). Inr (fromByteArray b64 (contents h' v))))"

section \<open>Bits\<close>

lemma bor_add:
  assumes "0 \<le> x" "x < 2 ^ n" "0 \<le> m" "m * 2 ^ n < 2 ^ 30" "n \<le> 30"
  shows "bor x (m * 2 ^ n) = x + m * 2 ^ n" "bor (m * 2 ^ n) x = x + m * 2 ^ n"
proof -
  have "(2 :: int) ^ n \<le> 2 ^ 30" using assms by (intro power_increasing) auto
  then have "x < 2 ^ 31" "0 \<le> m * 2 ^ n" "m * 2 ^ n < 2 ^ 31" using assms(1-4) by simp_all
  then have "to_int32 x = x" "to_int32 (m * 2 ^ n) = m * 2 ^ n"
    using assms(1) by (intro to_int32_id; linarith)+
  then show "bor x (m * 2 ^ n) = x + m * 2 ^ n" "bor (m * 2 ^ n) x = x + m * 2 ^ n"
    using or_shifted_eq_add [OF assms(1,2), of m] by (simp_all add: bor_def add.commute)
qed

lemma sar_div: "0 \<le> x \<Longrightarrow> x < 2147483648 \<Longrightarrow> sar x k = x div 2 ^ k"
  by (simp add: sar_def)

lemma shr_div: "0 \<le> x \<Longrightarrow> x < 2147483648 \<Longrightarrow> shr x k = x div 2 ^ k"
  by (simp add: shr_def to_uint32_def)

lemma band_63: "0 \<le> x \<Longrightarrow> x < 2147483648 \<Longrightarrow> band x 63 = x mod 64"
  by (simp add: band_def js_arith)

lemma band_1023: "0 \<le> x \<Longrightarrow> x < 2147483648 \<Longrightarrow> band x 1023 = x mod 1024"
  using and_mask_mod [of x 10] by (simp add: band_def)

definition cp_bytes :: "int \<Rightarrow> int list" where
  "cp_bytes cp =
     (if cp < 128 then [cp]
      else if cp < 2048 then [192 + cp div 64, 128 + cp mod 64]
      else if cp < 65536 then [224 + cp div 4096, 128 + cp div 64 mod 64, 128 + cp mod 64]
      else [240 + cp div 262144, 128 + cp div 4096 mod 64, 128 + cp div 64 mod 64, 128 + cp mod 64])"

lemma bor_lead:
  "0 \<le> x \<Longrightarrow> x < 64 \<Longrightarrow> bor x 192 = 192 + x"
  "0 \<le> x \<Longrightarrow> x < 32 \<Longrightarrow> bor x 224 = 224 + x"
  "0 \<le> x \<Longrightarrow> x < 16 \<Longrightarrow> bor x 240 = 240 + x"
  "0 \<le> x \<Longrightarrow> x < 128 \<Longrightarrow> bor x 128 = 128 + x"
  using bor_add(1) [of x 6 3] bor_add(1) [of x 5 7] bor_add(1) [of x 4 15] bor_add(1) [of x 7 1] by simp_all

lemma div_bound:
  fixes x :: int
  assumes "x < c * d" "0 < d"
  shows "x div d < c"
proof (rule ccontr)
  assume "\<not> x div d < c"
  then have "c * d \<le> x div d * d" using assms(2) by (intro mult_right_mono) auto
  also have "\<dots> \<le> x" using assms(2) by (simp add: minus_mod_eq_div_mult [symmetric])
  finally show False using assms(1) by simp
qed

lemma utf8_emit_eq:
  assumes "0 \<le> cp" "cp < 1114112"
  shows "utf8_emit cp units bytes = Inr (let u = use_units (int (length (cp_bytes cp))) units in
     if units_left u then Some (u, bytes @ cp_bytes cp) else None)"
proof -
  have s: "sar cp 6 = cp div 64" "sar cp 12 = cp div 4096" "sar cp 18 = cp div 262144"
    using assms by (simp_all add: sar_div)
  have nn: "0 \<le> cp div 64" "0 \<le> cp div 4096" "0 \<le> cp div 262144"
    using assms by simp_all
  have b: "cp div 64 < 32" if "cp < 2048" using that div_bound [of cp 32 64] by simp
  have c: "cp div 4096 < 16" if "cp < 65536" using that div_bound [of cp 16 4096] by simp
  have d: "cp div 262144 < 8" "cp div 4096 < 2147483648" "cp div 64 < 2147483648"
    using assms div_bound [of cp 8 262144] div_bound [of cp 2147483648 4096] div_bound [of cp 2147483648 64]
    by simp_all
  have m: "x mod 64 < 128" for x :: int
    using pos_mod_bound [of 64 x] by linarith
  consider "cp < 128" | "128 \<le> cp" "cp < 2048" | "2048 \<le> cp" "cp < 65536" | "65536 \<le> cp"
    by linarith
  then show ?thesis
  proof cases
    case 1
    then show ?thesis by (simp add: utf8_emit_def cp_bytes_def Let_def)
  next
    case 2
    then show ?thesis
      using assms b nn m [of cp] by (simp add: utf8_emit_def cp_bytes_def Let_def band_63 bor_lead s)
  next
    case 3
    then show ?thesis
      using assms c d nn m [of cp] m [of "cp div 64"]
      by (simp add: utf8_emit_def cp_bytes_def Let_def band_63 bor_lead s)
  next
    case 4
    then show ?thesis
      using assms d nn m [of cp] m [of "cp div 64"] m [of "cp div 4096"]
      by (simp add: utf8_emit_def cp_bytes_def Let_def band_63 bor_lead s)
  qed
qed

section \<open>UTF-16 and UTF-8 of a code point\<close>

text \<open>The Unicode scalar values and the code units that stand for one.\<close>

definition scalar :: "int \<Rightarrow> bool" where
  "scalar cp \<longleftrightarrow> 0 \<le> cp \<and> cp < 1114112 \<and> \<not> (55296 \<le> cp \<and> cp \<le> 57343)"

definition utf16 :: "int \<Rightarrow> jsstring" where
  "utf16 cp = (if cp < 65536 then [word_of_int cp]
     else [word_of_int (55296 + (cp - 65536) div 1024), word_of_int (56320 + (cp - 65536) mod 1024)])"

lemma uint_u16: "0 \<le> n \<Longrightarrow> n < 65536 \<Longrightarrow> uint (word_of_int n :: code_unit) = n"
  by (simp add: uint_word_of_int)

lemma surrogate_bounds:
  fixes cp :: int
  assumes "65536 \<le> cp" "cp < 1114112"
  shows "0 \<le> (cp - 65536) div 1024" "(cp - 65536) div 1024 < 1024"
    "0 \<le> (cp - 65536) mod 1024" "(cp - 65536) mod 1024 < 1024"
  using assms div_bound [of "cp - 65536" 1024 1024] by simp_all

lemma bor_surrogates:
  "0 \<le> x \<Longrightarrow> x < 1024 \<Longrightarrow> bor x 55296 = 55296 + x"
  "0 \<le> x \<Longrightarrow> x < 1024 \<Longrightarrow> bor 56320 x = 56320 + x"
  "0 \<le> x \<Longrightarrow> x < 1024 \<Longrightarrow> 0 \<le> a \<Longrightarrow> a < 1024 \<Longrightarrow> bor (shl a 10) x = x + a * 1024"
  using bor_add [of x 10 54] bor_add [of x 10 55] bor_add [of x 10 a]
  by (simp_all add: shl_def)

lemma push_code_point_utf16:
  assumes "scalar cp"
  shows "map fromCharCode (push_code_point cp) = utf16 cp"
proof (cases "cp < 65536")
  case False
  then have b: "65536 \<le> cp" "cp < 1114112" using assms by (simp_all add: scalar_def)
  have "shr (cp - 65536) 10 = (cp - 65536) div 1024" "band (cp - 65536) 1023 = (cp - 65536) mod 1024"
    using b by (simp_all add: shr_div band_1023)
  moreover have "band ((cp - 65536) div 1024) 1023 = (cp - 65536) div 1024"
    using surrogate_bounds [OF b] by (simp add: band_1023)
  ultimately show ?thesis
    using False surrogate_bounds [OF b] by (simp add: push_code_point_def utf16_def bor_surrogates fromCharCode_def)
qed (simp add: push_code_point_def utf16_def fromCharCode_def)

lemma utf8_loop_code_point:
  assumes "scalar cp"
  shows "utf8_loop (utf16 cp @ s) units None bytes =
    (let u = use_units (int (length (cp_bytes cp))) units in
     if units_left u then utf8_loop s u None (bytes @ cp_bytes cp) else Inr bytes)"
proof (cases "cp < 65536")
  case True
  then have "uint (word_of_int cp :: code_unit) = cp" "(cp > 55295 \<and> cp < 57344) = False"
    using assms by (auto simp: scalar_def uint_u16)
  then show ?thesis
    using True assms
    by (simp only: utf16_def if_True append.simps utf8_loop.simps Let_def if_False option.case)
      (simp add: utf8_emit_eq scalar_def Let_def)
next
  case False
  then have b: "65536 \<le> cp" "cp < 1114112" using assms by (simp_all add: scalar_def)
  note sb = surrogate_bounds [OF b]
  let ?hi = "55296 + (cp - 65536) div 1024" and ?lo = "56320 + (cp - 65536) mod 1024"
  have u: "uint (word_of_int ?hi :: code_unit) = ?hi" "uint (word_of_int ?lo :: code_unit) = ?lo"
    using sb by (intro uint_u16; linarith)+
  have j: "bor (shl (?hi - 55296) 10) (?lo - 56320) + 65536 = cp"
    using bor_surrogates(3) [OF sb(3,4,1,2)] by simp
  have "utf8_loop (utf16 cp @ s) units None bytes = utf8_loop (word_of_int ?lo # s) units (Some ?hi) bytes"
    using False sb by (simp add: utf16_def u Let_def del: of_int_add)
  also have "\<dots> = bind_r (utf8_emit cp units bytes) (\<lambda>r. case r of None \<Rightarrow> Inr bytes
      | Some (units', bytes') \<Rightarrow> utf8_loop s units' None bytes')"
  proof -
    have "?lo > 55295" "?lo < 57344" "\<not> ?lo < 56320" using sb by linarith+
    then show ?thesis by (simp only: utf8_loop.simps u Let_def if_True if_False option.case j simp_thms)
  qed
  finally show ?thesis
    using b by (simp add: utf8_emit_eq Let_def)
qed

fun fits :: "int option \<Rightarrow> int list \<Rightarrow> int list" where
  "fits units [] = []"
| "fits units (cp # cps) =
     (let u = use_units (int (length (cp_bytes cp))) units in if units_left u then cp # fits u cps else [])"

lemma utf8_loop_code_points:
  assumes "\<forall>cp \<in> set cps. scalar cp"
  shows "utf8_loop (concat (map utf16 cps)) units None bytes =
    Inr (bytes @ concat (map cp_bytes (fits units cps)))"
  using assms by (induction units cps arbitrary: bytes rule: fits.induct) (simp_all add: utf8_loop_code_point Let_def)

lemma fits_None [simp]: "fits None cps = cps"
  by (induction cps) (simp_all add: use_units_def units_left_def)

lemma fits_all:
  "int (length (concat (map cp_bytes cps))) \<le> u \<Longrightarrow> fits (Some u) cps = cps"
  by (induction cps arbitrary: u) (auto simp: use_units_def units_left_def Let_def)

lemma and_high:
  fixes y :: int
  assumes "0 \<le> y" "y < 2 ^ n"
  shows "(a * 2 ^ n + y) AND (b * 2 ^ n) = (a AND b) * 2 ^ n"
proof -
  have "(take_bit n y OR push_bit n a) AND push_bit n b = push_bit n (a AND b)"
    by (rule bit_eqI) (auto simp: bit_simps)
  moreover have "take_bit n y = y" using assms by (simp add: take_bit_eq_mod)
  ultimately show ?thesis
    using or_shifted_eq_add(1) [OF assms, of a] by (simp add: push_bit_eq_mult add.commute)
qed

lemma nshl_val:
  assumes "0 \<le> a" "a * 2 ^ n < 1073741824"
  shows "nshl (Some a) n = Some (a * 2 ^ n)"
proof -
  have "a * 1 \<le> a * 2 ^ n" using assms(1) by (intro mult_left_mono) auto
  then have "a < 1073741824" using assms by linarith
  then have "to_int32 a = a" using assms(1) by simp
  moreover have "0 \<le> a * 2 ^ n" using assms(1) by simp
  then have "to_int32 (a * 2 ^ n) = a * 2 ^ n"
    using assms(2) by (intro to_int32_id) simp_all
  ultimately show ?thesis by (simp add: nshl_def num32_def)
qed

lemma nor_val:
  assumes "0 \<le> a" "a < 2 ^ n" "0 \<le> m" "m * 2 ^ n < 1073741824" "n \<le> 30"
  shows "nor (Some (m * 2 ^ n)) (Some a) = Some (m * 2 ^ n + a)"
  using bor_add(2) [of a n m] assms by (simp add: nor_def num32_def bor_def)

lemma is_cont_val: "0 \<le> y \<Longrightarrow> y < 64 \<Longrightarrow> is_cont (Some (128 + y))"
  using and_high [of y 6 2 3] by (simp add: is_cont_def nand_def num32_def)

lemma low_val: "0 \<le> y \<Longrightarrow> y < 64 \<Longrightarrow> nand (Some (128 + y)) (Some 63) = Some y"
  using mod_mult_self1 [of y 2 64] by (simp add: nand_def num32_def js_arith add.commute)

lemma lead_val:
  "0 \<le> a \<Longrightarrow> a < 32 \<Longrightarrow> nand (Some (192 + a)) (Some 31) = Some a"
  "0 \<le> a \<Longrightarrow> a < 16 \<Longrightarrow> nand (Some (224 + a)) (Some 15) = Some a"
  "0 \<le> a \<Longrightarrow> a < 16 \<Longrightarrow> nand (Some (240 + a)) (Some 15) = Some a"
  using mod_mult_self1 [of a 6 32] mod_mult_self1 [of a 14 16] mod_mult_self1 [of a 15 16]
  by (simp_all add: nand_def num32_def js_arith add.commute)

lemma join2: "0 \<le> a \<Longrightarrow> a < 32 \<Longrightarrow> 0 \<le> b \<Longrightarrow> b < 64 \<Longrightarrow> nor (nshl (Some a) 6) (Some b) = Some (a * 64 + b)"
  using nor_val [of b 6 a] by (simp add: nshl_val)

lemma join3:
  assumes "0 \<le> a" "a < 16" "0 \<le> b" "b < 64" "0 \<le> c" "c < 64"
  shows "nor (nor (nshl (Some a) 12) (nshl (Some b) 6)) (Some c) = Some (a * 4096 + b * 64 + c)"
  using assms nor_val [of "b * 64" 12 a] nor_val [of c 6 "a * 64 + b"]
  by (simp add: nshl_val algebra_simps)

lemma join4:
  assumes "0 \<le> a" "a < 16" "0 \<le> b" "b < 64" "0 \<le> c" "c < 64" "0 \<le> d" "d < 64"
  shows "nor (nor (nor (nshl (Some a) 18) (nshl (Some b) 12)) (nshl (Some c) 6)) (Some d) =
    Some (a * 262144 + b * 4096 + c * 64 + d)"
  using assms nor_val [of "b * 4096" 18 a] nor_val [of "c * 64" 12 "a * 64 + b"]
    nor_val [of d 6 "a * 4096 + b * 64 + c"]
  by (simp add: nshl_val algebra_simps)

lemma cp_digits:
  fixes cp :: int
  shows "cp div 64 * 64 + cp mod 64 = cp"
    and "cp div 4096 * 4096 + cp div 64 mod 64 * 64 + cp mod 64 = cp"
    and "cp div 262144 * 262144 + cp div 4096 mod 64 * 4096 + cp div 64 mod 64 * 64 + cp mod 64 = cp"
proof -
  have d: "cp div 4096 = cp div 64 div 64" "cp div 262144 = cp div 64 div 64 div 64"
    by (simp_all add: zdiv_zmult2_eq [symmetric])
  have m: "x div 64 * 64 + x mod 64 = x" for x :: int by simp
  show "cp div 64 * 64 + cp mod 64 = cp" by simp
  show "cp div 4096 * 4096 + cp div 64 mod 64 * 64 + cp mod 64 = cp"
    using m [of "cp div 64"] m [of cp] unfolding d by linarith
  show "cp div 262144 * 262144 + cp div 4096 mod 64 * 4096 + cp div 64 mod 64 * 64 + cp mod 64 = cp"
    using m [of "cp div 64"] m [of cp] m [of "cp div 64 div 64"] unfolding d by linarith
qed

lemma utf8_next_code_point:
  assumes "scalar cp" "i + int (length (cp_bytes cp)) \<le> endv"
    and g: "\<And>k. k < length (cp_bytes cp) \<Longrightarrow> bget h b (i + int k) = Some (cp_bytes cp ! k)"
  shows "utf8_next h b i endv = (Some cp, int (length (cp_bytes cp)))"
proof -
  have r: "0 \<le> cp" "cp < 1114112" "\<not> (55296 \<le> cp \<and> cp \<le> 57343)" using assms(1) by (simp_all add: scalar_def)
  have md: "0 \<le> x mod 64" "x mod 64 < 64" for x :: int by simp_all
  have nn: "0 \<le> cp div 64" "0 \<le> cp div 4096" "0 \<le> cp div 262144" using r by simp_all
  consider "cp < 128" | "128 \<le> cp" "cp < 2048" | "2048 \<le> cp" "cp < 65536" | "65536 \<le> cp"
    by linarith
  then show ?thesis
  proof cases
    case 1
    then show ?thesis
      using g [of 0] assms(2) by (simp add: cp_bytes_def utf8_next_def seq_length_def Let_def)
  next
    case 2
    have a: "cp div 64 < 32" using 2 div_bound [of cp 32 64] by simp
    have gs: "bget h b i = Some (192 + cp div 64)" "bget h b (i + 1) = Some (128 + cp mod 64)"
      using g [of 0] g [of 1] 2 by (simp_all add: cp_bytes_def)
    then have "seq_length (bget h b i) = 2" using a nn by (simp add: seq_length_def)
    then show ?thesis
      using 2 assms(2) a nn
      by (simp add: utf8_next_def Let_def gs is_cont_val [OF md] low_val [OF md] lead_val join2 cp_digits)
        (simp add: cp_bytes_def)
  next
    case 3
    have a: "cp div 4096 < 16" using 3 div_bound [of cp 16 4096] by simp
    have gs: "bget h b i = Some (224 + cp div 4096)" "bget h b (i + 1) = Some (128 + cp div 64 mod 64)"
      "bget h b (i + 2) = Some (128 + cp mod 64)"
      using g [of 0] g [of 1] g [of 2] 3 by (simp_all add: cp_bytes_def)
    then have "seq_length (bget h b i) = 3" using a nn by (simp add: seq_length_def)
    then show ?thesis
      using 3 assms(2) a nn r(3)
      by (simp add: utf8_next_def Let_def gs is_cont_val [OF md] low_val [OF md] lead_val join3 cp_digits)
        (auto simp add: cp_bytes_def)
  next
    case 4
    have a: "cp div 262144 < 16" using r div_bound [of cp 16 262144] by simp
    have gs: "bget h b i = Some (240 + cp div 262144)" "bget h b (i + 1) = Some (128 + cp div 4096 mod 64)"
      "bget h b (i + 2) = Some (128 + cp div 64 mod 64)" "bget h b (i + 3) = Some (128 + cp mod 64)"
      using g [of 0] g [of 1] g [of 2] g [of 3] 4 by (simp_all add: cp_bytes_def)
    then have "seq_length (bget h b i) = 4" using a nn by (simp add: seq_length_def)
    then show ?thesis
      using 4 assms(2) a nn r(2)
      by (simp add: utf8_next_def Let_def gs is_cont_val [OF md] low_val [OF md] lead_val join4 cp_digits)
        (simp add: cp_bytes_def)
  qed
qed

lemma cp_bytes_range:
  assumes "scalar cp" "x \<in> set (cp_bytes cp)"
  shows "0 \<le> x \<and> x < 256"
proof -
  have r: "0 \<le> cp" "cp < 1114112" using assms(1) by (simp_all add: scalar_def)
  have a: "cp < 2048 \<Longrightarrow> cp div 64 < 32" "cp < 65536 \<Longrightarrow> cp div 4096 < 16" "cp div 262144 < 16"
    using r div_bound [of cp 32 64] div_bound [of cp 16 4096] div_bound [of cp 16 262144] by simp_all
  have m: "0 \<le> y mod 64" "y mod 64 < 128" for y :: int
    using pos_mod_bound [of 64 y] pos_mod_sign [of 64 y] by linarith+
  have "(cp < 128 \<and> x = cp) \<or> (cp < 2048 \<and> x = 192 + cp div 64) \<or> (cp < 65536 \<and> x = 224 + cp div 4096)
      \<or> x = 240 + cp div 262144 \<or> (\<exists>y. x = 128 + y mod 64)"
    using assms(2) by (auto simp: cp_bytes_def split: if_splits)
  moreover have "0 \<le> cp div 64" "0 \<le> cp div 4096" "0 \<le> cp div 262144" using r by simp_all
  ultimately show ?thesis
  proof (elim disjE exE conjE)
    fix y assume "x = 128 + y mod 64"
    then show ?thesis using m [of y] by linarith
  qed (use r a in linarith)+
qed

abbreviation to_bytes :: "int list \<Rightarrow> byte list" where
  "to_bytes \<equiv> map word_of_int"

lemma utf8_slice_loop_code_points:
  assumes "buf_ok h b" "\<forall>cp \<in> set cps. scalar cp" "e \<le> b_len b"
    and "take (e - i) (drop i (contents h b)) = to_bytes (concat (map cp_bytes cps))" "i \<le> e"
  shows "utf8_slice_loop h b (int i) (int e) res = res @ concat (map push_code_point cps)"
  using assms
proof (induction cps arbitrary: i res)
  case Nil
  then have "i = e" by auto
  then show ?case by (subst utf8_slice_loop.simps) simp
next
  case (Cons cp cps)
  let ?n = "length (cp_bytes cp)"
  let ?c = "contents h b"
  have sc: "scalar cp" using Cons.prems by simp
  have pos: "0 < ?n" by (simp add: cp_bytes_def)
  have t: "take (e - i) (drop i ?c) = to_bytes (cp_bytes cp) @ to_bytes (concat (map cp_bytes cps))"
    using Cons.prems(4) by simp
  have "length (take (e - i) (drop i ?c)) = e - i" using Cons.prems(1,3) by simp
  then have len: "e - i = ?n + length (concat (map cp_bytes cps))"
    unfolding t by simp
  have g: "bget h b (int i + int k) = Some (cp_bytes cp ! k)" if "k < ?n" for k
  proof -
    have "?c ! (i + k) = take (e - i) (drop i ?c) ! k" using that len Cons.prems(1,3,5) by simp
    also have "\<dots> = word_of_int (cp_bytes cp ! k)" unfolding t using that by (simp add: nth_append)
    finally have "uint (?c ! (i + k)) = cp_bytes cp ! k"
      using cp_bytes_range [OF sc nth_mem [OF that]] by (simp add: uint_word_of_int)
    then show ?thesis
      using that len Cons.prems(1,3,5) by (simp add: bget_contents nat_add_distrib)
  qed
  have nx: "utf8_next h b (int i) (int e) = (Some cp, int ?n)"
    using len Cons.prems(5) by (intro utf8_next_code_point [OF sc _ g]) auto
  have "take (e - (i + ?n)) (drop (i + ?n) ?c) = drop ?n (take (e - i) (drop i ?c))"
    by (simp add: drop_take add.commute)
  also have "\<dots> = to_bytes (concat (map cp_bytes cps))" unfolding t by simp
  finally have "utf8_slice_loop h b (int (i + ?n)) (int e) (res @ push_code_point cp) =
      (res @ push_code_point cp) @ concat (map push_code_point cps)"
    using Cons.prems(1,2,3,5) len by (intro Cons.IH) auto
  moreover have "int i < int e" using len pos by linarith
  ultimately show ?case
    by (subst utf8_slice_loop.simps) (simp add: nx)
qed

lemma decode_chunks_eq: "decode_chunks cs i res = res @ map fromCharCode (drop i cs)"
proof (induction cs i res rule: decode_chunks.induct)
  case (1 cs i res)
  show ?case
  proof (cases "i < length cs")
    case True
    have "drop i cs = take MAX_ARGUMENTS_LENGTH (drop i cs) @ drop (i + MAX_ARGUMENTS_LENGTH) cs"
      by (metis add.commute append_take_drop_id drop_drop)
    then have "map fromCharCode (drop i cs) =
        map fromCharCode (take MAX_ARGUMENTS_LENGTH (drop i cs)) @ map fromCharCode (drop (i + MAX_ARGUMENTS_LENGTH) cs)"
      by (metis map_append)
    then show ?thesis using 1 True by (simp add: decode_chunks.simps [of cs i])
  qed (simp add: decode_chunks.simps [of cs i])
qed

lemma decodeCodePointsArray_eq [simp]: "decodeCodePointsArray cs = map fromCharCode cs"
  by (simp add: decodeCodePointsArray_def decode_chunks_eq)

lemma utf8Slice_code_points:
  assumes "buf_ok h b" "\<forall>cp \<in> set cps. scalar cp"
    and "take (e - i) (drop i (contents h b)) = to_bytes (concat (map cp_bytes cps))" "i \<le> e" "e \<le> b_len b"
  shows "utf8Slice h b (int i) (int e) = concat (map utf16 cps)"
proof -
  have "concat (map utf16 cps) = map fromCharCode (concat (map push_code_point cps))"
    using assms(2) by (induction cps) (simp_all add: push_code_point_utf16)
  then show ?thesis
    using assms utf8_slice_loop_code_points [OF assms(1,2,5,3,4), of "[]"]
    by (simp add: utf8Slice_def min_absorb2 del: map_concat)
qed

section \<open>Well-formed strings\<close>

definition is_lead :: "code_unit \<Rightarrow> bool" where
  "is_lead c \<longleftrightarrow> 55296 \<le> uint c \<and> uint c < 56320"

definition is_trail :: "code_unit \<Rightarrow> bool" where
  "is_trail c \<longleftrightarrow> 56320 \<le> uint c \<and> uint c < 57344"

fun well_formed :: "jsstring \<Rightarrow> bool" where
  "well_formed [] = True"
| "well_formed [c] = (\<not> is_lead c \<and> \<not> is_trail c)"
| "well_formed (c # d # s) =
     (if is_lead c then is_trail d \<and> well_formed s else \<not> is_trail c \<and> well_formed (d # s))"

lemma uint_bounded_u16: "0 \<le> uint (c :: code_unit) \<and> uint c < 65536"
  using uint_lt2p [of c] by simp

lemma utf16_unit:
  assumes "\<not> is_lead c" "\<not> is_trail c"
  shows "scalar (uint c)" "utf16 (uint c) = [c]"
proof -
  have "0 \<le> uint c" "uint c < 65536" using uint_bounded_u16 [of c] by blast+
  then show "scalar (uint c)"
    using assms unfolding scalar_def is_lead_def is_trail_def by linarith
  show "utf16 (uint c) = [c]" using \<open>uint c < 65536\<close> by (simp add: utf16_def)
qed

lemma utf16_pair:
  assumes "is_lead c" "is_trail d"
  shows "\<exists>cp. scalar cp \<and> utf16 cp = [c, d]"
proof (intro exI conjI)
  let ?a = "uint c - 55296" and ?b = "uint d - 56320"
  have r: "0 \<le> ?a" "?a < 1024" "0 \<le> ?b" "?b < 1024"
    using assms by (auto simp: is_lead_def is_trail_def)
  show "scalar (65536 + ?a * 1024 + ?b)" using r by (simp add: scalar_def)
  have "(?b + ?a * 1024) div 1024 = ?a" "(?b + ?a * 1024) mod 1024 = ?b"
    using r by (simp_all only: div_mult_self1 mod_mult_self1 div_pos_pos_trivial mod_pos_pos_trivial)
  moreover have "65536 + ?a * 1024 + ?b - 65536 = ?b + ?a * 1024" by simp
  ultimately have "utf16 (65536 + ?a * 1024 + ?b) = [word_of_int (55296 + ?a), word_of_int (56320 + ?b)]"
    using r unfolding utf16_def by (simp only:) simp
  then show "utf16 (65536 + ?a * 1024 + ?b) = [c, d]" by simp
qed

lemma well_formed_code_points:
  "well_formed s \<Longrightarrow> \<exists>cps. (\<forall>cp \<in> set cps. scalar cp) \<and> s = concat (map utf16 cps)"
proof (induction s rule: well_formed.induct)
  case 1
  show ?case by (intro exI [of _ "[]"]) simp
next
  case (2 c)
  then show ?case by (intro exI [of _ "[uint c]"]) (simp add: utf16_unit)
next
  case (3 c d s)
  show ?case
  proof (cases "is_lead c")
    case True
    then obtain cps where "\<forall>cp \<in> set cps. scalar cp" "s = concat (map utf16 cps)" using 3 by auto
    moreover obtain cp where "scalar cp" "utf16 cp = [c, d]" using utf16_pair [OF True, of d] 3(3) True by auto
    ultimately show ?thesis by (intro exI [of _ "cp # cps"]) simp
  next
    case False
    then obtain cps where "\<forall>cp \<in> set cps. scalar cp" "d # s = concat (map utf16 cps)" using 3 by auto
    moreover have "\<not> is_trail c" using 3(3) False by simp
    ultimately show ?thesis
      using utf16_unit [OF False] by (intro exI [of _ "uint c # cps"]) simp
  qed
qed

section \<open>Stores and reads of whole ranges\<close>

lemma blit_loop_eq:
  fixes n :: nat
  assumes "i \<le> length src" "off + i \<le> b_len dst"
  defines "m \<equiv> min n (min (length src - i) (b_len dst - off - i))"
  shows "blit_loop h src dst (int off) (int i) n =
    (int (i + m), store_all h dst (int (off + i)) (map Some (take m (drop i src))))"
  using assms(1,2) unfolding m_def
proof (induction n arbitrary: h i)
  case (Suc n)
  show ?case
  proof (cases "off + i = b_len dst \<or> i = length src")
    case True
    then have "b_len dst - off - i = 0 \<or> length src - i = 0" by auto
    moreover have "int i + int off \<ge> int (b_len dst) \<or> int i \<ge> int (length src)" using True by auto
    ultimately show ?thesis by auto
  next
    case False
    then have lt: "off + i < b_len dst" "i < length src" using Suc.prems by auto
    let ?m = "min n (min (length src - Suc i) (b_len dst - off - Suc i))"
    have m: "min (Suc n) (min (length src - i) (b_len dst - off - i)) = Suc ?m" using lt by linarith
    have "drop i src = src ! i # drop (Suc i) src" using lt by (simp add: Cons_nth_drop_Suc)
    then have "take (Suc ?m) (drop i src) = src ! i # take ?m (drop (Suc i) src)" by simp
    moreover have "blit_loop h src dst (int off) (int i) (Suc n) =
        blit_loop (bset h dst (int (off + i)) (Some (src ! i))) src dst (int off) (int (Suc i)) n"
      using lt by (simp add: add.commute)
    moreover have "int (off + i) + 1 = int (off + Suc i)" by simp
    ultimately show ?thesis
      unfolding m using Suc.IH [of "Suc i" "bset h dst (int (off + i)) (Some (src ! i))"] lt
      by (simp add: ac_simps del: blit_loop.simps)
  qed
qed simp

lemma blitBuffer_contents:
  fixes n :: nat and src :: "int list"
  assumes "buf_ok h dst" "off \<le> b_len dst"
  defines "m \<equiv> min n (min (length src) (b_len dst - off))"
  shows "\<exists>h'. blitBuffer h src dst (int off) (int n) = (int m, h') \<and> buf_ok h' dst
    \<and> contents h' dst = overwrite off (to_bytes (take m src)) (contents h dst)"
proof -
  have "off + length (map Some (take m src)) \<le> b_len dst" using assms(2) unfolding m_def by auto
  from contents_store_all [OF assms(1) this] show ?thesis
    using blit_loop_eq [of 0 src off dst h n] assms(1,2)
    by (auto simp: blitBuffer_def m_def comp_def)
qed

lemma range_int_eq: "range_int (int i) (int e) = map (\<lambda>k. int (i + k)) [0..<e - i]"
proof -
  have "nat (int e - int i) = e - i" by linarith
  then show ?thesis by (simp only: range_int_def of_nat_add)
qed

lemma map_bget_interval:
  assumes "buf_ok h b" "e \<le> b_len b"
  shows "map (bget h b) (range_int (int i) (int e)) = map (Some \<circ> uint) (take (e - i) (drop i (contents h b)))"
proof (rule nth_equalityI)
  show "length (map (bget h b) (range_int (int i) (int e))) =
      length (map (Some \<circ> uint) (take (e - i) (drop i (contents h b))))"
    using assms by (simp add: range_int_eq)
  fix k assume "k < length (map (bget h b) (range_int (int i) (int e)))"
  then have k: "k < e - i" by (simp add: range_int_eq)
  then have "bget h b (int (i + k)) = Some (uint (contents h b ! (i + k)))"
    using assms by (simp add: bget_contents del: of_nat_add)
  then show "map (bget h b) (range_int (int i) (int e)) ! k =
      map (Some \<circ> uint) (take (e - i) (drop i (contents h b))) ! k"
    using k assms by (simp add: range_int_eq del: of_nat_add)
qed

lemma latin1Slice_eq:
  assumes "buf_ok h b" "e \<le> b_len b"
  shows "latin1Slice h b (int i) (int e) = map (word_of_int \<circ> uint) (take (e - i) (drop i (contents h b)))"
proof -
  have "latin1Slice h b (int i) (int e) = map char_of_num (map (bget h b) (range_int (int i) (int e)))"
    using assms(2) by (simp add: latin1Slice_def)
  then show ?thesis
    unfolding map_bget_interval [OF assms] by (simp add: char_of_num_def fromCharCode_def comp_def)
qed

lemma asciiSlice_eq:
  assumes "buf_ok h b" "e \<le> b_len b"
  shows "asciiSlice h b (int i) (int e) =
    map (\<lambda>x. word_of_int (uint x mod 128)) (take (e - i) (drop i (contents h b)))"
proof -
  have "asciiSlice h b (int i) (int e) =
      map (\<lambda>x. char_of_num (nand x (Some 127))) (map (bget h b) (range_int (int i) (int e)))"
    using assms(2) by (simp add: asciiSlice_def)
  then show ?thesis
    unfolding map_bget_interval [OF assms]
    by (simp add: char_of_num_def fromCharCode_def comp_def nand_def num32_def js_arith)
qed

section \<open>Hexadecimal\<close>

definition hex_text :: "byte list \<Rightarrow> jsstring" where
  "hex_text bs = concat (map (toHex \<circ> uint) bs)"

lemma hex_out_eq: "hex_out (map (Some \<circ> uint) bs) = Inr (hex_text bs)"
  by (induction bs) (simp_all add: hex_text_def)

lemma hexSlice_eq:
  assumes "buf_ok h b" "0 < e" "e \<le> b_len b"
  shows "hexSlice h b (int i) (int e) = Inr (hex_text (take (e - i) (drop i (contents h b))))"
  using assms map_bget_interval [OF assms(1,3), of i] by (simp add: hexSlice_def hex_out_eq)

lemma length_hex_text: "length (hex_text bs) = 2 * length bs"
  by (induction bs) (simp_all add: hex_text_def toHex_def)

lemma digit16_cases:
  fixes d :: int
  assumes "0 \<le> d" "d < 16"
  shows "d \<in> {0, 1, 2, 3, 4, 5, 6, 7, 8, 9, 10, 11, 12, 13, 14, 15}"
  using assms unfolding insert_iff empty_iff by presburger

lemma hex_char_facts:
  assumes "0 \<le> d" "d < 16"
  shows "hex_digit (hex_char d) = Some d" "\<not> js_space (hex_char d)" "hex_char d \<notin> {43, 45, 120, 88}"
proof -
  have "(hex_digit (hex_char d) = Some d \<and> \<not> js_space (hex_char d)) \<and> hex_char d \<notin> {43, 45, 120, 88}"
    using digit16_cases [OF assms]
    by (elim insertE emptyE) (simp_all add: hex_char_def hex_digit_def js_space_def)
  then show "hex_digit (hex_char d) = Some d" "\<not> js_space (hex_char d)" "hex_char d \<notin> {43, 45, 120, 88}"
    by blast+
qed

lemma parseInt16_toHex: "parseInt16 (toHex (uint (x :: byte))) = Some (uint x)"
proof -
  have "uint x < 256" "0 \<le> uint x" by simp_all
  then have d: "0 \<le> uint x div 16" "uint x div 16 < 16" "0 \<le> uint x mod 16" "uint x mod 16 < 16"
    using div_bound [of "uint x" 16 16] pos_imp_zdiv_nonneg_iff [of 16 "uint x"] by simp_all
  have "toHex (uint x) = [hex_char (uint x div 16), hex_char (uint x mod 16)]"
  proof (cases "uint x < 16")
    case True
    then show ?thesis by (simp add: toHex_def hex_char_def)
  qed (simp add: toHex_def)
  then show ?thesis
    using hex_char_facts [OF d(1,2)] hex_char_facts [OF d(3,4)] by (simp add: parseInt16_def)
qed

lemma hex_text_pair:
  assumes "k < length bs"
  shows "take 2 (drop (2 * k) (hex_text bs)) = toHex (uint (bs ! k))"
  using assms
proof (induction bs arbitrary: k)
  case (Cons x bs)
  have l: "length (toHex (uint x)) = 2" by (simp add: toHex_def)
  show ?case
  proof (cases k)
    case 0
    then show ?thesis using l by (simp add: hex_text_def)
  next
    case (Suc j)
    then have "drop (2 * k) (hex_text (x # bs)) = drop (2 * j) (hex_text bs)"
      using l by (simp add: hex_text_def)
    then show ?thesis using Cons Suc by simp
  qed
qed simp

lemma hex_loop_text:
  assumes "i + n \<le> length bs"
  shows "hex_loop h b (hex_text bs) off (int i) n =
    (int (i + n), store_all h b (off + int i) (map (Some \<circ> uint) (take n (drop i bs))))"
  using assms
proof (induction n arbitrary: h i)
  case (Suc n)
  then have i: "i < length bs" by simp
  have "nat (2 * int i + 2 - 2 * int i) = 2" "nat (2 * int i) = 2 * i" by simp_all
  then have "str_slice (hex_text bs) (2 * int i) (2 * int i + 2) = toHex (uint (bs ! i))"
    unfolding str_slice_def using hex_text_pair [OF i] by simp
  then have "hex_loop h b (hex_text bs) off (int i) (Suc n) =
      hex_loop (bset h b (off + int i) (Some (uint (bs ! i)))) b (hex_text bs) off (int (Suc i)) n"
    by (simp add: parseInt16_toHex add.commute)
  moreover have "take (Suc n) (drop i bs) = bs ! i # take n (drop (Suc i) bs)"
    using i by (simp add: Cons_nth_drop_Suc [symmetric])
  moreover have "off + int i + 1 = off + int (Suc i)" by simp
  ultimately show ?case using Suc.IH [of "Suc i"] Suc.prems by (simp add: ac_simps del: hex_loop.simps)
qed simp

section \<open>UTF-16LE\<close>

definition unit_bytes :: "code_unit \<Rightarrow> int list" where
  "unit_bytes c = [uint c mod 256, uint c div 256]"

lemma utf16leToBytes_eq:
  "2 * int (length s) \<le> units \<Longrightarrow> utf16leToBytes s units = concat (map unit_bytes s)"
proof (induction s arbitrary: units)
  case (Cons c s)
  have "uint c < 65536" "0 \<le> uint c" using uint_bounded_u16 [of c] by blast+
  then have "sar (uint c) 8 = uint c div 2 ^ 8" by (intro sar_div) linarith+
  then show ?case using Cons by (simp add: unit_bytes_def)
qed simp

lemma length_unit_bytes: "length (concat (map unit_bytes s)) = 2 * length s"
  by (induction s) (simp_all add: unit_bytes_def)

lemma ucs2_loop_eq:
  assumes "buf_ok h b" "drop i (contents h b) = to_bytes (concat (map unit_bytes s))" "i \<le> b_len b"
  shows "ucs2_loop h b (int i) = s"
  using assms
proof (induction s arbitrary: i)
  case Nil
  then have "int i \<ge> int (b_len b)" by simp
  then show ?case by (subst ucs2_loop.simps) simp
next
  case (Cons c s)
  have u: "0 \<le> uint c" "uint c < 65536" using uint_bounded_u16 [of c] by blast+
  then have d: "0 \<le> uint c div 256" "uint c div 256 < 256" using div_bound [of "uint c" 256 256] pos_imp_zdiv_nonneg_iff [of 256 "uint c"] by simp_all
  have e: "drop i (contents h b) = word_of_int (uint c mod 256) # word_of_int (uint c div 256) #
      to_bytes (concat (map unit_bytes s))"
    using Cons.prems(2) by (simp add: unit_bytes_def [of c])
  have "length (drop i (contents h b)) = b_len b - i" using Cons.prems(1) by simp
  then have len: "i + 2 \<le> b_len b" unfolding e by simp
  have n: "contents h b ! (i + k) = drop i (contents h b) ! k" for k using Cons.prems(1) len by simp
  have "bget h b (int i) = Some (uint c mod 256)" "bget h b (int i + 1) = Some (uint c div 256)"
    using Cons.prems(1) len d n [of 0] n [of 1] unfolding e
    by (simp_all add: bget_contents nat_add_distrib uint_word_of_int)
  moreover have "char_of_num (Some (uint c mod 256 + uint c div 256 * 256)) = c"
    by (simp add: char_of_num_def fromCharCode_def)
  moreover have "drop (i + 2) (contents h b) = drop 2 (drop i (contents h b))" by (simp add: add.commute)
  then have "ucs2_loop h b (int (i + 2)) = s"
    unfolding e using len Cons.prems(1) by (intro Cons.IH) simp_all
  then have "ucs2_loop h b (int i + 2) = s" by (simp add: add.commute)
  ultimately show ?case
    using len by (subst ucs2_loop.simps) (simp add: nadd_def nmul_def)
qed

section \<open>Lower-case hexadecimal texts\<close>

definition lower_hex :: "code_unit \<Rightarrow> bool" where
  "lower_hex c \<longleftrightarrow> (48 \<le> uint c \<and> uint c \<le> 57) \<or> (97 \<le> uint c \<and> uint c \<le> 102)"

lemma lower_hex_char:
  assumes "lower_hex c"
  shows "\<exists>d. 0 \<le> d \<and> d < 16 \<and> c = hex_char d"
proof (cases "uint c \<le> 57")
  case True
  then show ?thesis using assms
    by (intro exI [of _ "uint c - 48"]) (auto simp: lower_hex_def hex_char_def)
next
  case False
  then show ?thesis using assms
    by (intro exI [of _ "uint c - 87"]) (auto simp: lower_hex_def hex_char_def)
qed

lemma toHex_pair:
  assumes "0 \<le> a" "a < 16" "0 \<le> d" "d < 16"
  shows "toHex (uint (word_of_int (16 * a + d) :: byte)) = [hex_char a, hex_char d]"
proof -
  have "uint (word_of_int (16 * a + d) :: byte) = 16 * a + d"
    using assms by (simp only: uint_byte_of_int) simp
  moreover have "(16 * a + d) div 16 = a" "(16 * a + d) mod 16 = d" using assms by simp_all
  moreover have "hex_char 0 = 48" by (simp add: hex_char_def)
  ultimately show ?thesis using assms by (cases "a = 0") (auto simp: toHex_def)
qed

lemma lower_hex_text:
  assumes "list_all lower_hex s" "even (length s)"
  shows "\<exists>bs. s = hex_text bs"
  using assms
proof (induction s rule: induct_list012)
  case 1
  show ?case by (intro exI [of _ "[]"]) (simp add: hex_text_def)
next
  case (3 c d s)
  then obtain bs where bs: "s = hex_text bs" by auto
  obtain a x where "c = hex_char a" "d = hex_char x" "0 \<le> a" "a < 16" "0 \<le> x" "x < 16"
    using 3 lower_hex_char [of c] lower_hex_char [of d] by auto
  then have "c # d # s = hex_text (word_of_int (16 * a + x) # bs)"
    using bs toHex_pair [of a x] by (simp add: hex_text_def)
  then show ?case by blast
qed simp

end
