(* ===== verification/Buffer_Api.thy ===== *)
theory Buffer_Api
  imports Complex_Main Buffer_Text
begin

text \<open>
  The overloaded entry points of the \<open>Buffer\<close> module that choose an encoding or a kind of
  argument: \<open>isEncoding\<close>, \<open>byteLength\<close>, \<open>write\<close>, \<open>toString\<close>, \<open>inspect\<close>, \<open>from\<close> and its helpers, the
  constructor, \<open>alloc\<close> with a fill value, \<open>fill\<close>, \<open>indexOf\<close>, \<open>lastIndexOf\<close> and \<open>includes\<close>.  The dynamic
  types an argument may have are datatypes, one constructor for each type the code tests for.

  The locale \<open>text_codec\<close> states what the encodings promise; inside it \<open>Buffer.from\<close> followed by
  \<open>toString\<close> is shown to give the string back, and it is interpreted on the arms of the switches of
  \<open>byteLength\<close>, \<open>write\<close> and \<open>toString\<close>.  The search routines are shown to return the first and the last
  occurrence.
\<close>

section \<open>Encodings\<close>

datatype encoding = Hex | Utf8 | Ascii | Latin1 | Base64 | Ucs2

text \<open>The cases of the switches over an encoding name.\<close>

definition encoding_of :: "jsstring \<Rightarrow> encoding option" where
  "encoding_of s =
     (if s = jstr ''hex'' then Some Hex
      else if s = jstr ''utf8'' \<or> s = jstr ''utf-8'' then Some Utf8
      else if s = jstr ''ascii'' then Some Ascii
      else if s = jstr ''latin1'' \<or> s = jstr ''binary'' then Some Latin1
      else if s = jstr ''base64'' then Some Base64
      else if s = jstr ''ucs2'' \<or> s = jstr ''ucs-2'' \<or> s = jstr ''utf16le'' \<or> s = jstr ''utf-16le'' then Some Ucs2
      else None)"

definition isEncoding :: "jsstring \<Rightarrow> bool" where
  "isEncoding s = (encoding_of (toLowerCase s) \<noteq> None)"

text \<open>The loop around each switch: the name as given, then its lower-case form.\<close>

definition resolve :: "jsstring \<Rightarrow> encoding option" where
  "resolve s = (case encoding_of s of Some e \<Rightarrow> Some e | None \<Rightarrow> encoding_of (toLowerCase s))"

definition byteLength_as :: "base64js \<Rightarrow> encoding \<Rightarrow> jsstring \<Rightarrow> int res" where
  "byteLength_as b64 e s =
     (case e of
        Ascii \<Rightarrow> Inr (int (length s))
      | Latin1 \<Rightarrow> Inr (int (length s))
      | Utf8 \<Rightarrow> bind_r (utf8ToBytes s None) (\<lambda>bs. Inr (int (length bs)))
      | Ucs2 \<Rightarrow> Inr (int (length s) * 2)
      | Hex \<Rightarrow> Inr (shr (int (length s)) 1)
      | Base64 \<Rightarrow> bind_r (base64ToBytes b64 s) (\<lambda>bs. Inr (int (length bs))))"

definition byteLength :: "base64js \<Rightarrow> jsstring \<Rightarrow> jsstring option \<Rightarrow> int res" where
  "byteLength b64 s enc =
     (if s = [] then Inr 0
      else case enc of
        None \<Rightarrow> byteLength_as b64 Utf8 s
      | Some name \<Rightarrow> (case resolve name of
          None \<Rightarrow> byteLength_as b64 Utf8 s
        | Some e \<Rightarrow> byteLength_as b64 e s))"

section \<open>Writing and reading text\<close>

definition write_as :: "base64js \<Rightarrow> encoding \<Rightarrow> heap \<Rightarrow> buf \<Rightarrow> jsstring \<Rightarrow> int \<Rightarrow> int \<Rightarrow> (int \<times> heap) res" where
  "write_as b64 e h b s offset len =
     (case e of
        Hex \<Rightarrow> hexWrite h b s offset len
      | Utf8 \<Rightarrow> utf8Write h b s offset len
      | Ascii \<Rightarrow> asciiWrite h b s offset len
      | Latin1 \<Rightarrow> latin1Write h b s offset len
      | Base64 \<Rightarrow> base64Write b64 h b s offset len
      | Ucs2 \<Rightarrow> ucs2Write h b s offset len)"

text \<open>
  The argument shapes of \<open>write(string[, offset[, length]][, encoding])\<close>.  A third argument that is
  not a number is taken for the encoding, and the fourth is then ignored.
\<close>

datatype write_len = LNum int | LEnc jsstring | LUndef

datatype write_args = WPlain | WEncoding jsstring | WAt int write_len "jsstring option"

definition buf_write :: "base64js \<Rightarrow> heap \<Rightarrow> buf \<Rightarrow> jsstring \<Rightarrow> write_args \<Rightarrow> (int \<times> heap) res" where
  "buf_write b64 h b s args =
     (let (offset, len0, enc0) =
        (case args of
           WPlain \<Rightarrow> (0, Some (int (b_len b)), Some (jstr ''utf8''))
         | WEncoding e \<Rightarrow> (0, Some (int (b_len b)), Some e)
         | WAt off (LNum n) enc \<Rightarrow>
             (to_int32 off, Some (to_int32 n), case enc of None \<Rightarrow> Some (jstr ''utf8'') | Some e \<Rightarrow> Some e)
         | WAt off (LEnc e) enc \<Rightarrow> (to_int32 off, None, Some e)
         | WAt off LUndef enc \<Rightarrow> (to_int32 off, None, None));
        remaining = int (b_len b) - offset;
        len = (case len0 of None \<Rightarrow> remaining | Some n \<Rightarrow> if n > remaining then remaining else n)
      in if (s \<noteq> [] \<and> (len < 0 \<or> offset < 0)) \<or> offset > int (b_len b)
         then Inl (RangeError ''Attempt to write outside buffer bounds'')
         else let name = (case enc0 of None \<Rightarrow> jstr ''utf8'' | Some e \<Rightarrow> if e = [] then jstr ''utf8'' else e)
              in case resolve name of
                   None \<Rightarrow> Inl (TypeError ''Unknown encoding: '')
                 | Some e \<Rightarrow> write_as b64 e h b s offset len)"

definition slice_as :: "base64js \<Rightarrow> encoding \<Rightarrow> heap \<Rightarrow> buf \<Rightarrow> int \<Rightarrow> int \<Rightarrow> jsstring res" where
  "slice_as b64 e h b start endv =
     (case e of
        Hex \<Rightarrow> hexSlice h b start endv
      | Utf8 \<Rightarrow> Inr (utf8Slice h b start endv)
      | Ascii \<Rightarrow> Inr (asciiSlice h b start endv)
      | Latin1 \<Rightarrow> Inr (latin1Slice h b start endv)
      | Base64 \<Rightarrow> base64Slice b64 h b start endv
      | Ucs2 \<Rightarrow> utf16leSlice h b start endv)"

definition slowToString ::
  "base64js \<Rightarrow> heap \<Rightarrow> buf \<Rightarrow> jsstring option \<Rightarrow> int option \<Rightarrow> int option \<Rightarrow> jsstring res" where
  "slowToString b64 h b enc start0 end0 =
     (let len = int (b_len b);
          start1 = (case start0 of None \<Rightarrow> 0 | Some s \<Rightarrow> if s < 0 then 0 else s);
          end1 = (case end0 of None \<Rightarrow> len | Some e \<Rightarrow> if e > len then len else e)
      in if start1 > len then Inr []
         else if end1 \<le> 0 then Inr []
         else let endv = to_uint32 end1; start = to_uint32 start1
              in if endv \<le> start then Inr []
                 else let name = (case enc of None \<Rightarrow> jstr ''utf8'' | Some e \<Rightarrow> if e = [] then jstr ''utf8'' else e)
                      in case resolve name of
                           None \<Rightarrow> Inl (TypeError ''Unknown encoding: '')
                         | Some e \<Rightarrow> slice_as b64 e h b start endv)"

text \<open>\<open>toString()\<close> without arguments is the UTF-8 text of the whole buffer.\<close>

definition toString ::
  "base64js \<Rightarrow> heap \<Rightarrow> buf \<Rightarrow> (jsstring option \<times> int option \<times> int option) option \<Rightarrow> jsstring res" where
  "toString b64 h b args =
     (let len = to_int32 (int (b_len b))
      in if len = 0 then Inr []
         else case args of
           None \<Rightarrow> Inr (utf8Slice h b 0 len)
         | Some (enc, start, endv) \<Rightarrow> slowToString b64 h b enc start endv)"

definition toJSON :: "heap \<Rightarrow> buf \<Rightarrow> string \<times> byte list" where
  "toJSON h b = (''Buffer'', contents h b)"

definition INSPECT_MAX_BYTES :: int where
  "INSPECT_MAX_BYTES = 50"

text \<open>\<open>match(/.{2}/g).join(' ')\<close> on a text without line breaks.\<close>

fun pairs_joined :: "jsstring \<Rightarrow> jsstring" where
  "pairs_joined (c # d # s) =
     c # d # (if length s \<ge> 2 then 32 # pairs_joined s else [])"
| "pairs_joined _ = []"

definition inspect :: "base64js \<Rightarrow> heap \<Rightarrow> buf \<Rightarrow> jsstring res" where
  "inspect b64 h b =
     (if b_len b > 0 then
        bind_r (toString b64 h b (Some (Some (jstr ''hex''), Some 0, Some INSPECT_MAX_BYTES))) (\<lambda>hexText.
        Inr (jstr ''<Buffer '' @ pairs_joined hexText
             @ (if int (b_len b) > INSPECT_MAX_BYTES then jstr '' ... '' else []) @ jstr ''>''))
      else Inr (jstr ''<Buffer >''))"

section \<open>Construction\<close>

definition fromString :: "base64js \<Rightarrow> heap \<Rightarrow> jsstring \<Rightarrow> jsstring option \<Rightarrow> (buf \<times> heap) res" where
  "fromString b64 h s enc =
     (let name = (case enc of None \<Rightarrow> jstr ''utf8'' | Some e \<Rightarrow> if e = [] then jstr ''utf8'' else e)
      in if \<not> isEncoding name then Inl (TypeError ''\"encoding\" must be a valid string encoding'')
         else bind_r (byteLength b64 s (Some name)) (\<lambda>n.
              let len = to_int32 n
              in bind_r (createBuffer h len) (\<lambda>(that, h1).
                 bind_r (buf_write b64 h1 that s (WEncoding name)) (\<lambda>(actual, h2).
                 if actual \<noteq> len then slice h2 that 0 (Some actual) else Inr (that, h2)))))"

text \<open>
  \<open>new Uint8Array(array, byteOffset, length)\<close> on the block of an \<open>ArrayBuffer\<close>, then the prototype
  switch, or a copy when there are no typed arrays.
\<close>

definition fromArrayBuffer :: "heap \<Rightarrow> nat \<Rightarrow> int option \<Rightarrow> int option \<Rightarrow> (buf \<times> heap) res" where
  "fromArrayBuffer h arr byteOffset length' =
     (let byteLen = int (length (h_blocks h ! arr));
          bad = RangeError ''Invalid typed array length''
      in if (case byteOffset of None \<Rightarrow> False | Some off \<Rightarrow> off < 0 \<or> byteLen < off)
         then Inl (RangeError ''offset is out of bounds'')
         else if (case byteOffset of None \<Rightarrow> False
                  | Some off \<Rightarrow> byteLen < off + (case length' of None \<Rightarrow> 0 | Some n \<Rightarrow> n))
         then Inl (RangeError ''length is out of bounds'')
         else let off = (case byteOffset of None \<Rightarrow> 0 | Some x \<Rightarrow> x);
                  n = (case length' of None \<Rightarrow> byteLen - off | Some x \<Rightarrow> x)
              in if n < 0 \<or> byteLen < off + n then Inl bad
                 else let view = \<lparr>b_id = h_next h, b_arr = arr, b_off = nat off, b_len = nat n\<rparr>;
                          h1 = h\<lparr>h_next := Suc (h_next h)\<rparr>
                      in if h_typed h then Inr (view, h1)
                         else fromArrayLike h1 (map (Some \<circ> uint) (contents h1 view)))"

datatype from_obj =
  OBuffer buf
| OArrayLike "jnum list"
| OBadLength
| OJson "jnum list"
| OOther

definition fromObject :: "heap \<Rightarrow> from_obj \<Rightarrow> (buf \<times> heap) res" where
  "fromObject h obj =
     (case obj of
        OBuffer b \<Rightarrow>
          bind_r (checked h (int (b_len b))) (\<lambda>n.
          bind_r (createBuffer h (to_int32 n)) (\<lambda>(that, h1).
          if b_len that = 0 then Inr (that, h1)
          else bind_r (copy h1 b that (Some 0) (Some 0) (Some (to_int32 n))) (\<lambda>(_, h2). Inr (that, h2))))
      | OArrayLike xs \<Rightarrow> fromArrayLike h xs
      | OBadLength \<Rightarrow> createBuffer h 0
      | OJson xs \<Rightarrow> fromArrayLike h xs
      | OOther \<Rightarrow> Inl (TypeError
          ''First argument must be a string, Buffer, ArrayBuffer, Array, or array-like object.''))"

datatype from_arg =
  ANumber int
| AArrayBuffer nat "int option" "int option"
| AString jsstring "jsstring option"
| AObject from_obj

definition buf_from :: "base64js \<Rightarrow> heap \<Rightarrow> from_arg \<Rightarrow> (buf \<times> heap) res" where
  "buf_from b64 h arg =
     (case arg of
        ANumber n \<Rightarrow> Inl (TypeError ''\"value\" argument must not be a number'')
      | AArrayBuffer arr off len \<Rightarrow> fromArrayBuffer h arr off len
      | AString s enc \<Rightarrow> fromString b64 h s enc
      | AObject obj \<Rightarrow> fromObject h obj)"

text \<open>\<open>new Buffer(arg, encodingOrOffset)\<close>; the flag tells whether the second argument is a string.\<close>

definition Buffer :: "base64js \<Rightarrow> heap \<Rightarrow> from_arg \<Rightarrow> bool \<Rightarrow> (buf \<times> heap) res" where
  "Buffer b64 h arg enc_is_string =
     (case arg of
        ANumber n \<Rightarrow>
          if enc_is_string
          then Inl (Error ''If encoding is specified then the first argument must be a string'')
          else allocUnsafe h n
      | _ \<Rightarrow> buf_from b64 h arg)"

section \<open>Filling\<close>

datatype fill_val = FNumber int | FString jsstring | FBuffer buf

datatype fill_pos = PUndef | PInt int | PString jsstring

text \<open>A position as a number: \<open>undefined\<close> and a non-numeric string are \<open>NaN\<close>.\<close>

definition pos_num :: "fill_pos \<Rightarrow> jnum" where
  "pos_num p = (case p of PInt i \<Rightarrow> Some i | _ \<Rightarrow> None)"

fun fill_number :: "heap \<Rightarrow> buf \<Rightarrow> int \<Rightarrow> int \<Rightarrow> nat \<Rightarrow> heap" where
  "fill_number h b v i 0 = h"
| "fill_number h b v i (Suc n) = fill_number (bset h b i (Some v)) b v (i + 1) n"

text \<open>The pattern is an array of numbers, or a buffer whose bytes are read as the loop runs.\<close>

fun fill_pattern :: "heap \<Rightarrow> buf \<Rightarrow> int list + buf \<Rightarrow> int \<Rightarrow> nat \<Rightarrow> nat \<Rightarrow> heap" where
  "fill_pattern h b bytes start i 0 = h"
| "fill_pattern h b bytes start i (Suc n) =
     (let v = (case bytes of
                 Inl xs \<Rightarrow> if xs = [] then None else Some (xs ! (i mod length xs))
               | Inr src \<Rightarrow> if b_len src = 0 then None else bget h src (int (i mod b_len src)))
      in fill_pattern (bset h b (int i + start) v) b bytes start (Suc i) n)"

definition fill ::
  "base64js \<Rightarrow> heap \<Rightarrow> buf \<Rightarrow> fill_val \<Rightarrow> fill_pos \<Rightarrow> fill_pos \<Rightarrow> jsstring option \<Rightarrow> heap res" where
  "fill b64 h b val0 start0 end0 enc0 =
     (let len = int (b_len b);
          (start, endp, enc) =
            (case val0 of
               FString _ \<Rightarrow>
                 (case start0 of
                    PString e \<Rightarrow> (PInt 0, PInt len, Some e)
                  | _ \<Rightarrow> (case end0 of PString e \<Rightarrow> (start0, PInt len, Some e) | _ \<Rightarrow> (start0, end0, enc0)))
             | _ \<Rightarrow> (start0, end0, enc0));
          val1 = (case val0 of
                    FString [c] \<Rightarrow> if uint c < 256 then FNumber (uint c) else val0
                  | FString [] \<Rightarrow> FNumber 0
                  | FString _ \<Rightarrow> val0
                  | FNumber n \<Rightarrow> FNumber (band n 255)
                  | FBuffer _ \<Rightarrow> val0);
          bad_enc = (case val0 of FString _ \<Rightarrow> (case enc of None \<Rightarrow> False | Some e \<Rightarrow> \<not> isEncoding e) | _ \<Rightarrow> False);
          s = pos_num start; e = pos_num endp
      in if bad_enc then Inl (TypeError ''Unknown encoding: '')
         else if (case s of None \<Rightarrow> False | Some x \<Rightarrow> x < 0 \<or> len < x)
              \<or> (case e of None \<Rightarrow> False | Some y \<Rightarrow> len < y)
         then Inl (RangeError ''Out of range index'')
         else if (case (s, e) of (Some x, Some y) \<Rightarrow> y \<le> x | _ \<Rightarrow> False) then Inr h
         else let st = (case s of None \<Rightarrow> 0 | Some x \<Rightarrow> to_uint32 x);
                  en = (case endp of PUndef \<Rightarrow> len | _ \<Rightarrow> (case e of None \<Rightarrow> 0 | Some y \<Rightarrow> to_uint32 y))
              in case val1 of
                   FNumber v \<Rightarrow> Inr (fill_number h b v st (nat (en - st)))
                 | FBuffer src \<Rightarrow> Inr (fill_pattern h b (Inr src) st 0 (nat (en - st)))
                 | FString t \<Rightarrow>
                     bind_r (fromString b64 h t enc) (\<lambda>(tmp, h1).
                     bind_r (toString b64 h1 tmp None) (\<lambda>txt.
                     bind_r (utf8ToBytes txt None) (\<lambda>bytes.
                     Inr (fill_pattern h1 b (Inl bytes) st 0 (nat (en - st)))))))"

definition alloc_filled ::
  "base64js \<Rightarrow> heap \<Rightarrow> int \<Rightarrow> fill_val option \<Rightarrow> jsstring option \<Rightarrow> (buf \<times> heap) res" where
  "alloc_filled b64 h size' fillv enc =
     bind_r (assertSize size') (\<lambda>_.
     if size' \<le> 0 then createBuffer h size'
     else case fillv of
       None \<Rightarrow> createBuffer h size'
     | Some v \<Rightarrow>
         bind_r (createBuffer h size') (\<lambda>(b, h1).
         bind_r (case enc of
                   Some e \<Rightarrow> fill b64 h1 b v (PString e) PUndef None
                 | None \<Rightarrow> fill b64 h1 b v PUndef PUndef None) (\<lambda>h2. Inr (b, h2))))"

section \<open>Searching\<close>

text \<open>
  \<open>arrayIndexOf\<close> counts in units of \<open>indexSize\<close> bytes, and with two-byte units its lengths and
  positions may be halves.  The model keeps byte positions \<open>p = i * indexSize\<close>, so every comparison of
  the code is one of integers.  A pattern is an array of numbers or a buffer.
\<close>

definition unit_size :: "bool \<Rightarrow> int" where
  "unit_size wide = (if wide then 2 else 1)"

definition read_unit :: "heap \<Rightarrow> bool \<Rightarrow> buf \<Rightarrow> int \<Rightarrow> jnum res" where
  "read_unit h wide b p = (if wide then readUInt16BE h b p False else Inr (bget h b p))"

definition pattern_length :: "int list + buf \<Rightarrow> int" where
  "pattern_length val = (case val of Inl xs \<Rightarrow> int (length xs) | Inr v \<Rightarrow> int (b_len v))"

definition read_pattern :: "heap \<Rightarrow> bool \<Rightarrow> int list + buf \<Rightarrow> int \<Rightarrow> jnum res" where
  "read_pattern h wide val p =
     (case val of
        Inl xs \<Rightarrow> Inr (if 0 \<le> p \<and> p < int (length xs) then Some (xs ! nat p) else None)
      | Inr v \<Rightarrow> read_unit h wide v p)"

function index_forward :: "heap \<Rightarrow> bool \<Rightarrow> buf \<Rightarrow> int list + buf \<Rightarrow> int \<Rightarrow> int \<Rightarrow> int res" where
  "index_forward h wide arr val foundIndex p =
     (if p < int (b_len arr) then
        bind_r (read_unit h wide arr p) (\<lambda>x.
        bind_r (read_pattern h wide val (if foundIndex = - 1 then 0 else p - foundIndex)) (\<lambda>y.
        if x = y then
          let f = (if foundIndex = - 1 then p else foundIndex)
          in if p - f + unit_size wide = pattern_length val then Inr f
             else index_forward h wide arr val f (p + unit_size wide)
        else if foundIndex \<noteq> - 1 then index_forward h wide arr val (- 1) (foundIndex + unit_size wide)
        else index_forward h wide arr val (- 1) (p + unit_size wide)))
      else Inr (- 1))"
  by pat_completeness auto
termination
  by (relation "measures [\<lambda>(h, wide, arr, val, f, p). nat (int (b_len arr) - (if f = - 1 then p else f)),
      \<lambda>(h, wide, arr, val, f, p). nat (int (b_len arr) - p)]")
    (auto simp: unit_size_def split: if_splits)

declare index_forward.simps [simp del]

function match_from :: "heap \<Rightarrow> bool \<Rightarrow> buf \<Rightarrow> int list + buf \<Rightarrow> int \<Rightarrow> int \<Rightarrow> bool res" where
  "match_from h wide arr val p q =
     (if q < pattern_length val then
        bind_r (read_unit h wide arr (p + q)) (\<lambda>x.
        bind_r (read_pattern h wide val q) (\<lambda>y.
        if x \<noteq> y then Inr False else match_from h wide arr val p (q + unit_size wide)))
      else Inr True)"
  by pat_completeness auto
termination
  by (relation "measure (\<lambda>(h, wide, arr, val, p, q). nat (pattern_length val - q))")
    (auto simp: unit_size_def)

declare match_from.simps [simp del]

function index_backward :: "heap \<Rightarrow> bool \<Rightarrow> buf \<Rightarrow> int list + buf \<Rightarrow> int \<Rightarrow> rat res" where
  "index_backward h wide arr val p =
     (if 0 \<le> p then
        bind_r (match_from h wide arr val p 0) (\<lambda>found.
        if found then Inr (of_int p / of_int (unit_size wide))
        else index_backward h wide arr val (p - unit_size wide))
      else Inr (- 1))"
  by pat_completeness auto
termination
  by (relation "measure (\<lambda>(h, wide, arr, val, p). nat (p + 1))") (auto simp: unit_size_def)

declare index_backward.simps [simp del]

definition wide_encoding :: "jsstring option \<Rightarrow> bool" where
  "wide_encoding enc =
     (case enc of None \<Rightarrow> False | Some name \<Rightarrow> encoding_of (toLowerCase name) = Some Ucs2)"

definition arrayIndexOf ::
  "heap \<Rightarrow> buf \<Rightarrow> int list + buf \<Rightarrow> int \<Rightarrow> jsstring option \<Rightarrow> bool \<Rightarrow> rat res" where
  "arrayIndexOf h arr val byteOffset enc dir =
     (let wide = wide_encoding enc
      in if wide \<and> (b_len arr < 2 \<or> pattern_length val < 2) then Inr (- 1)
         else if dir then bind_r (index_forward h wide arr val (- 1) byteOffset) (\<lambda>p. Inr (of_int p))
         else index_backward h wide arr val
                (if byteOffset + pattern_length val > int (b_len arr)
                 then int (b_len arr) - pattern_length val else byteOffset))"

text \<open>\<open>Uint8Array.prototype.indexOf\<close> and \<open>lastIndexOf\<close> for a start inside the array.\<close>

definition typed_indexOf :: "heap \<Rightarrow> buf \<Rightarrow> int \<Rightarrow> int \<Rightarrow> int" where
  "typed_indexOf h b v start =
     (case filter (\<lambda>i. bget h b (int i) = Some v) [nat start..<b_len b] of [] \<Rightarrow> - 1 | i # _ \<Rightarrow> int i)"

definition typed_lastIndexOf :: "heap \<Rightarrow> buf \<Rightarrow> int \<Rightarrow> int \<Rightarrow> int" where
  "typed_lastIndexOf h b v start =
     (case filter (\<lambda>i. bget h b (int i) = Some v) (rev [0..<min (Suc (nat start)) (b_len b)]) of
        [] \<Rightarrow> - 1 | i # _ \<Rightarrow> int i)"

datatype search_val = SString jsstring | SBuffer buf | SNumber int | SOther

datatype search_pos = SUndef | SNum int | SEncoding jsstring

definition start_index :: "int \<Rightarrow> search_pos \<Rightarrow> bool \<Rightarrow> int option" where
  "start_index len byteOffset dir =
     (let off = (case byteOffset of
                   SEncoding _ \<Rightarrow> 0
                 | SNum n \<Rightarrow> if n > 2147483647 then 2147483647 else if n < - 2147483648 then - 2147483648 else n
                 | SUndef \<Rightarrow> if dir then 0 else len - 1);
          off1 = (if off < 0 then len + off else off)
      in if off1 \<ge> len then (if dir then None else Some (len - 1))
         else if off1 < 0 then (if dir then Some 0 else None)
         else Some off1)"

definition bidirectionalIndexOf ::
  "base64js \<Rightarrow> heap \<Rightarrow> buf \<Rightarrow> search_val \<Rightarrow> search_pos \<Rightarrow> jsstring option \<Rightarrow> bool \<Rightarrow> rat res" where
  "bidirectionalIndexOf b64 h b val pos enc0 dir =
     (if b_len b = 0 then Inr (- 1)
      else let enc = (case pos of SEncoding e \<Rightarrow> Some e | _ \<Rightarrow> enc0);
               in_buffer = (\<lambda>h' v off. if b_len v = 0 then Inr (- 1) else arrayIndexOf h' b (Inr v) off enc dir)
           in case start_index (int (b_len b)) pos dir of
                None \<Rightarrow> Inr (- 1)
              | Some off \<Rightarrow>
                  (case val of
                     SString s \<Rightarrow> bind_r (fromString b64 h s enc) (\<lambda>(v, h'). in_buffer h' v off)
                   | SBuffer v \<Rightarrow> in_buffer h v off
                   | SNumber n \<Rightarrow>
                       if h_typed h then Inr (of_int (if dir then typed_indexOf h b (band n 255) off
                                                      else typed_lastIndexOf h b (band n 255) off))
                       else arrayIndexOf h b (Inl [band n 255]) off enc dir
                   | SOther \<Rightarrow> Inl (TypeError ''val must be string, number or Buffer'')))"

definition indexOf :: "base64js \<Rightarrow> heap \<Rightarrow> buf \<Rightarrow> search_val \<Rightarrow> search_pos \<Rightarrow> jsstring option \<Rightarrow> rat res" where
  "indexOf b64 h b val pos enc = bidirectionalIndexOf b64 h b val pos enc True"

definition lastIndexOf :: "base64js \<Rightarrow> heap \<Rightarrow> buf \<Rightarrow> search_val \<Rightarrow> search_pos \<Rightarrow> jsstring option \<Rightarrow> rat res" where
  "lastIndexOf b64 h b val pos enc = bidirectionalIndexOf b64 h b val pos enc False"

definition buf_includes :: "base64js \<Rightarrow> heap \<Rightarrow> buf \<Rightarrow> search_val \<Rightarrow> search_pos \<Rightarrow> jsstring option \<Rightarrow> bool res" where
  "buf_includes b64 h b val pos enc = bind_r (indexOf b64 h b val pos enc) (\<lambda>r. Inr (r \<noteq> - 1))"

section \<open>The contract of an encoding\<close>

text \<open>What \<open>fromString\<close> does once the encoding is known.\<close>

definition from_text ::
  "(jsstring \<Rightarrow> int res) \<Rightarrow> (heap \<Rightarrow> buf \<Rightarrow> jsstring \<Rightarrow> int \<Rightarrow> int \<Rightarrow> (int \<times> heap) res) \<Rightarrow>
    heap \<Rightarrow> jsstring \<Rightarrow> (buf \<times> heap) res" where
  "from_text byte_len put h s =
     bind_r (if s = [] then Inr 0 else byte_len s) (\<lambda>n.
     bind_r (createBuffer h (to_int32 n)) (\<lambda>(that, h1).
     bind_r (put h1 that s 0 (int (b_len that))) (\<lambda>(actual, h2).
     if actual \<noteq> to_int32 n then slice h2 that 0 (Some actual) else Inr (that, h2))))"

locale text_codec =
  fixes byte_len :: "jsstring \<Rightarrow> int res"
    and put :: "heap \<Rightarrow> buf \<Rightarrow> jsstring \<Rightarrow> int \<Rightarrow> int \<Rightarrow> (int \<times> heap) res"
    and get :: "heap \<Rightarrow> buf \<Rightarrow> int \<Rightarrow> int \<Rightarrow> jsstring res"
    and enc :: "jsstring \<Rightarrow> byte list"
    and valid :: "jsstring \<Rightarrow> bool"
  assumes enc_eq_Nil: "valid s \<Longrightarrow> enc s = [] \<longleftrightarrow> s = []"
    and byte_len_enc: "valid s \<Longrightarrow> byte_len s = Inr (int (length (enc s)))"
    and put_enc: "valid s \<Longrightarrow> b_len b = length (enc s) \<Longrightarrow>
      \<exists>vs. put h b s 0 (int (b_len b)) = Inr (int (length (enc s)), store_all h b 0 vs) \<and> map num_byte vs = enc s"
    and get_enc: "valid s \<Longrightarrow> s \<noteq> [] \<Longrightarrow> live h b \<Longrightarrow> int (b_len b) < kMaxLength h \<Longrightarrow>
      contents h b = enc s \<Longrightarrow> get h b 0 (int (b_len b)) = Inr s"
begin

lemma from_text_stores:
  assumes "valid s" "int (length (enc s)) < kMaxLength h"
  shows "\<exists>b h'. from_text byte_len put h s = Inr (b, h') \<and> live h' b \<and> contents h' b = enc s
    \<and> b_len b = length (enc s) \<and> h_typed h' = h_typed h
    \<and> (\<forall>c. live h c \<longrightarrow> live h' c \<and> contents h' c = contents h c)"
proof -
  let ?n = "int (length (enc s))"
  have t: "to_int32 ?n = ?n" using assms(2) to_int32_len [of ?n h] by simp
  have n: "(if s = [] then Inr 0 else byte_len s) = Inr ?n"
    using byte_len_enc [OF assms(1)] enc_eq_Nil [OF assms(1)] by auto
  obtain b h1 where b: "createBuffer h ?n = Inr (b, h1)" "b_len b = nat ?n" "live h1 b"
    "h_typed h1 = h_typed h" "\<And>c. live h c \<Longrightarrow> live h1 c"
    "\<And>c. live h c \<Longrightarrow> contents h1 c = contents h c" "\<And>c. live h c \<Longrightarrow> b_arr c \<noteq> b_arr b"
    using createBuffer_live [of ?n h] assms(2) by (metis of_nat_0_le_iff)
  obtain vs where vs: "put h1 b s 0 (int (b_len b)) = Inr (?n, store_all h1 b 0 vs)" "map num_byte vs = enc s"
    using put_enc [OF assms(1), of b h1] b(2) by auto
  have len: "length vs = b_len b" using arg_cong [OF vs(2), of length] b(2) by simp
  have "contents (store_all h1 b 0 vs) b = overwrite 0 (enc s) (contents h1 b)"
    using contents_store_all [of h1 b 0 vs] b(3) len vs(2) by (simp add: live_def)
  also have "\<dots> = enc s" using b(2,3) by (simp add: overwrite_def live_def)
  finally have "contents (store_all h1 b 0 vs) b = enc s" .
  moreover have "from_text byte_len put h s = Inr (b, store_all h1 b 0 vs)"
    by (simp add: from_text_def n t b(1) vs(1))
  ultimately show ?thesis
    using b contents_store_all_other by (intro exI [of _ b] exI [of _ "store_all h1 b 0 vs"]) fastforce
qed

lemma from_text_round_trip:
  assumes "valid s" "int (length (enc s)) < kMaxLength h"
  shows "\<exists>b h'. from_text byte_len put h s = Inr (b, h') \<and> contents h' b = enc s \<and> b_len b = length (enc s)
    \<and> (b_len b \<noteq> 0 \<longrightarrow> get h' b 0 (int (b_len b)) = Inr s) \<and> (b_len b = 0 \<longrightarrow> s = [])"
proof -
  obtain b h' where b: "from_text byte_len put h s = Inr (b, h')" "live h' b" "contents h' b = enc s"
    "b_len b = length (enc s)" "h_typed h' = h_typed h"
    using from_text_stores [OF assms] by blast
  have "kMaxLength h' = kMaxLength h" using b(5) by (simp add: kMaxLength_def)
  then have "get h' b 0 (int (b_len b)) = Inr s" if "s \<noteq> []"
    using get_enc [OF assms(1) that b(2) _ b(3)] b(4) assms(2) by simp
  then show ?thesis
    using b enc_eq_Nil [OF assms(1)] by (intro exI [of _ b] exI [of _ h']) auto
qed

end

lemma lower_names:
  "toLowerCase (jstr ''hex'') = jstr ''hex''" "toLowerCase (jstr ''utf8'') = jstr ''utf8''"
  "toLowerCase (jstr ''utf-8'') = jstr ''utf-8''" "toLowerCase (jstr ''ascii'') = jstr ''ascii''"
  "toLowerCase (jstr ''latin1'') = jstr ''latin1''" "toLowerCase (jstr ''binary'') = jstr ''binary''"
  "toLowerCase (jstr ''base64'') = jstr ''base64''" "toLowerCase (jstr ''ucs2'') = jstr ''ucs2''"
  "toLowerCase (jstr ''ucs-2'') = jstr ''ucs-2''" "toLowerCase (jstr ''utf16le'') = jstr ''utf16le''"
  "toLowerCase (jstr ''utf-16le'') = jstr ''utf-16le''"
  by code_simp+

lemma encoding_of_lower:
  assumes "encoding_of name = Some e"
  shows "toLowerCase name = name"
proof (rule ccontr)
  assume "toLowerCase name \<noteq> name"
  then have "name \<notin> {jstr ''hex'', jstr ''utf8'', jstr ''utf-8'', jstr ''ascii'', jstr ''latin1'', jstr ''binary'',
      jstr ''base64'', jstr ''ucs2'', jstr ''ucs-2'', jstr ''utf16le'', jstr ''utf-16le''}"
    using lower_names by (metis empty_iff insert_iff)
  then have "encoding_of name = None" by (simp only: encoding_of_def insert_iff de_Morgan_disj if_False simp_thms)
  with assms show False by simp
qed

lemma resolve_isEncoding: "resolve name = Some e \<Longrightarrow> isEncoding name"
  using encoding_of_lower [of name] by (auto simp: resolve_def isEncoding_def split: option.splits)

lemma fromString_from_text:
  assumes "resolve name = Some e" "name \<noteq> []"
  shows "fromString b64 h s (Some name) = from_text (byteLength_as b64 e) (write_as b64 e) h s"
  using assms resolve_isEncoding [OF assms(1)]
  by (simp add: fromString_def from_text_def byteLength_def buf_write_def Let_def)

lemma toString_whole:
  assumes "resolve name = Some e" "name \<noteq> []" "b_len b < 2147483648"
  shows "toString b64 h b (Some (Some name, None, None)) =
    (if b_len b = 0 then Inr [] else slice_as b64 e h b 0 (int (b_len b)))"
proof -
  have "to_uint32 (int (b_len b)) = int (b_len b)" using assms(3) by (simp add: to_uint32_def)
  then show ?thesis
    using assms small32 [OF assms(3)]
    by (simp add: toString_def slowToString_def Let_def to_uint32_def del: to_int32_id)
qed

section \<open>The encodings satisfy it\<close>

lemma b_len_contents: "live h b \<Longrightarrow> contents h b = bs \<Longrightarrow> b_len b = length bs"
  by (auto simp: live_def)

lemma blit_whole:
  assumes "b_len b = length src"
  shows "blitBuffer h src b 0 (int (b_len b)) = (int (length src), store_all h b 0 (map Some src))"
  using blit_loop_eq [of 0 src 0 b h "b_len b"] assms by (simp add: blitBuffer_def)

lemma num_byte_comp_Some [simp]: "num_byte \<circ> Some = word_of_int"
  by (simp add: fun_eq_iff)

definition latin1_bytes :: "jsstring \<Rightarrow> byte list" where
  "latin1_bytes s = map (word_of_int \<circ> uint) s"

lemma to_bytes_ascii: "to_bytes (asciiToBytes s) = latin1_bytes s"
  by (simp add: asciiToBytes_def latin1_bytes_def band_255)

lemma length_asciiToBytes [simp]: "length (asciiToBytes s) = length s"
  by (simp add: asciiToBytes_def)

definition below :: "int \<Rightarrow> jsstring \<Rightarrow> bool" where
  "below n s \<longleftrightarrow> list_all (\<lambda>c. uint c < n) s"

lemma narrow_unit: "uint (c :: code_unit) < 256 \<Longrightarrow> uint (word_of_int (uint c) :: byte) = uint c"
  by (simp only: uint_byte_of_int) (simp add: mod_pos_pos_trivial)

lemma ascii_put:
  assumes "b_len b = length (latin1_bytes s)"
  shows "\<exists>vs. asciiWrite h b s 0 (int (b_len b)) = Inr (int (length (latin1_bytes s)), store_all h b 0 vs)
    \<and> map num_byte vs = latin1_bytes s"
proof -
  have "b_len b = length (asciiToBytes s)" using assms by (simp add: latin1_bytes_def)
  from blit_whole [OF this] have
    "asciiWrite h b s 0 (int (b_len b)) = Inr (int (length (asciiToBytes s)), store_all h b 0 (map Some (asciiToBytes s)))"
    by (simp add: asciiWrite_def)
  then show ?thesis
    by (intro exI [of _ "map Some (asciiToBytes s)"]) (simp add: to_bytes_ascii, simp add: latin1_bytes_def)
qed

interpretation latin1: text_codec "byteLength_as b64 Latin1" "write_as b64 Latin1" "slice_as b64 Latin1"
  latin1_bytes "below 256" for b64
proof unfold_locales
  fix s h b assume s: "below 256 s" "live h b" "contents h b = latin1_bytes s"
  have "word_of_int (uint (word_of_int (uint c) :: byte)) = c" if "c \<in> set s" for c :: code_unit
    using s(1) that by (subst narrow_unit) (auto simp: below_def list_all_iff)
  then have "map (word_of_int \<circ> uint) (latin1_bytes s) = s"
    unfolding latin1_bytes_def map_map comp_def by (rule map_idI)
  then show "slice_as b64 Latin1 h b 0 (int (b_len b)) = Inr s"
    using s latin1Slice_eq [of h b "b_len b" 0] b_len_contents [OF s(2,3)] by (simp add: slice_as_def live_def)
next
  fix s and b :: buf and h assume "b_len b = length (latin1_bytes s)"
  from ascii_put [OF this] show "\<exists>vs. write_as b64 Latin1 h b s 0 (int (b_len b)) = Inr (int (length (latin1_bytes s)), store_all h b 0 vs)
      \<and> map num_byte vs = latin1_bytes s"
    by (simp only: write_as_def encoding.case latin1Write_def)
qed (simp_all add: latin1_bytes_def byteLength_as_def)

interpretation ascii: text_codec "byteLength_as b64 Ascii" "write_as b64 Ascii" "slice_as b64 Ascii"
  latin1_bytes "below 128" for b64
proof unfold_locales
  fix s h b assume s: "below 128 s" "live h b" "contents h b = latin1_bytes s"
  have "word_of_int (uint (word_of_int (uint c) :: byte) mod 128) = c" if "c \<in> set s" for c :: code_unit
    using s(1) that by (subst narrow_unit) (fastforce simp: below_def list_all_iff mod_pos_pos_trivial)+
  then have "map (\<lambda>x. word_of_int (uint x mod 128)) (latin1_bytes s) = s"
    unfolding latin1_bytes_def map_map comp_def by (rule map_idI)
  then show "slice_as b64 Ascii h b 0 (int (b_len b)) = Inr s"
    using s asciiSlice_eq [of h b "b_len b" 0] b_len_contents [OF s(2,3)] by (simp add: slice_as_def live_def)
next
  fix s and b :: buf and h assume "b_len b = length (latin1_bytes s)"
  from ascii_put [OF this] show "\<exists>vs. write_as b64 Ascii h b s 0 (int (b_len b)) = Inr (int (length (latin1_bytes s)), store_all h b 0 vs)
      \<and> map num_byte vs = latin1_bytes s"
    by (simp only: write_as_def encoding.case)
qed (simp_all add: latin1_bytes_def byteLength_as_def)

definition ucs2_bytes :: "jsstring \<Rightarrow> byte list" where
  "ucs2_bytes s = to_bytes (concat (map unit_bytes s))"

lemma length_ucs2_bytes [simp]: "length (ucs2_bytes s) = 2 * length s"
  by (simp only: ucs2_bytes_def length_map length_unit_bytes)

lemma slice_everything:
  assumes "live h b" "int (b_len b) < kMaxLength h"
  obtains v h' where "slice h b 0 (Some (int (b_len b))) = Inr (v, h')" "live h' v" "contents h' v = contents h b"
    "b_len v = b_len b"
proof -
  have "slice_range (b_len b) 0 (Some (int (b_len b))) = (0, b_len b)"
    using to_int32_len [of "int (b_len b)" h] assms(2) by (simp add: slice_range_def clamp_index_def)
  from slice_contents [OF assms this] show ?thesis
    using assms(1) by (metis drop0 length_contents live_def order_refl take_all that)
qed

interpretation ucs2: text_codec "byteLength_as b64 Ucs2" "write_as b64 Ucs2" "slice_as b64 Ucs2"
  ucs2_bytes "\<lambda>s. True" for b64
proof unfold_locales
  fix s h b assume s: "live h b" "int (b_len b) < kMaxLength h" "contents h b = ucs2_bytes s"
  obtain v h' where v: "slice h b 0 (Some (int (b_len b))) = Inr (v, h')" "live h' v" "contents h' v = contents h b"
    using slice_everything [OF s(1,2)] by metis
  have "ucs2_loop h' v (int 0) = s"
    using v(2,3) s(3) by (intro ucs2_loop_eq) (simp_all add: live_def ucs2_bytes_def)
  then show "slice_as b64 Ucs2 h b 0 (int (b_len b)) = Inr s"
    by (simp add: slice_as_def utf16leSlice_def v(1))
next
  fix s and b :: buf and h assume b: "b_len b = length (ucs2_bytes s)"
  then have e: "utf16leToBytes s (int (b_len b)) = concat (map unit_bytes s)"
    by (intro utf16leToBytes_eq) simp
  have "blitBuffer h (concat (map unit_bytes s)) b 0 (int (b_len b)) =
      (int (length (concat (map unit_bytes s))), store_all h b 0 (map Some (concat (map unit_bytes s))))"
    using b by (intro blit_whole) (simp only: length_ucs2_bytes length_unit_bytes)
  then show "\<exists>vs. write_as b64 Ucs2 h b s 0 (int (b_len b)) = Inr (int (length (ucs2_bytes s)), store_all h b 0 vs)
      \<and> map num_byte vs = ucs2_bytes s"
    by (intro exI [of _ "map Some (concat (map unit_bytes s))"])
      (simp add: write_as_def ucs2Write_def e ucs2_bytes_def del: map_concat length_concat map_map, simp)
qed (simp_all add: byteLength_as_def ucs2_bytes_def [of "[]"] flip: length_0_conv)

fun hex_bytes :: "jsstring \<Rightarrow> byte list" where
  "hex_bytes (c # d # s) = word_of_int (the (parseInt16 [c, d])) # hex_bytes s"
| "hex_bytes _ = []"

lemma hex_bytes_text [simp]: "hex_bytes (hex_text bs) = bs"
proof (induction bs)
  case (Cons x bs)
  obtain c d where cd: "toHex (uint x) = [c, d]" by (cases "uint x < 16") (simp_all add: toHex_def)
  then have "parseInt16 [c, d] = Some (uint x)" using parseInt16_toHex [of x] by simp
  then show ?case using Cons cd by (simp add: hex_text_def)
qed (simp add: hex_text_def)

definition hex_valid :: "jsstring \<Rightarrow> bool" where
  "hex_valid s \<longleftrightarrow> list_all lower_hex s \<and> even (length s) \<and> length s < 2147483648"

lemma hex_validE:
  assumes "hex_valid s"
  obtains bs where "s = hex_text bs" "length s = 2 * length bs" "length bs < 1073741824"
  using assms lower_hex_text [of s] that by (auto simp: hex_valid_def length_hex_text)

interpretation hex: text_codec "byteLength_as b64 Hex" "write_as b64 Hex" "slice_as b64 Hex" hex_bytes hex_valid for b64
proof unfold_locales
  fix s assume "hex_valid s"
  then obtain bs where bs: "s = hex_text bs" "length s = 2 * length bs" "length bs < 1073741824" by (rule hex_validE)
  show "hex_bytes s = [] \<longleftrightarrow> s = []"
    unfolding bs(1) hex_bytes_text using length_hex_text [of bs] by auto
  have "shr (int (length s)) 1 = int (length s) div 2 ^ 1" using bs(2,3) by (intro shr_div) simp_all
  then show "byteLength_as b64 Hex s = Inr (int (length (hex_bytes s)))"
    using bs by (simp add: byteLength_as_def)
next
  fix s and b :: buf and h assume s: "hex_valid s" "b_len b = length (hex_bytes s)"
  then obtain bs where bs: "s = hex_text bs" "length s = 2 * length bs" by (meson hex_validE)
  have "hex_loop h b s 0 (int 0) (length bs) = (int (0 + length bs), store_all h b (0 + int 0) (map (Some \<circ> uint) (take (length bs) (drop 0 bs))))"
    unfolding bs(1) by (rule hex_loop_text) simp
  then have "write_as b64 Hex h b s 0 (int (b_len b)) = Inr (int (length bs), store_all h b 0 (map (Some \<circ> uint) bs))"
    using s(2) bs by (simp add: write_as_def hexWrite_def Let_def)
  then show "\<exists>vs. write_as b64 Hex h b s 0 (int (b_len b)) = Inr (int (length (hex_bytes s)), store_all h b 0 vs)
      \<and> map num_byte vs = hex_bytes s"
    using bs by (intro exI [of _ "map (Some \<circ> uint) bs"]) (simp add: comp_def)
next
  fix s h b assume s: "hex_valid s" "s \<noteq> []" "live h b" "contents h b = hex_bytes s"
  then obtain bs where bs: "s = hex_text bs" by (meson hex_validE)
  then have "b_len b = length bs" "bs \<noteq> []" using b_len_contents [OF s(3,4)] s(2) length_hex_text [of bs] by auto
  then show "slice_as b64 Hex h b 0 (int (b_len b)) = Inr s"
    using hexSlice_eq [of h b "b_len b" 0] s(3,4) bs by (simp add: slice_as_def live_def)
qed

definition utf8_bytes :: "jsstring \<Rightarrow> byte list" where
  "utf8_bytes s = (case utf8ToBytes s None of Inl _ \<Rightarrow> [] | Inr bs \<Rightarrow> to_bytes bs)"

lemma utf8ToBytes_code_points:
  assumes "\<forall>cp \<in> set cps. scalar cp" "s = concat (map utf16 cps)"
  shows "utf8ToBytes s None = Inr (concat (map cp_bytes cps))"
    and "int (length (concat (map cp_bytes cps))) \<le> n \<Longrightarrow>
      utf8ToBytes s (Some n) = Inr (concat (map cp_bytes cps))"
    and "utf8_bytes s = to_bytes (concat (map cp_bytes cps))"
    and "concat (map cp_bytes cps) = [] \<longleftrightarrow> s = []"
proof -
  show n: "utf8ToBytes s None = Inr (concat (map cp_bytes cps))"
    using utf8_loop_code_points [OF assms(1), of None "[]"] by (simp add: utf8ToBytes_def assms(2))
  show "utf8ToBytes s (Some n) = Inr (concat (map cp_bytes cps))"
    if "int (length (concat (map cp_bytes cps))) \<le> n"
    using utf8_loop_code_points [OF assms(1), of None "[]"] utf8_loop_code_points [OF assms(1), of "Some n" "[]"]
      fits_all [OF that] by (simp add: utf8ToBytes_def assms(2))
  show "utf8_bytes s = to_bytes (concat (map cp_bytes cps))" by (simp add: utf8_bytes_def n)
  have "cp_bytes cp \<noteq> []" "utf16 cp \<noteq> []" for cp by (simp_all add: cp_bytes_def utf16_def)
  then show "concat (map cp_bytes cps) = [] \<longleftrightarrow> s = []" unfolding assms(2) by (cases cps) auto
qed

interpretation utf8: text_codec "byteLength_as b64 Utf8" "write_as b64 Utf8" "slice_as b64 Utf8"
  utf8_bytes well_formed for b64
proof unfold_locales
  fix s assume "well_formed s"
  then obtain cps where "\<forall>cp \<in> set cps. scalar cp" "s = concat (map utf16 cps)"
    using well_formed_code_points by blast
  note u = utf8ToBytes_code_points [OF this]
  show "utf8_bytes s = [] \<longleftrightarrow> s = []" using u(3,4) by simp
  show "byteLength_as b64 Utf8 s = Inr (int (length (utf8_bytes s)))"
    by (simp add: byteLength_as_def u(1,3) del: length_concat)
next
  fix s and b :: buf and h assume s: "well_formed s" "b_len b = length (utf8_bytes s)"
  then obtain cps where "\<forall>cp \<in> set cps. scalar cp" "s = concat (map utf16 cps)"
    using well_formed_code_points by blast
  note u = utf8ToBytes_code_points [OF this]
  let ?bs = "concat (map cp_bytes cps)"
  have len: "b_len b = length ?bs" using s(2) unfolding u(3) by (simp only: length_map)
  have "utf8ToBytes s (Some (int (b_len b))) = Inr ?bs" using len by (intro u(2)) simp
  then have "write_as b64 Utf8 h b s 0 (int (b_len b)) = Inr (int (length ?bs), store_all h b 0 (map Some ?bs))"
    using blit_whole [OF len] by (simp add: write_as_def utf8Write_def)
  then show "\<exists>vs. write_as b64 Utf8 h b s 0 (int (b_len b)) = Inr (int (length (utf8_bytes s)), store_all h b 0 vs)
      \<and> map num_byte vs = utf8_bytes s"
    unfolding u(3) by (intro exI [of _ "map Some ?bs"]) simp
next
  fix s h b assume s: "well_formed s" "live h b" "contents h b = utf8_bytes s"
  then obtain cps where cps: "\<forall>cp \<in> set cps. scalar cp" "s = concat (map utf16 cps)"
    using well_formed_code_points by blast
  have "utf8Slice h b (int 0) (int (b_len b)) = concat (map utf16 cps)"
    using s cps utf8ToBytes_code_points(3) [OF cps] b_len_contents [OF s(2,3)]
    by (intro utf8Slice_code_points) (simp_all add: live_def)
  then show "slice_as b64 Utf8 h b 0 (int (b_len b)) = Inr s" using cps by (simp add: slice_as_def)
qed

section \<open>Strings survive\<close>

text \<open>The strings an encoding can represent, and their bytes.\<close>

fun representable :: "encoding \<Rightarrow> jsstring \<Rightarrow> bool" where
  "representable Utf8 s = well_formed s"
| "representable Ascii s = below 128 s"
| "representable Latin1 s = below 256 s"
| "representable Ucs2 s = True"
| "representable Hex s = hex_valid s"
| "representable Base64 s = False"

fun encoded :: "encoding \<Rightarrow> jsstring \<Rightarrow> byte list" where
  "encoded Utf8 s = utf8_bytes s"
| "encoded Ascii s = latin1_bytes s"
| "encoded Latin1 s = latin1_bytes s"
| "encoded Ucs2 s = ucs2_bytes s"
| "encoded Hex s = hex_bytes s"
| "encoded Base64 s = []"

text \<open>
  C4: a buffer made from a string reads back as the same string under the same encoding, for every
  string the encoding can represent: UTF-8 on well-formed UTF-16, ASCII and Latin-1 on their ranges,
  UTF-16LE on every string, hexadecimal on lower-case digit pairs.
\<close>

theorem from_toString_round_trip:
  assumes "resolve name = Some e" "name \<noteq> []" "representable e s" "int (length (encoded e s)) < kMaxLength h"
  shows "\<exists>b h'. fromString b64 h s (Some name) = Inr (b, h') \<and> contents h' b = encoded e s
    \<and> toString b64 h' b (Some (Some name, None, None)) = Inr s"
proof -
  have "\<exists>b h'. from_text (byteLength_as b64 e) (write_as b64 e) h s = Inr (b, h') \<and> contents h' b = encoded e s
      \<and> b_len b = length (encoded e s)
      \<and> (b_len b \<noteq> 0 \<longrightarrow> slice_as b64 e h' b 0 (int (b_len b)) = Inr s) \<and> (b_len b = 0 \<longrightarrow> s = [])"
    using assms(3,4) utf8.from_text_round_trip ascii.from_text_round_trip latin1.from_text_round_trip
      ucs2.from_text_round_trip hex.from_text_round_trip
    by (cases e) auto
  then obtain b h' where b: "from_text (byteLength_as b64 e) (write_as b64 e) h s = Inr (b, h')"
    "contents h' b = encoded e s" "b_len b = length (encoded e s)"
    "b_len b \<noteq> 0 \<longrightarrow> slice_as b64 e h' b 0 (int (b_len b)) = Inr s" "b_len b = 0 \<longrightarrow> s = []"
    by (elim exE conjE) (rule that)
  have "b_len b < 2147483648" using b(3) assms(4) by (simp add: kMaxLength_def split: if_splits)
  then show ?thesis
    using b toString_whole [OF assms(1,2)] fromString_from_text [OF assms(1,2)] by (intro exI [of _ b] exI [of _ h']) auto
qed

theorem from_toString_round_trip_witness:
  "\<exists>b h'. fromString \<lparr>toByteArray = \<lambda>s. Inr [], fromByteArray = \<lambda>bs. []\<rparr> demo_heap [233, 55357, 56832] (Some (jstr ''UTF-8''))
      = Inr (b, h') \<and> contents h' b = [195, 169, 240, 159, 152, 128]
    \<and> toString \<lparr>toByteArray = \<lambda>s. Inr [], fromByteArray = \<lambda>bs. []\<rparr> h' b (Some (Some (jstr ''UTF-8''), None, None))
      = Inr [233, 55357, 56832]"
proof -
  have r: "resolve (jstr ''UTF-8'') = Some Utf8" by code_simp
  have w: "representable Utf8 [233, 55357, 56832]" by code_simp
  have e: "encoded Utf8 [233, 55357, 56832] = [195, 169, 240, 159, 152, 128]" by code_simp
  show ?thesis
    using from_toString_round_trip [OF r _ w, of demo_heap] e by (simp add: demo_live)
qed

text \<open>
  \<open>utf8ToBytes\<close> drops a lone lead surrogate at the end of the string when another lead surrogate
  precedes it: two lead surrogates give one replacement sequence, although each of them alone, and
  each followed by another character, gives one.
\<close>

theorem utf8ToBytes_drops_last_lead:
  "utf8ToBytes [55296, 55296] None = Inr [239, 191, 189]
   \<and> utf8ToBytes [55296] None = Inr [239, 191, 189]
   \<and> utf8ToBytes [55296, 55296, 97] None = Inr [239, 191, 189, 239, 191, 189, 97]"
  by code_simp

section \<open>The searches\<close>

definition occurs_at :: "'a list \<Rightarrow> 'a list \<Rightarrow> nat \<Rightarrow> bool" where
  "occurs_at xs ys i \<longleftrightarrow> take (length ys) (drop i xs) = ys"

definition first_occurrence :: "'a list \<Rightarrow> 'a list \<Rightarrow> nat \<Rightarrow> int" where
  "first_occurrence xs ys s =
     (case filter (occurs_at xs ys) [s..<length xs] of [] \<Rightarrow> - 1 | i # _ \<Rightarrow> int i)"

definition last_occurrence :: "'a list \<Rightarrow> 'a list \<Rightarrow> nat \<Rightarrow> int" where
  "last_occurrence xs ys s =
     (case filter (occurs_at xs ys) (rev [0..<Suc s]) of [] \<Rightarrow> - 1 | i # _ \<Rightarrow> int i)"

lemma occurs_at_fits: "occurs_at xs ys i \<Longrightarrow> ys \<noteq> [] \<Longrightarrow> i + length ys \<le> length xs"
proof -
  assume "occurs_at xs ys i" "ys \<noteq> []"
  then have "min (length ys) (length xs - i) = length ys" "0 < length ys"
    using length_take [of "length ys" "drop i xs"] by (simp_all add: occurs_at_def)
  then show ?thesis by linarith
qed

lemma occurs_at_iff:
  assumes "ys \<noteq> []"
  shows "occurs_at xs ys i \<longleftrightarrow> i + length ys \<le> length xs \<and> (\<forall>q < length ys. xs ! (i + q) = ys ! q)"
proof
  assume o: "occurs_at xs ys i"
  then have f: "i + length ys \<le> length xs" using assms by (rule occurs_at_fits)
  have "xs ! (i + q) = ys ! q" if "q < length ys" for q
  proof -
    have "xs ! (i + q) = take (length ys) (drop i xs) ! q" using f that by simp
    then show ?thesis using o by (simp add: occurs_at_def)
  qed
  with f show "i + length ys \<le> length xs \<and> (\<forall>q < length ys. xs ! (i + q) = ys ! q)" by blast
next
  assume "i + length ys \<le> length xs \<and> (\<forall>q < length ys. xs ! (i + q) = ys ! q)"
  then show "occurs_at xs ys i"
    unfolding occurs_at_def by (intro nth_equalityI) auto
qed

lemma first_occurrence_step:
  "s < length xs \<Longrightarrow> first_occurrence xs ys s = (if occurs_at xs ys s then int s else first_occurrence xs ys (Suc s))"
  by (simp add: first_occurrence_def upt_conv_Cons)

lemma first_occurrence_none:
  assumes "length xs < s + length ys" "ys \<noteq> []"
  shows "first_occurrence xs ys s = - 1"
proof -
  have "\<not> occurs_at xs ys i" if "s \<le> i" for i
    using assms that occurs_at_fits [of xs ys i] by auto
  then have "filter (occurs_at xs ys) [s..<length xs] = []" by (simp add: filter_empty_conv)
  then show ?thesis by (simp add: first_occurrence_def)
qed

text \<open>A pattern as the list of numbers the loop compares with.\<close>

definition pattern_nums :: "heap \<Rightarrow> int list + buf \<Rightarrow> int list" where
  "pattern_nums h val = (case val of Inl xs \<Rightarrow> xs | Inr v \<Rightarrow> map uint (contents h v))"

definition pattern_ok :: "heap \<Rightarrow> int list + buf \<Rightarrow> bool" where
  "pattern_ok h val = (case val of Inl xs \<Rightarrow> True | Inr v \<Rightarrow> buf_ok h v)"

lemma pattern_length_nums: "pattern_ok h val \<Longrightarrow> pattern_length val = int (length (pattern_nums h val))"
  by (auto simp: pattern_ok_def pattern_length_def pattern_nums_def split: sum.splits)

lemma read_pattern_nums:
  assumes "pattern_ok h val" "q < length (pattern_nums h val)"
  shows "read_pattern h False val (int q) = Inr (Some (pattern_nums h val ! q))"
  using assms by (auto simp: pattern_ok_def read_pattern_def pattern_nums_def read_unit_def bget_contents split: sum.splits)

lemma read_unit_text:
  assumes "buf_ok h arr" "p < b_len arr"
  shows "read_unit h False arr (int p) = Inr (Some (map uint (contents h arr) ! p))"
  using assms by (simp add: read_unit_def bget_contents)

lemma index_forward_correct:
  fixes h arr val
  defines "t \<equiv> map uint (contents h arr)" and "y \<equiv> pattern_nums h val"
  assumes "buf_ok h arr" "pattern_ok h val" "y \<noteq> []"
  shows "index_forward h False arr val (- 1) (int s) = Inr (first_occurrence t y s)
    \<and> (\<forall>p. s \<le> p \<and> p \<le> length t \<and> p - s < length y \<and> (\<forall>q < p - s. t ! (s + q) = y ! q) \<longrightarrow>
        index_forward h False arr val (int s) (int p) = Inr (first_occurrence t y s))"
proof (induction "length t - s" arbitrary: s rule: less_induct)
  case less
  note len [simp] = length_map [of uint "contents h arr", folded t_def]
  have n: "b_len arr = length t" using assms(3) by (simp add: t_def)
  have yl: "pattern_length val = int (length y)" using assms(4) by (simp add: pattern_length_nums y_def)
  have ry: "read_pattern h False val (int q) = Inr (Some (y ! q))" if "q < length y" for q
    using read_pattern_nums [OF assms(4)] that by (simp add: y_def)
  have rt: "read_unit h False arr (int p) = Inr (Some (t ! p))" if "p < length t" for p
    using read_unit_text [OF assms(3)] that n by (simp add: t_def)
  have y0: "0 < length y" using assms(5) by simp
  have next_start: "index_forward h False arr val (- 1) (int s + 1) = Inr (first_occurrence t y (Suc s))"
    if "s < length t"
    using less [of "Suc s"] that by (simp add: add.commute)
  have partial: "index_forward h False arr val (int s) (int p) = Inr (first_occurrence t y s)"
    if "s \<le> p" "p \<le> length t" "p - s < length y" "\<forall>q < p - s. t ! (s + q) = y ! q" for p
    using that
  proof (induction "length t - p" arbitrary: p rule: less_induct)
    case (less p)
    show ?case
    proof (cases "p < length t")
      case False
      then show ?thesis
        using less.prems first_occurrence_none [of t s y] assms(5) by (subst index_forward.simps) (simp add: n)
    next
      case True
      have rq: "read_pattern h False val (int p - int s) = Inr (Some (y ! (p - s)))"
        using ry [of "p - s"] less.prems by (simp add: of_nat_diff)
      show ?thesis
      proof (cases "t ! p = y ! (p - s)")
        case eq: True
        have upto: "\<forall>q < Suc p - s. t ! (s + q) = y ! q"
          using less.prems eq by (metis Suc_diff_le le_add_diff_inverse less_SucE)
        show ?thesis
        proof (cases "Suc p - s = length y")
          case True
          then have "occurs_at t y s" using upto less.prems(1) \<open>p < length t\<close> assms(5) by (simp add: occurs_at_iff)
          moreover have "int p - int s + 1 = int (length y)" using True less.prems(1) by linarith
          ultimately show ?thesis
            using \<open>p < length t\<close> less.prems(1) eq
            by (subst index_forward.simps) (simp add: n rt rq yl unit_size_def first_occurrence_step)
        next
          case False
          then have "index_forward h False arr val (int s) (int (Suc p)) = Inr (first_occurrence t y s)"
            using less.prems \<open>p < length t\<close> upto by (intro less.hyps) auto
          moreover have "int p - int s + 1 \<noteq> int (length y)" using False less.prems(1) by linarith
          ultimately show ?thesis
            using \<open>p < length t\<close> eq
            by (subst index_forward.simps) (simp add: n rt rq yl unit_size_def add.commute)
        qed
      next
        case neq: False
        have "\<not> occurs_at t y s" using neq less.prems assms(5) by (auto simp: occurs_at_iff)
        then show ?thesis
          using \<open>p < length t\<close> less.prems(1) neq next_start
          by (subst index_forward.simps) (simp add: n rt rq unit_size_def first_occurrence_step)
      qed
    qed
  qed
  have "index_forward h False arr val (- 1) (int s) = Inr (first_occurrence t y s)"
  proof (cases "s < length t")
    case False
    then show ?thesis
      using first_occurrence_none [of t s y] y0 by (subst index_forward.simps) (simp add: n)
  next
    case True
    have r0: "read_pattern h False val 0 = Inr (Some (y ! 0))" using ry [of 0] y0 by simp
    show ?thesis
    proof (cases "t ! s = y ! 0")
      case eq: True
      show ?thesis
      proof (cases "length y = 1")
        case True
        then have "occurs_at t y s" using eq \<open>s < length t\<close> assms(5) by (simp add: occurs_at_iff)
        then show ?thesis
          using eq True \<open>s < length t\<close>
          by (subst index_forward.simps) (simp add: n rt r0 yl unit_size_def first_occurrence_step)
      next
        case False
        then have "1 < length y" using y0 by linarith
        then have "index_forward h False arr val (int s) (int (Suc s)) = Inr (first_occurrence t y s)"
          using \<open>s < length t\<close> eq by (intro partial) auto
        then show ?thesis
          using False \<open>s < length t\<close> eq
          by (subst index_forward.simps) (simp add: n rt r0 yl unit_size_def add.commute)
      qed
    next
      case neq: False
      have "\<not> occurs_at t y s" using neq y0 assms(5) by (auto simp: occurs_at_iff)
      then show ?thesis
        using \<open>s < length t\<close> neq next_start
        by (subst index_forward.simps) (simp add: n rt r0 unit_size_def first_occurrence_step)
    qed
  qed
  with partial show ?case by blast
qed

lemma all_from_Suc: "q < n \<Longrightarrow> (\<forall>k < n. q \<le> k \<longrightarrow> P k) \<longleftrightarrow> P q \<and> (\<forall>k < n. Suc q \<le> k \<longrightarrow> P k)"
  by (auto simp: Suc_le_eq order_le_less)

lemma match_from_correct:
  fixes h arr val
  defines "t \<equiv> map uint (contents h arr)" and "y \<equiv> pattern_nums h val"
  assumes "buf_ok h arr" "pattern_ok h val" "p + length y \<le> length t" "q \<le> length y"
  shows "match_from h False arr val (int p) (int q) = Inr (\<forall>k < length y. q \<le> k \<longrightarrow> t ! (p + k) = y ! k)"
  using assms(6)
proof (induction "length y - q" arbitrary: q)
  case 0
  then have "\<not> q < length y" by simp
  then show ?case
    using 0 pattern_length_nums [OF assms(4)] by (subst match_from.simps) (auto simp: y_def)
next
  case (Suc m)
  then have q: "q < length y" by simp
  have "read_unit h False arr (int p + int q) = Inr (Some (t ! (p + q)))"
    using read_unit_text [OF assms(3), of "p + q"] q assms(3,5) by (simp add: t_def)
  moreover have "read_pattern h False val (int q) = Inr (Some (y ! q))"
    using read_pattern_nums [OF assms(4)] q by (simp add: y_def)
  moreover have "pattern_length val = int (length y)" using pattern_length_nums [OF assms(4)] by (simp add: y_def)
  ultimately have "match_from h False arr val (int p) (int q) =
      (if t ! (p + q) \<noteq> y ! q then Inr False else match_from h False arr val (int p) (int (Suc q)))"
    using q by (subst match_from.simps) (simp add: unit_size_def add.commute)
  moreover have "match_from h False arr val (int p) (int (Suc q)) =
      Inr (\<forall>k < length y. Suc q \<le> k \<longrightarrow> t ! (p + k) = y ! k)"
    using Suc q by (intro Suc.hyps(1)) auto
  ultimately show ?case
    using all_from_Suc [OF q, of "\<lambda>k. t ! (p + k) = y ! k"] by (cases "t ! (p + q) = y ! q") (simp_all only: if_True if_False simp_thms)
qed

lemma last_occurrence_Suc:
  "last_occurrence xs ys (Suc s) = (if occurs_at xs ys (Suc s) then int (Suc s) else last_occurrence xs ys s)"
  by (simp add: last_occurrence_def)

lemma last_occurrence_0: "last_occurrence xs ys 0 = (if occurs_at xs ys 0 then 0 else - 1)"
  by (simp add: last_occurrence_def)

lemma index_backward_correct:
  fixes h arr val
  defines "t \<equiv> map uint (contents h arr)" and "y \<equiv> pattern_nums h val"
  assumes "buf_ok h arr" "pattern_ok h val" "y \<noteq> []" "p + length y \<le> length t"
  shows "index_backward h False arr val (int p) = Inr (of_int (last_occurrence t y p))"
  using assms(6)
proof (induction p)
  case 0
  have "match_from h False arr val 0 0 = Inr (occurs_at t y 0)"
    using match_from_correct [OF assms(3,4), of 0 0, folded t_def y_def] 0 assms(5) by (simp add: occurs_at_iff)
  then show ?case
    by (subst index_backward.simps) (simp add: index_backward.simps [of _ _ _ _ "- 1"] last_occurrence_0 unit_size_def)
next
  case (Suc p)
  have "match_from h False arr val (int (Suc p)) 0 = Inr (occurs_at t y (Suc p))"
    using match_from_correct [OF assms(3,4), of "Suc p" 0, folded t_def y_def] Suc.prems assms(5)
    by (simp add: occurs_at_iff)
  then show ?case
    using Suc by (subst index_backward.simps) (simp add: last_occurrence_Suc unit_size_def)
qed

lemma last_occurrence_cap:
  assumes "ys \<noteq> []" "length xs < s + length ys" "length ys \<le> length xs"
  shows "last_occurrence xs ys s = last_occurrence xs ys (length xs - length ys)"
  using assms(2)
proof (induction s)
  case (Suc s)
  have "\<not> occurs_at xs ys (Suc s)" using occurs_at_fits [of xs ys "Suc s"] Suc.prems assms(1) by auto
  moreover have "last_occurrence xs ys s = last_occurrence xs ys (length xs - length ys)"
  proof (cases "length xs < s + length ys")
    case False
    then have "s = length xs - length ys" using Suc.prems by linarith
    then show ?thesis by simp
  qed (rule Suc.IH)
  ultimately show ?case by (simp add: last_occurrence_Suc)
qed (use assms(3) in simp)

lemma last_occurrence_none:
  assumes "ys \<noteq> []" "length xs < length ys"
  shows "last_occurrence xs ys s = - 1"
proof -
  have "\<not> occurs_at xs ys i" for i using assms occurs_at_fits [of xs ys i] by auto
  then have "filter (occurs_at xs ys) (rev [0..<Suc s]) = []" by (simp add: filter_empty_conv)
  then show ?thesis by (simp add: last_occurrence_def)
qed

lemma occurs_at_map_inj: "inj f \<Longrightarrow> occurs_at (map f xs) (map f ys) i \<longleftrightarrow> occurs_at xs ys i"
  by (simp add: occurs_at_def drop_map take_map inj_map_eq_map)

lemma occurrence_map_inj:
  assumes "inj f"
  shows "first_occurrence (map f xs) (map f ys) s = first_occurrence xs ys s"
    and "last_occurrence (map f xs) (map f ys) s = last_occurrence xs ys s"
proof -
  have "occurs_at (map f xs) (map f ys) = occurs_at xs ys"
    using occurs_at_map_inj [OF assms] by (simp add: fun_eq_iff)
  then show "first_occurrence (map f xs) (map f ys) s = first_occurrence xs ys s"
    "last_occurrence (map f xs) (map f ys) s = last_occurrence xs ys s"
    by (simp_all add: first_occurrence_def last_occurrence_def)
qed

lemma start_index_bounds: "start_index len pos dir = Some off \<Longrightarrow> 0 < len \<Longrightarrow> 0 \<le> off \<and> off < len"
  by (auto simp: start_index_def Let_def split: search_pos.splits if_splits)

lemma inj_uint [simp]: "inj (uint :: 'a :: len word \<Rightarrow> int)"
  by (rule injI) (rule word_uint_eqI)

lemma backward_search:
  assumes "buf_ok h b" "pattern_ok h val" "pattern_nums h val \<noteq> []" "0 \<le> off" "\<not> wide_encoding enc"
  shows "arrayIndexOf h b val off enc False =
    Inr (of_int (last_occurrence (map uint (contents h b)) (pattern_nums h val) (nat off)))"
proof -
  let ?t = "map uint (contents h b)" and ?y = "pattern_nums h val"
  have n: "int (b_len b) = int (length ?t)" using assms(1) by simp
  note e = arrayIndexOf_def Let_def pattern_length_nums [OF assms(2)] n assms(5)
  show ?thesis
  proof (cases "length ?t < nat off + length ?y")
    case False
    then have "\<not> off + int (length ?y) > int (length ?t)" using assms(4) by linarith
    moreover have "index_backward h False b val off = Inr (of_int (last_occurrence ?t ?y (nat off)))"
      using index_backward_correct [OF assms(1,2,3), of "nat off"] False assms(4) by simp
    ultimately show ?thesis by (simp only: e if_False simp_thms)
  next
    case over: True
    then have o: "off + int (length ?y) > int (length ?t)" using assms(4) by linarith
    show ?thesis
    proof (cases "length ?y \<le> length ?t")
      case True
      have "index_backward h False b val (int (length ?t - length ?y)) =
          Inr (of_int (last_occurrence ?t ?y (length ?t - length ?y)))"
        using True by (intro index_backward_correct [OF assms(1,2,3)]) simp
      then have "index_backward h False b val (int (length ?t) - int (length ?y)) =
          Inr (of_int (last_occurrence ?t ?y (nat off)))"
        using last_occurrence_cap [OF assms(3) over True] True by (simp only: of_nat_diff)
      then show ?thesis using o by (simp only: e if_True if_False simp_thms)
    next
      case False
      then have "index_backward h False b val (int (length ?t) - int (length ?y)) = Inr (- 1)"
        by (subst index_backward.simps) simp
      moreover have "last_occurrence ?t ?y (nat off) = - 1"
        using False assms(3) by (intro last_occurrence_none) auto
      ultimately show ?thesis using o by (simp only: e if_True if_False simp_thms) simp
    qed
  qed
qed

lemma forward_search:
  assumes "buf_ok h b" "pattern_ok h val" "pattern_nums h val \<noteq> []" "0 \<le> off" "\<not> wide_encoding enc"
  shows "arrayIndexOf h b val off enc True =
    Inr (of_int (first_occurrence (map uint (contents h b)) (pattern_nums h val) (nat off)))"
  using index_forward_correct [OF assms(1-3), of "nat off"] assms(4,5) by (simp add: arrayIndexOf_def)

lemma buffer_pattern:
  "buf_ok h v \<Longrightarrow> pattern_ok h (Inr v)" "pattern_nums h (Inr v) = map uint (contents h v)"
  by (simp_all add: pattern_ok_def pattern_nums_def)


definition demo_two :: heap where
  "demo_two = \<lparr>h_blocks = [[0, 97, 0, 97, 0, 98], [0, 97, 0, 98], [0, 97, 0]], h_next = 3, h_typed = True\<rparr>"

definition demo_text :: buf where
  "demo_text = \<lparr>b_id = 0, b_arr = 0, b_off = 0, b_len = 6\<rparr>"

definition demo_pattern :: buf where
  "demo_pattern = \<lparr>b_id = 1, b_arr = 1, b_off = 0, b_len = 4\<rparr>"

definition demo_odd :: buf where
  "demo_odd = \<lparr>b_id = 2, b_arr = 2, b_off = 0, b_len = 3\<rparr>"

definition no_b64 :: base64js where
  "no_b64 = \<lparr>toByteArray = \<lambda>s. Inr [], fromByteArray = \<lambda>bs. []\<rparr>"


text \<open>
  with a two-byte encoding \<open>lastIndexOf\<close> returns the position in units of two bytes where \<open>indexOf\<close>
  returns it in bytes: the same single occurrence at byte 2 is reported as 1 and as 2.
\<close>

theorem lastIndexOf_counts_units:
  "lastIndexOf no_b64 demo_two demo_text (SBuffer demo_pattern) SUndef (Some (jstr ''ucs2'')) = Inr 1
   \<and> indexOf no_b64 demo_two demo_text (SBuffer demo_pattern) SUndef (Some (jstr ''ucs2'')) = Inr 2"
  by code_simp

text \<open>
  with a two-byte encoding \<open>indexOf\<close> throws on a buffer of odd length instead of returning -1 when
  it reaches the last, incomplete unit.
\<close>

theorem indexOf_odd_length_throws:
  "indexOf no_b64 demo_two demo_odd (SBuffer demo_pattern) SUndef (Some (jstr ''ucs2'')) =
     Inl (RangeError ''Trying to access beyond buffer length'')
   \<and> indexOf no_b64 demo_two demo_odd (SBuffer demo_pattern) SUndef None = Inr (- 1)"
  by code_simp

text \<open>
  \<open>fill\<close> with a string and an encoding stores the UTF-8 bytes of the decoded text, not the decoded
  bytes: filling with the hexadecimal text of the byte 255 stores the three bytes of U+FFFD.
\<close>

theorem fill_reencodes_bytes:
  "map_sum id (\<lambda>h. contents h demo_buf) (fill no_b64 demo_heap demo_buf (FString (jstr ''ff'')) (PString (jstr ''hex'')) PUndef None)
     = Inr [239, 191, 189, 239]
   \<and> map_sum id (\<lambda>(b, h). contents h b) (fromString no_b64 demo_heap (jstr ''ff'') (Some (jstr ''hex''))) = Inr [255]"
  by code_simp

section \<open>Filling stores the pattern\<close>

lemma fill_number_eq: "fill_number h b v i n = store_all h b i (replicate n (Some v))"
  by (induction h b v i n rule: fill_number.induct) simp_all

lemma fill_pattern_buffer:
  assumes "buf_ok h src" "0 < b_len src" "b_arr src \<noteq> b_arr b"
  shows "fill_pattern h b (Inr src) st i n =
    store_all h b (int i + st) (map (\<lambda>k. Some (uint (contents h src ! (k mod b_len src)))) [i..<i + n])"
  using assms(1)
proof (induction n arbitrary: h i)
  case (Suc n)
  have m: "i mod b_len src < b_len src" using assms(2) by simp
  then have g: "bget h src (int (i mod b_len src)) = Some (uint (contents h src ! (i mod b_len src)))"
    using Suc.prems by (simp add: bget_contents)
  let ?h = "bset h b (int i + st) (Some (uint (contents h src ! (i mod b_len src))))"
  have c: "contents ?h src = contents h src" using assms(3) by (simp add: contents_bset_other)
  have "fill_pattern ?h b (Inr src) st (Suc i) n =
      store_all ?h b (int (Suc i) + st) (map (\<lambda>k. Some (uint (contents ?h src ! (k mod b_len src)))) [Suc i..<Suc i + n])"
    using Suc.prems by (intro Suc.IH) simp
  moreover have "int (Suc i) + st = int i + st + 1" by simp
  moreover have "[i..<i + Suc n] = i # [Suc i..<Suc i + n]" by (simp add: upt_conv_Cons)
  ultimately show ?case using assms(2) by (simp add: g c del: upt_Suc of_nat_Suc)
qed simp



end
