(* ===== verification/Js_Number.thy ===== *)
theory Js_Number
  imports Js_Prelude Complex_Main "HOL-Library.Log_Nat"
begin

text \<open>
  The Number type of the language, as far as the YAML code uses it.

  A finite double is represented by the exact rational it stands for; negative zero, the
  infinities and \<open>NaN\<close> are constructors of their own.  \<open>rnd\<close> is rounding to the nearest
  double, ties to even, with gradual underflow and overflow to infinity; the arithmetic
  operators and the conversions from text are the exact operation followed by \<open>rnd\<close>.
  \<open>num_toString\<close> is the shortest decimal text that rounds back to the number.
\<close>

section \<open>Doubles\<close>

datatype number = Fin rat | NegZero | PInf | NInf | NaN

definition pow2 :: "int \<Rightarrow> rat" where
  "pow2 e = (if 0 \<le> e then 2 ^ nat e else 1 / 2 ^ nat (- e))"

definition pow10 :: "int \<Rightarrow> rat" where
  "pow10 e = (if 0 \<le> e then 10 ^ nat e else 1 / 10 ^ nat (- e))"

definition ilog2 :: "rat \<Rightarrow> int" where
  "ilog2 a = (let (p, d) = quotient_of a; k = bitlen p - bitlen d
              in if pow2 k \<le> a then k else k - 1)"

definition round_even :: "rat \<Rightarrow> int" where
  "round_even x =
     (let f = \<lfloor>x\<rfloor>; r = x - of_int f in
      if r < 1 / 2 then f else if 1 / 2 < r then f + 1
      else if even f then f else f + 1)"

definition rnd :: "rat \<Rightarrow> number" where
  "rnd q =
     (if q = 0 then Fin 0 else
      let a = \<bar>q\<bar>; e = max (- 1074) (ilog2 a - 52);
          r = of_int (round_even (a / pow2 e)) * pow2 e
      in if pow2 1024 \<le> r then (if q < 0 then NInf else PInf)
         else if r = 0 then (if q < 0 then NegZero else Fin 0)
         else Fin (sgn q * r))"

section \<open>Arithmetic\<close>

definition num_neg :: "number \<Rightarrow> number" where
  "num_neg x =
     (case x of Fin q \<Rightarrow> if q = 0 then NegZero else Fin (- q)
              | NegZero \<Rightarrow> Fin 0 | PInf \<Rightarrow> NInf | NInf \<Rightarrow> PInf | NaN \<Rightarrow> NaN)"

text \<open>\<open>sign * x\<close> for a \<open>sign\<close> that is \<open>1\<close> or \<open>-1\<close>.\<close>

definition num_sign :: "bool \<Rightarrow> number \<Rightarrow> number" where
  "num_sign neg x = (if neg then num_neg x else x)"

fun num_add :: "number \<Rightarrow> number \<Rightarrow> number" where
  "num_add (Fin p) (Fin q) = rnd (p + q)"
| "num_add NaN y = NaN"
| "num_add x NaN = NaN"
| "num_add PInf NInf = NaN"
| "num_add NInf PInf = NaN"
| "num_add PInf y = PInf"
| "num_add NInf y = NInf"
| "num_add x PInf = PInf"
| "num_add x NInf = NInf"
| "num_add NegZero y = y"
| "num_add x NegZero = x"

definition num_mag :: "number \<Rightarrow> rat" where
  "num_mag x = (case x of Fin q \<Rightarrow> \<bar>q\<bar> | _ \<Rightarrow> 0)"

definition num_negative :: "number \<Rightarrow> bool" where
  "num_negative x = (case x of Fin q \<Rightarrow> q < 0 | NegZero \<Rightarrow> True | NInf \<Rightarrow> True | _ \<Rightarrow> False)"

definition num_mul :: "number \<Rightarrow> number \<Rightarrow> number" where
  "num_mul x y =
     (let neg = (num_negative x \<noteq> num_negative y); inf = (\<lambda>z. z = PInf \<or> z = NInf);
          zero = (\<lambda>z. z = Fin 0 \<or> z = NegZero)
      in if x = NaN \<or> y = NaN then NaN
         else if inf x \<or> inf y then
           (if zero x \<or> zero y then NaN else if neg then NInf else PInf)
         else num_sign neg (rnd (num_mag x * num_mag y)))"

text \<open>\<open>x % 1 === 0\<close>, which holds of negative zero too and fails for infinities and \<open>NaN\<close>.\<close>

definition num_integral :: "number \<Rightarrow> bool" where
  "num_integral x = (case x of Fin q \<Rightarrow> q = of_int \<lfloor>q\<rfloor> | NegZero \<Rightarrow> True | _ \<Rightarrow> False)"

section \<open>Text to numbers\<close>

definition digit_val :: "code_unit \<Rightarrow> int option" where
  "digit_val c =
     (let n = uint c in
      if 48 \<le> n \<and> n \<le> 57 then Some (n - 48)
      else if 65 \<le> n \<and> n \<le> 90 then Some (n - 55)
      else if 97 \<le> n \<and> n \<le> 122 then Some (n - 87) else None)"

definition is_digit :: "int \<Rightarrow> code_unit \<Rightarrow> bool" where
  "is_digit radix c = (case digit_val c of None \<Rightarrow> False | Some d \<Rightarrow> d < radix)"

definition digits_value :: "int \<Rightarrow> jsstring \<Rightarrow> int" where
  "digits_value radix s = foldl (\<lambda>a c. a * radix + the (digit_val c)) 0 s"

text \<open>
  \<open>parseInt(s, radix)\<close> for the radices 2, 8, 10 and 16 and a text without leading blanks:
  an optional sign, the prefix \<open>0x\<close> in radix 16, then the longest run of digits.
\<close>

definition strip_sign :: "jsstring \<Rightarrow> bool \<times> jsstring" where
  "strip_sign s =
     (case s of [] \<Rightarrow> (False, [])
      | c # t \<Rightarrow> if c = 45 then (True, t) else if c = 43 then (False, t) else (False, s))"

definition strip_0x :: "int \<Rightarrow> jsstring \<Rightarrow> jsstring" where
  "strip_0x radix s =
     (case s of a # b # t \<Rightarrow> if radix = 16 \<and> a = 48 \<and> (b = 120 \<or> b = 88) then t else s | _ \<Rightarrow> s)"

definition parseInt :: "jsstring \<Rightarrow> int \<Rightarrow> number" where
  "parseInt s radix =
     (let (neg, t) = strip_sign s; ds = takeWhile (is_digit radix) (strip_0x radix t)
      in if ds = [] then NaN else num_sign neg (rnd (of_int (digits_value radix ds))))"

text \<open>
  \<open>parseFloat(s)\<close> for a text without leading blanks: the longest prefix that is a decimal
  literal (or \<open>Infinity\<close>), or \<open>NaN\<close>.
\<close>

definition exponent_part :: "jsstring \<Rightarrow> int" where
  "exponent_part s =
     (case s of [] \<Rightarrow> 0
      | c # t \<Rightarrow>
          if c = 101 \<or> c = 69 then
            (let (neg, u) = strip_sign t; ds = takeWhile (is_digit 10) u
             in if neg then - digits_value 10 ds else digits_value 10 ds)
          else 0)"

definition parseFloat :: "jsstring \<Rightarrow> number" where
  "parseFloat s =
     (let (neg, t) = strip_sign s;
          ip = takeWhile (is_digit 10) t; r = dropWhile (is_digit 10) t;
          (fp, r') = (if r \<noteq> [] \<and> hd r = 46
                      then (takeWhile (is_digit 10) (tl r), dropWhile (is_digit 10) (tl r))
                      else ([], r))
      in if take 8 t = jstr ''Infinity'' then (if neg then NInf else PInf)
         else if ip = [] \<and> fp = [] then NaN
         else num_sign neg (rnd (of_int (digits_value 10 (ip @ fp))
                                 * pow10 (exponent_part r' - int (length fp)))))"

section \<open>Numbers to text\<close>

definition digit_char :: "int \<Rightarrow> code_unit" where
  "digit_char d = (if d < 10 then word_of_int (48 + d) else word_of_int (87 + d))"

function radix_text :: "int \<Rightarrow> int \<Rightarrow> jsstring" where
  "radix_text radix n =
     (if radix < 2 \<or> n < radix then [digit_char n]
      else radix_text radix (n div radix) @ [digit_char (n mod radix)])"
  by pat_completeness auto

termination
  by (relation "measure (\<lambda>(radix, n). nat n)") (auto simp: zdiv_mono2 int_div_less_self)

declare radix_text.simps [simp del]

definition int_text :: "int \<Rightarrow> int \<Rightarrow> jsstring" where
  "int_text radix n =
     (if n < 0 then 45 # radix_text radix (- n) else radix_text radix n)"

definition ilog10 :: "rat \<Rightarrow> int" where
  "ilog10 a =
     (let k = ((ilog2 a) * 1233) div 4096 in
      if a < pow10 k then k - 1 else if pow10 (k + 1) \<le> a then k + 1 else k)"

text \<open>The decimal digits \<open>s\<close> and exponent \<open>n\<close> of the shortest text denoting \<open>a\<close>.\<close>

definition digits_of :: "rat \<Rightarrow> nat \<Rightarrow> int \<times> int" where
  "digits_of a k =
     (let n = ilog10 a + 1; s = round_even (a / pow10 (n - int k))
      in if s = 10 ^ k then (10 ^ (k - 1), n + 1) else (s, n))"

fun shortest_from :: "rat \<Rightarrow> nat \<Rightarrow> nat \<Rightarrow> nat \<times> int \<times> int" where
  "shortest_from a k 0 = (k, digits_of a k)"
| "shortest_from a k (Suc m) =
     (let (s, n) = digits_of a k in
      if rnd (of_int s * pow10 (n - int k)) = Fin a then (k, s, n)
      else shortest_from a (k + 1) m)"

definition pos_toString :: "rat \<Rightarrow> jsstring" where
  "pos_toString a =
     (let (k, s, n) = shortest_from a 1 16; ds = radix_text 10 s in
      if int k \<le> n \<and> n \<le> 21 then ds @ replicate (nat (n - int k)) 48
      else if 0 < n \<and> n \<le> 21 then take (nat n) ds @ 46 # drop (nat n) ds
      else if - 6 < n \<and> n \<le> 0 then 48 # 46 # replicate (nat (- n)) 48 @ ds
      else (let ex = n - 1; et = (if ex < 0 then 45 else 43) # radix_text 10 \<bar>ex\<bar>
            in if k = 1 then ds @ 101 # et else hd ds # 46 # tl ds @ 101 # et))"

definition num_toString :: "number \<Rightarrow> jsstring" where
  "num_toString x =
     (case x of NaN \<Rightarrow> jstr ''NaN'' | PInf \<Rightarrow> jstr ''Infinity'' | NInf \<Rightarrow> jstr ''-Infinity''
      | NegZero \<Rightarrow> jstr ''0''
      | Fin q \<Rightarrow> if q = 0 then jstr ''0''
                 else if q < 0 then 45 # pos_toString (- q) else pos_toString q)"

section \<open>Digits\<close>

lemma digit_val_char: "0 \<le> d \<Longrightarrow> d < 36 \<Longrightarrow> digit_val (digit_char d) = Some d"
proof (cases "d < 10")
  case True
  assume "0 \<le> d"
  then have "uint (word_of_int (48 + d) :: code_unit) = 48 + d"
    using True by (simp add: uint_word_of_int del: of_int_add)
  then show ?thesis
    using True \<open>0 \<le> d\<close> by (simp add: digit_val_def digit_char_def Let_def del: of_int_add)
next
  case False
  assume "d < 36"
  then have "uint (word_of_int (87 + d) :: code_unit) = 87 + d"
    using False by (simp add: uint_word_of_int del: of_int_add)
  then show ?thesis
    using False \<open>d < 36\<close> by (simp add: digit_val_def digit_char_def Let_def del: of_int_add)
qed

lemma is_digit_char: "0 \<le> d \<Longrightarrow> d < radix \<Longrightarrow> radix \<le> 36 \<Longrightarrow> is_digit radix (digit_char d)"
  by (simp add: is_digit_def digit_val_char)

lemma digits_value_snoc [simp]:
  "digits_value radix (s @ [c]) = digits_value radix s * radix + the (digit_val c)"
  by (simp add: digits_value_def)

lemma digits_value_Nil [simp]: "digits_value radix [] = 0"
  by (simp add: digits_value_def)

lemma radix_text_nonempty [simp]: "radix_text radix n \<noteq> []"
  by (subst radix_text.simps) auto

lemma radix_text_digits:
  assumes "2 \<le> radix" "radix \<le> 36" "0 \<le> n"
  shows "list_all (is_digit radix) (radix_text radix n) \<and> digits_value radix (radix_text radix n) = n"
  using assms
proof (induction radix n rule: radix_text.induct)
  case (1 radix n)
  show ?case
  proof (cases "n < radix")
    case True
    then show ?thesis
      using 1 by (simp add: radix_text.simps [of radix n] digits_value_def is_digit_def digit_val_char)
  next
    case False
    have m: "0 \<le> n mod radix" "n mod radix < radix"
      using 1(2) by simp_all
    have ih: "list_all (is_digit radix) (radix_text radix (n div radix)) \<and>
        digits_value radix (radix_text radix (n div radix)) = n div radix"
      using 1 False by (simp add: pos_imp_zdiv_nonneg_iff)
    have v: "digit_val (digit_char (n mod radix)) = Some (n mod radix)"
      using m 1(3) by (intro digit_val_char) linarith+
    then show ?thesis
      using ih 1(2-3) False is_digit_char [OF m 1(3)] 
      by (simp add: radix_text.simps [of radix n] v)
  qed
qed

lemma radix_text_append_zero:
  assumes "2 \<le> radix" "0 < n"
  shows "radix_text radix (n * radix) = radix_text radix n @ [digit_char 0]"
proof -
  have "radix \<le> n * radix"
    using assms mult_right_mono [of 1 n radix] by simp
  then show ?thesis
    using assms by (simp add: radix_text.simps [of radix "n * radix"])
qed

lemma radix_text_append_zeros:
  assumes "2 \<le> radix" "0 < n"
  shows "radix_text radix (n * radix ^ k) = radix_text radix n @ replicate k (digit_char 0)"
proof (induction k)
  case (Suc k)
  have "radix_text radix (n * radix ^ k * radix) = radix_text radix (n * radix ^ k) @ [digit_char 0]"
    using assms by (intro radix_text_append_zero) simp_all
  then show ?case
    using Suc by (simp add: ac_simps replicate_append_same)
qed simp

lemma takeWhile_is_digit_text:
  assumes "2 \<le> radix" "radix \<le> 36" "0 \<le> n"
  shows "takeWhile (is_digit radix) (radix_text radix n) = radix_text radix n"
  using radix_text_digits [OF assms] by (simp add: takeWhile_eq_all_conv list_all_iff)

section \<open>Rounding leaves the integers up to \<open>2 ^ 53\<close> alone\<close>

lemma round_even_of_int [simp]: "round_even (of_int n) = n"
  by (simp add: round_even_def)

lemma pow2_of_nat: "pow2 (int n) = 2 ^ n"
  by (simp add: pow2_def)

lemma pow10_of_nat: "pow10 (int n) = 10 ^ n"
  by (simp add: pow10_def)

lemma bitlen_pos: "0 < n \<Longrightarrow> 0 < bitlen n"
  using bitlen_bounds [of n] by (cases "bitlen n \<le> 0") auto

lemma bitlen_1: "bitlen 1 = 1"
  by code_simp

lemma ilog2_of_int:
  assumes "0 < n"
  shows "ilog2 (of_int n) = bitlen n - 1"
proof -
  have b: "0 < bitlen n"
    using assms by (rule bitlen_pos)
  have "2 ^ nat (bitlen n - 1) \<le> n"
    using bitlen_bounds [of n] assms by simp
  then have "(2 :: rat) ^ nat (bitlen n - 1) \<le> of_int n"
    by (metis of_int_le_iff of_int_numeral of_int_power)
  then show ?thesis
    using b by (simp add: ilog2_def pow2_def bitlen_1 Let_def)
qed

lemma rnd_scaled:
  assumes "0 < n" "e = max (- 1074) (ilog2 (of_int n) - 52)"
    and "of_int n / pow2 e = of_int m" "n < 2 ^ 1024"
  shows "rnd (of_int n) = Fin (of_int n)" "rnd (of_int (- n)) = Fin (of_int (- n))"
proof -
  have p: "pow2 e > 0"
    by (simp add: pow2_def)
  then have r: "of_int (round_even (of_int n / pow2 e)) * pow2 e = of_int n"
    using assms(3) by (simp add: divide_eq_eq)
  have "(of_int n :: rat) < of_int (2 ^ 1024)"
    using assms(4) by (simp only: of_int_less_iff)
  then have lt: "\<not> pow2 1024 \<le> (of_int n :: rat)"
    by (simp add: pow2_def)
  show "rnd (of_int n) = Fin (of_int n)"
    using assms(1) r lt by (simp add: rnd_def Let_def assms(2) [symmetric])
  show "rnd (of_int (- n)) = Fin (of_int (- n))"
    using assms(1) r lt by (simp add: rnd_def Let_def assms(2) [symmetric])
qed

lemma rnd_of_pos_int:
  assumes "0 < n" "n \<le> 2 ^ 53"
  shows "rnd (of_int n) = Fin (of_int n) \<and> rnd (of_int (- n)) = Fin (of_int (- n))"
proof (cases "n = 2 ^ 53")
  case True
  have "rnd (of_int (2 ^ 53)) = Fin (of_int (2 ^ 53)) \<and> rnd (of_int (- (2 ^ 53))) = Fin (of_int (- (2 ^ 53)))"
    by code_simp
  then show ?thesis by (simp add: True)
next
  case False
  define e where "e = max (- 1074) (ilog2 (of_int n) - 52)"
  have "2 ^ nat (bitlen n - 1) \<le> n"
    using bitlen_bounds [of n] assms by simp
  then have "(2 :: int) ^ nat (bitlen n - 1) < 2 ^ 53"
    using assms False by linarith
  then have "nat (bitlen n - 1) < 53"
    by (simp only: power_strict_increasing_iff)
  then have b: "bitlen n \<le> 53"
    by simp
  have "0 < bitlen n"
    using assms(1) by (rule bitlen_pos)
  then have e: "e = bitlen n - 53"
    using assms(1) by (simp add: e_def ilog2_of_int max_def)
  have "of_int n / pow2 e = (of_int (n * 2 ^ nat (53 - bitlen n)) :: rat)"
    using b by (auto simp: e pow2_def)
  moreover have "n < 2 ^ 1024"
    using assms(2) by (rule order.strict_trans1) simp
  ultimately show ?thesis
    using rnd_scaled [OF assms(1) e_def] by blast
qed

lemma rnd_of_int:
  assumes "\<bar>n\<bar> \<le> 2 ^ 53"
  shows "rnd (of_int n) = Fin (of_int n)"
proof (cases n "0 :: int" rule: linorder_cases)
  case less
  then show ?thesis
    using rnd_of_pos_int [of "- n"] assms by simp
next
  case equal
  then show ?thesis by (simp add: rnd_def)
next
  case greater
  then show ?thesis
    using rnd_of_pos_int [of n] assms by simp
qed

section \<open>Decimal text of the integers below \<open>2 ^ 53\<close>\<close>

lemma log_estimate:
  assumes "0 \<le> b" "b \<le> (53 :: int)"
  shows "10 ^ nat (b * 1233 div 4096 - 1) \<le> (2 :: int) ^ nat b \<and>
         (2 :: int) ^ nat (b + 1) \<le> 10 ^ nat (b * 1233 div 4096 + 2)"
proof -
  have "list_all (\<lambda>b. 10 ^ nat (b * 1233 div 4096 - 1) \<le> (2 :: int) ^ nat b \<and>
      (2 :: int) ^ nat (b + 1) \<le> 10 ^ nat (b * 1233 div 4096 + 2)) [0..53]"
    by code_simp
  then show ?thesis
    using assms by (simp only: list_all_iff set_upto atLeastAtMost_iff)
qed

lemma of_int_pow_le: "(of_int x :: rat) < 10 ^ k \<longleftrightarrow> x < 10 ^ k"
  "(10 :: rat) ^ k \<le> of_int x \<longleftrightarrow> 10 ^ k \<le> x"
  by (metis of_int_less_iff of_int_numeral of_int_power)
    (metis of_int_le_iff of_int_numeral of_int_power)

lemma ilog10_of_int:
  assumes "0 < a" "a \<le> 2 ^ 53"
  obtains L :: nat where "ilog10 (of_int a) = int L" "10 ^ L \<le> a" "a < 10 ^ Suc L"
proof -
  define b where "b = bitlen a - 1"
  define k where "k = b * 1233 div 4096"
  have b0: "0 \<le> b"
    using bitlen_pos [OF assms(1)] by (simp add: b_def)
  have lo: "2 ^ nat b \<le> a" and hi: "a < 2 ^ nat (b + 1)"
    using bitlen_bounds [of a] assms(1) by (simp_all add: b_def)
  have "(2 :: int) ^ nat b \<le> 2 ^ 53"
    using lo assms(2) by linarith
  then have "nat b \<le> 53"
    by (rule power_le_imp_le_exp [rotated]) simp
  then have b53: "b \<le> 53"
    by simp
  have k0: "0 \<le> k"
    using b0 by (simp add: k_def)
  note est = log_estimate [OF b0 b53, folded k_def]
  have a1: "10 ^ nat (k - 1) \<le> a" and a2: "a < 10 ^ nat (k + 2)"
    using est lo hi by linarith+
  have log: "ilog10 (of_int a) =
      (if a < 10 ^ nat k then k - 1 else if 10 ^ nat (k + 1) \<le> a then k + 1 else k)"
    using k0 b0 assms(1)
    by (simp add: ilog10_def ilog2_of_int b_def [symmetric] k_def [symmetric] Let_def pow10_def
        of_int_pow_le)
  consider "a < 10 ^ nat k" | "10 ^ nat k \<le> a" "a < 10 ^ nat (k + 1)" | "10 ^ nat (k + 1) \<le> a"
    by linarith
  then show thesis
  proof cases
    case 1
    then have "k \<noteq> 0"
      using assms(1) by (intro notI) simp
    then show thesis
      using that [of "nat (k - 1)"] 1 a1 k0 log by (simp add: Suc_nat_eq_nat_zadd1)
  next
    case 2
    then show thesis
      using that [of "nat k"] k0 log by (simp add: Suc_nat_eq_nat_zadd1 add.commute)
  next
    case 3
    have "\<not> a < 10 ^ nat k"
    proof -
      have "(10 :: int) ^ nat k \<le> 10 ^ nat (k + 1)"
        using k0 by (intro power_increasing) simp_all
      then show ?thesis
        using 3 by linarith
    qed
    then show thesis
      using that [of "nat (k + 1)"] 3 a2 k0 log by (simp add: Suc_nat_eq_nat_zadd1 add.commute)
  qed
qed

lemma round_even_ge: "of_int c \<le> x \<Longrightarrow> c \<le> round_even x"
  using le_floor_iff [of c x] by (auto simp: round_even_def Let_def simp del: le_floor_iff)

lemma rnd_above:
  assumes "2 ^ 53 < m" "0 < a" "a < 2 ^ 53"
  shows "rnd (of_int m) \<noteq> Fin (of_int a)"
proof -
  define e where "e = max (- 1074) (ilog2 (of_int m) - 52)"
  have m0: "0 < m"
    using assms(1) by (rule order.strict_trans [rotated]) simp
  have lo: "2 ^ nat (bitlen m - 1) \<le> m" and hi: "m < 2 ^ nat (bitlen m)"
    using bitlen_bounds [of m] m0 by simp_all
  have "(2 :: int) ^ 53 < 2 ^ nat (bitlen m)"
    using hi assms(1) by linarith
  then have "53 < nat (bitlen m)"
    by (rule power_less_imp_less_exp [rotated]) simp
  then have b: "54 \<le> bitlen m"
    by simp
  then have e: "e = bitlen m - 53"
    by (simp add: e_def ilog2_of_int [OF m0] max_def)
  have "nat (bitlen m - 1) = nat e + 52"
    using e b by simp
  then have "2 ^ nat e * 2 ^ 52 \<le> m"
    using lo by (simp only: power_add)
  then have "(of_int (2 ^ nat e * 2 ^ 52) :: rat) \<le> of_int m"
    by (simp only: of_int_le_iff)
  then have "of_int (2 ^ 52) \<le> of_int m / pow2 e"
    using b e by (simp add: pow2_def pos_le_divide_eq mult.commute)
  then have "2 ^ 52 \<le> round_even (of_int m / pow2 e)"
    by (rule round_even_ge)
  moreover have "2 \<le> pow2 e"
    using power_increasing [of 1 "nat e" "2 :: rat"] b e by (simp add: pow2_def)
  ultimately have "of_int (2 ^ 52) * 2 \<le> of_int (round_even (of_int m / pow2 e)) * pow2 e"
    by (intro mult_mono) (simp_all only: of_int_le_iff, simp_all)
  then have "of_int a < of_int (round_even (of_int m / pow2 e)) * pow2 e"
    using assms(3) of_int_less_iff [of a "2 ^ 53", where 'a = rat] by simp
  then show ?thesis
    using m0 assms(2) by (auto simp: rnd_def Let_def e_def [symmetric])
qed

lemma rnd_multiple:
  assumes "0 < a" "a < 2 ^ 53" "0 \<le> m" "rnd (of_int m) = Fin (of_int a)"
  shows "m = a"
proof (cases "m \<le> 2 ^ 53")
  case True
  then show ?thesis
    using rnd_of_int [of m] assms by simp
next
  case False
  then show ?thesis
    using rnd_above [of m a] assms by simp
qed

lemma digits_of_int:
  assumes "0 < a" "ilog10 (of_int a) = int L" "0 < k" "k \<le> Suc L"
  obtains s n where "digits_of (of_int a) k = (s, n)" "0 \<le> s" "int k \<le> n" "n \<le> int L + 2"
    "k = Suc L \<Longrightarrow> a < 10 ^ Suc L \<Longrightarrow> s = a \<and> n = int k"
proof -
  define s where "s = round_even (of_int a / pow10 (int L + 1 - int k))"
  have p: "0 < pow10 (int L + 1 - int k)"
    by (simp add: pow10_def)
  have "of_int 0 \<le> of_int a / pow10 (int L + 1 - int k)"
    using assms(1) p by simp
  then have s0: "0 \<le> s"
    unfolding s_def by (rule round_even_ge)
  have full: "s = a" if "k = Suc L"
    using that by (simp add: s_def pow10_def)
  have d: "digits_of (of_int a) k =
      (if s = 10 ^ k then (10 ^ (k - 1), int L + 1 + 1) else (s, int L + 1))"
    by (simp add: digits_of_def Let_def assms(2) s_def [symmetric])
  show thesis
  proof (cases "s = 10 ^ k")
    case True
    then show thesis
      using that [of "10 ^ (k - 1)" "int L + 2"] d full assms(4) by fastforce
  next
    case False
    then show thesis
      using that [of s "int L + 1"] d full assms(4) s0 by fastforce
  qed
qed

lemma shortest_of_int:
  assumes a: "0 < a" "a < 2 ^ 53" and L: "ilog10 (of_int a) = int L" "a < 10 ^ Suc L"
    and k: "0 < k" "k \<le> Suc L" "Suc L \<le> k + m"
  obtains k' s n where "shortest_from (of_int a) k m = (k', s, n)" "0 \<le> s" "int k' \<le> n"
    "n \<le> int L + 2" "s * 10 ^ nat (n - int k') = a"
  using k
proof (induction m arbitrary: k thesis)
  case 0
  then have [simp]: "k = Suc L"
    by simp
  obtain s n where "digits_of (of_int a) k = (s, n)" "0 \<le> s" "int k \<le> n" "n \<le> int L + 2"
    "s = a \<and> n = int k"
    using digits_of_int [OF a(1) L(1) 0(2,3)] L(2) by (metis \<open>k = Suc L\<close>)
  then show ?case
    using 0(1) [of k s n] by simp
next
  case (Suc m)
  obtain s n where d: "digits_of (of_int a) k = (s, n)" "0 \<le> s" "int k \<le> n" "n \<le> int L + 2"
    and full: "k = Suc L \<Longrightarrow> s = a \<and> n = int k"
    using digits_of_int [OF a(1) L(1) Suc(3,4)] L(2) by metis
  have eq: "of_int s * pow10 (n - int k) = (of_int (s * 10 ^ nat (n - int k)) :: rat)"
    using d(3) by (simp add: pow10_def)
  show ?case
  proof (cases "rnd (of_int (s * 10 ^ nat (n - int k))) = Fin (of_int a)")
    case True
    have "s * 10 ^ nat (n - int k) = a"
      using rnd_multiple [OF a _ True] d(2) by simp
    then show ?thesis
      using Suc(2) [of k s n] True d eq by simp
  next
    case False
    have "k \<noteq> Suc L"
      using False full rnd_of_int [of a] a by auto
    moreover have "shortest_from (of_int a) k (Suc m) = shortest_from (of_int a) (k + 1) m"
      using False d(1) by (simp only: shortest_from.simps Let_def prod.case eq if_False)
    moreover obtain k' s' n' where "shortest_from (of_int a) (k + 1) m = (k', s', n')" "0 \<le> s'"
      "int k' \<le> n'" "n' \<le> int L + 2" "s' * 10 ^ nat (n' - int k') = a"
      using Suc.IH [of "k + 1"] Suc(3-5) \<open>k \<noteq> Suc L\<close> by auto
    ultimately show ?thesis
      using Suc(2) [of k' s' n'] by metis
  qed
qed

lemma pos_toString_of_int:
  assumes "0 < a" "a < 2 ^ 53"
  shows "pos_toString (of_int a) = radix_text 10 a"
proof -
  obtain L where L: "ilog10 (of_int a) = int L" "10 ^ L \<le> a" "a < 10 ^ Suc L"
    using ilog10_of_int [of a] assms by auto
  have "(10 :: int) ^ L < 10 ^ 16"
    using L(2) assms(2) by simp
  then have L16: "L < 16"
    by (simp only: power_strict_increasing_iff)
  obtain k s n where r: "shortest_from (of_int a) 1 16 = (k, s, n)" "0 \<le> s" "int k \<le> n"
    "n \<le> int L + 2" "s * 10 ^ nat (n - int k) = a"
    using shortest_of_int [OF assms L(1,3), of 1 16] L16 by auto
  have "0 < s"
    using r(2,5) assms(1) by (cases "s = 0") auto
  then have "radix_text 10 a = radix_text 10 s @ replicate (nat (n - int k)) 48"
    using radix_text_append_zeros [of 10 s "nat (n - int k)"] r(5) by (simp add: digit_char_def)
  then show ?thesis
    using r(1,3,4) L16 by (simp add: pos_toString_def)
qed

lemma num_toString_of_int:
  assumes "\<bar>n\<bar> < 2 ^ 53"
  shows "num_toString (Fin (of_int n)) = int_text 10 n"
proof (cases n "0 :: int" rule: linorder_cases)
  case less
  then show ?thesis
    using pos_toString_of_int [of "- n"] assms by (simp add: num_toString_def int_text_def)
next
  case equal
  then show ?thesis
    by (simp add: num_toString_def int_text_def radix_text.simps [of 10 0] digit_char_def)
next
  case greater
  then show ?thesis
    using pos_toString_of_int [of n] assms by (simp add: num_toString_def int_text_def)
qed

end
