(* ===== verification/Js_Value.thy ===== *)
theory Js_Value
  imports Js_Number
begin

text \<open>
  Regular expressions and the values a YAML document is loaded into and dumped from.

  \<^item> \<open>regex\<close> is the fragment of JavaScript's patterns the code uses; \<open>matches\<close> lists the
    successes of a backtracking matcher in the order the language tries them, so that its
    first full match carries the captures \<open>exec\<close> reports.
  \<^item> Arrays and mappings are mutable and can be shared (by anchors and aliases) or cyclic, so
    a value refers to them by an index into an explicit store.  A mapping is the list of its
    own properties in insertion order; \<open>object_keys\<close> gives them in the order of
    \<open>Object.keys\<close>.  Assigning the property \<open>__proto__\<close> changes the prototype, which is not
    represented, and creates no own property.
\<close>

section \<open>Regular expressions\<close>

datatype regex =
    Cls "code_unit \<Rightarrow> bool"
  | Eps
  | Seq regex regex
  | Alt regex regex
  | Star regex
  | Grp nat regex

type_synonym captures = "(nat \<times> jsstring) list"

function (sequential) matches :: "regex \<Rightarrow> jsstring \<times> captures \<Rightarrow> (jsstring \<times> captures) list" where
  "matches (Cls p) (s, g) = (case s of [] \<Rightarrow> [] | c # t \<Rightarrow> if p c then [(t, g)] else [])"
| "matches Eps m = [m]"
| "matches (Seq r1 r2) m = concat (map (matches r2) (matches r1 m))"
| "matches (Alt r1 r2) m = matches r1 m @ matches r2 m"
| "matches (Star r) (s, g) =
     concat (map (\<lambda>m. if length (fst m) < length s then matches (Star r) m else []) (matches r (s, g)))
     @ [(s, g)]"
| "matches (Grp i r) (s, g) =
     map (\<lambda>(t, h). (t, (i, take (length s - length t) s) # h)) (matches r (s, g))"
  by pat_completeness auto

termination
  by (relation "measures [\<lambda>(r, m). size r, \<lambda>(r, m). length (fst m)]") auto

text \<open>\<open>^r$\<close>: the captures of the first match that uses the whole text.\<close>

definition exec_full :: "regex \<Rightarrow> jsstring \<Rightarrow> captures option" where
  "exec_full r s = map_option snd (find (\<lambda>m. fst m = []) (matches r (s, [])))"

definition test_full :: "regex \<Rightarrow> jsstring \<Rightarrow> bool" where
  "test_full r s \<longleftrightarrow> exec_full r s \<noteq> None"

definition capture :: "captures \<Rightarrow> nat \<Rightarrow> jsstring option" where
  "capture g i = map_of g i"

definition Lit :: "code_unit \<Rightarrow> regex" where
  "Lit c = Cls (\<lambda>x. x = c)"

definition Range :: "code_unit \<Rightarrow> code_unit \<Rightarrow> regex" where
  "Range a b = Cls (\<lambda>x. a \<le> x \<and> x \<le> b)"

definition OneOf :: "string \<Rightarrow> regex" where
  "OneOf cs = Cls (\<lambda>x. x \<in> set (jstr cs))"

definition Opt :: "regex \<Rightarrow> regex" where
  "Opt r = Alt r Eps"

definition Plus :: "regex \<Rightarrow> regex" where
  "Plus r = Seq r (Star r)"

definition Text :: "string \<Rightarrow> regex" where
  "Text s = foldr (\<lambda>c r. Seq (Lit c) r) (jstr s) Eps"

definition Seqs :: "regex list \<Rightarrow> regex" where
  "Seqs rs = foldr Seq rs Eps"

definition Digit :: regex where
  "Digit = Range 48 57"

section \<open>Values\<close>

datatype yval =
    YUndef
  | YNull
  | YBool bool
  | YNum number
  | YStr jsstring
  | YDate int
  | YBuf "byte list"
  | YRegExp jsstring jsstring
  | YFun jsstring
  | YRef nat

type_synonym props = "(jsstring \<times> yval) list"

datatype yobj = YArr "yval list" | YMap props

type_synonym store = "yobj list"

definition proto :: jsstring where
  "proto = jstr ''__proto__''"

definition has_prop :: "(jsstring \<times> 'v) list \<Rightarrow> jsstring \<Rightarrow> bool" where
  "has_prop m k \<longleftrightarrow> map_of m k \<noteq> None"

fun set_prop :: "(jsstring \<times> 'v) list \<Rightarrow> jsstring \<Rightarrow> 'v \<Rightarrow> (jsstring \<times> 'v) list" where
  "set_prop [] k v = [(k, v)]"
| "set_prop ((k', v') # m) k v = (if k' = k then (k, v) # m else (k', v') # set_prop m k v)"

text \<open>\<open>m[k] = v\<close>\<close>

definition put_prop :: "(jsstring \<times> 'v) list \<Rightarrow> jsstring \<Rightarrow> 'v \<Rightarrow> (jsstring \<times> 'v) list" where
  "put_prop m k v = (if k = proto then m else set_prop m k v)"

definition delete_prop :: "(jsstring \<times> 'v) list \<Rightarrow> jsstring \<Rightarrow> (jsstring \<times> 'v) list" where
  "delete_prop m k = filter (\<lambda>e. fst e \<noteq> k) m"

text \<open>A canonical array index: decimal digits of a number below \<open>2 ^ 32 - 1\<close>.\<close>

definition array_index :: "jsstring \<Rightarrow> int option" where
  "array_index k =
     (if k \<noteq> [] \<and> list_all (is_digit 10) k \<and> length k \<le> 10 \<and> int_text 10 (digits_value 10 k) = k
        \<and> digits_value 10 k < 2 ^ 32 - 1
      then Some (digits_value 10 k) else None)"

definition object_keys :: "(jsstring \<times> 'v) list \<Rightarrow> jsstring list" where
  "object_keys m =
     (let ks = map fst m in
      sort_key (\<lambda>k. the (array_index k)) (filter (\<lambda>k. array_index k \<noteq> None) ks)
      @ filter (\<lambda>k. array_index k = None) ks)"

text \<open>\<open>Object.keys(o)\<close> with the values, for a value of type object.\<close>

definition index_props :: "'v list \<Rightarrow> (jsstring \<times> 'v) list" where
  "index_props xs = map (\<lambda>(i, x). (int_text 10 (int i), x)) (zip [0..<length xs] xs)"

definition own_props :: "store \<Rightarrow> yval \<Rightarrow> props" where
  "own_props st v =
     (case v of
        YRef a \<Rightarrow>
          (case st ! a of
             YArr xs \<Rightarrow> index_props xs
           | YMap m \<Rightarrow> map (\<lambda>k. (k, the (map_of m k))) (object_keys m))
      | YBuf bs \<Rightarrow> index_props (map (\<lambda>b. YNum (Fin (of_int (uint b)))) bs)
      | _ \<Rightarrow> [])"

text \<open>\<open>typeof v === 'object' && v !== null\<close>\<close>

definition isObject :: "yval \<Rightarrow> bool" where
  "isObject v =
     (case v of YDate _ \<Rightarrow> True | YBuf _ \<Rightarrow> True | YRegExp _ _ \<Rightarrow> True | YRef _ \<Rightarrow> True | _ \<Rightarrow> False)"

definition isNothing :: "yval \<Rightarrow> bool" where
  "isNothing v \<longleftrightarrow> v = YUndef \<or> v = YNull"

definition isArray :: "store \<Rightarrow> yval \<Rightarrow> bool" where
  "isArray st v = (case v of YRef a \<Rightarrow> (case st ! a of YArr _ \<Rightarrow> True | _ \<Rightarrow> False) | _ \<Rightarrow> False)"

definition toArray :: "store \<Rightarrow> yval \<Rightarrow> yval list" where
  "toArray st v =
     (case v of
        YRef a \<Rightarrow> (case st ! a of YArr xs \<Rightarrow> xs | _ \<Rightarrow> [v])
      | _ \<Rightarrow> if isNothing v then [] else [v])"

definition extend :: "(jsstring \<times> 'v) list \<Rightarrow> (jsstring \<times> 'v) list option \<Rightarrow> (jsstring \<times> 'v) list" where
  "extend target src =
     (case src of None \<Rightarrow> target
      | Some m \<Rightarrow> foldl (\<lambda>t k. put_prop t k (the (map_of m k))) target (object_keys m))"

definition repeat :: "jsstring \<Rightarrow> int \<Rightarrow> jsstring" where
  "repeat s count = concat (replicate (nat count) s)"

definition isNegativeZero :: "number \<Rightarrow> bool" where
  "isNegativeZero x \<longleftrightarrow> x = NegZero"

text \<open>
  \<open>String(v)\<close>.  The texts of a date and of a buffer are the host's (\<open>host\<close>).  An array is its
  elements joined by commas, where an array that is already being joined contributes nothing;
  the nesting of distinct arrays is at most the size of the store, which bounds the recursion.
\<close>

record host =
  date_text :: "int \<Rightarrow> jsstring"
  buf_text :: "byte list \<Rightarrow> jsstring"

fun join :: "jsstring \<Rightarrow> jsstring list \<Rightarrow> jsstring" where
  "join sep [] = []"
| "join sep [x] = x"
| "join sep (x # y # xs) = x @ sep @ join sep (y # xs)"

fun string_at :: "host \<Rightarrow> store \<Rightarrow> nat \<Rightarrow> nat list \<Rightarrow> yval \<Rightarrow> jsstring" where
  "string_at hst st fuel seen YUndef = jstr ''undefined''"
| "string_at hst st fuel seen YNull = jstr ''null''"
| "string_at hst st fuel seen (YBool b) = (if b then jstr ''true'' else jstr ''false'')"
| "string_at hst st fuel seen (YNum x) = num_toString x"
| "string_at hst st fuel seen (YStr s) = s"
| "string_at hst st fuel seen (YDate d) = date_text hst d"
| "string_at hst st fuel seen (YBuf bs) = buf_text hst bs"
| "string_at hst st fuel seen (YRegExp p fl) = [47] @ p @ [47] @ fl"
| "string_at hst st fuel seen (YFun t) = t"
| "string_at hst st 0 seen (YRef a) = []"
| "string_at hst st (Suc fuel) seen (YRef a) =
     (case st ! a of
        YMap _ \<Rightarrow> jstr ''[object Object]''
      | YArr xs \<Rightarrow>
          if a \<in> set seen then []
          else join (jstr '','')
                 (map (\<lambda>x. if isNothing x then [] else string_at hst st fuel (a # seen) x) xs))"

definition js_String :: "host \<Rightarrow> store \<Rightarrow> yval \<Rightarrow> jsstring" where
  "js_String hst st v = string_at hst st (Suc (length st)) [] v"

section \<open>Property lists\<close>

lemma map_of_set_prop [simp]: "map_of (set_prop m k v) = (map_of m) (k \<mapsto> v)"
  by (induction m k v rule: set_prop.induct) (auto simp: fun_eq_iff)

lemma keys_set_prop: "fst ` set (set_prop m k v) = insert k (fst ` set m)"
  by (induction m k v rule: set_prop.induct) auto

lemma distinct_set_prop [simp]:
  "distinct (map fst m) \<Longrightarrow> distinct (map fst (set_prop m k v))"
proof (induction m k v rule: set_prop.induct)
  case (2 k' v' m k v)
  then show ?case
    using keys_set_prop [of m k v] by (auto simp: image_iff)
qed simp

lemma distinct_put_prop: "distinct (map fst m) \<Longrightarrow> distinct (map fst (put_prop m k v))"
  by (simp add: put_prop_def)

lemma map_of_put_prop:
  "map_of (put_prop m k v) k' = (if k' = k \<and> k \<noteq> proto then Some v else map_of m k')"
  by (auto simp: put_prop_def)

lemma set_object_keys [simp]: "set (object_keys m) = fst ` set m"
  by (auto simp: object_keys_def Let_def)

lemma distinct_object_keys: "distinct (map fst m) \<Longrightarrow> distinct (object_keys m)"
  by (auto simp: object_keys_def Let_def)

end
