(* ===== verification/Yaml_Type.thy ===== *)
theory Yaml_Type
  imports Js_Value
begin

unbundle bit_operations_syntax

text \<open>
  The YAML library's error values (\<open>Mark\<close>, \<open>YAMLException\<close>), its \<open>Type\<close> objects and the
  sixteen types it defines: what scalar text each one accepts, the value it constructs from
  it and the text it represents a value by.

  The esprima parser and the constructors \<open>RegExp\<close> and \<open>Function\<close> compile program text;
  they are the parameter \<open>js_host\<close> of the two types that use them.
\<close>

section \<open>Errors\<close>

record mark =
  mname :: "jsstring option"
  mbuffer :: jsstring
  mposition :: nat
  mline :: nat
  mcolumn :: int

definition line_break_char :: "code_unit \<Rightarrow> bool" where
  "line_break_char c \<longleftrightarrow> c = 0 \<or> c = 13 \<or> c = 10 \<or> c = 8232 \<or> c = 8233"

text \<open>The two loops of \<open>getSnippet\<close>; \<open>maxLength / 2 - 1\<close> is compared doubled.\<close>

fun snippet_start :: "jsstring \<Rightarrow> nat \<Rightarrow> nat \<Rightarrow> nat \<Rightarrow> bool \<times> nat" where
  "snippet_start buffer position maxLength 0 = (False, 0)"
| "snippet_start buffer position maxLength (Suc start) =
     (if length buffer \<le> start \<or> line_break_char (buffer ! start) then (False, Suc start)
      else if int maxLength - 2 < 2 * (int position - int start) then (True, start + 5)
      else snippet_start buffer position maxLength start)"

fun snippet_end :: "nat \<Rightarrow> nat \<Rightarrow> jsstring \<Rightarrow> nat \<Rightarrow> bool \<times> nat" where
  "snippet_end position maxLength [] endp = (False, endp)"
| "snippet_end position maxLength (c # rest) endp =
     (if line_break_char c then (False, endp)
      else if int maxLength - 2 < 2 * (int (Suc endp) - int position) then (True, Suc endp - 5)
      else snippet_end position maxLength rest (Suc endp))"

definition getSnippet :: "mark \<Rightarrow> int \<Rightarrow> nat \<Rightarrow> jsstring option" where
  "getSnippet m indent0 maxLength0 =
     (if mbuffer m = [] then None else
      let indent = (if indent0 = 0 then 4 else indent0);
          maxLength = (if maxLength0 = 0 then 75 else maxLength0);
          (cut1, start) = snippet_start (mbuffer m) (mposition m) maxLength (mposition m);
          (cut2, endp) = snippet_end (mposition m) maxLength (drop (mposition m) (mbuffer m)) (mposition m);
          head = (if cut1 then jstr '' ... '' else []); tail = (if cut2 then jstr '' ... '' else []);
          snippet = str_slice (mbuffer m) (int start) (int endp)
      in Some (repeat (jstr '' '') indent @ head @ snippet @ tail @ [10] @
               repeat (jstr '' '') (indent + int (mposition m) - int start + int (length head)) @ jstr ''^''))"

definition mark_toString :: "mark \<Rightarrow> bool \<Rightarrow> jsstring" where
  "mark_toString m brief =
     (case mname m of None \<Rightarrow> [] | Some n \<Rightarrow> if n = [] then [] else jstr ''in \"'' @ n @ jstr ''\" '')
     @ jstr ''at line '' @ int_text 10 (int (mline m) + 1)
     @ jstr '', column '' @ int_text 10 (mcolumn m + 1)
     @ (if brief then []
        else case getSnippet m 0 0 of None \<Rightarrow> [] | Some s \<Rightarrow> if s = [] then [] else jstr '':'' @ [10] @ s)"

text \<open>
  What a call can end with besides a value: a \<open>YAMLException\<close>, another JavaScript error, or
  not at all (\<open>Diverges\<close>, a loop whose condition can no longer become false).
\<close>

datatype yerror = YAMLException jsstring "mark option" | JsError string | Diverges

type_synonym 'a yres = "yerror + 'a"

definition exception_message :: "jsstring \<Rightarrow> mark option \<Rightarrow> jsstring" where
  "exception_message reason mk =
     (if reason = [] then jstr ''(unknown reason)'' else reason)
     @ (case mk of None \<Rightarrow> [] | Some m \<Rightarrow> jstr '' '' @ mark_toString m False)"

definition exception_toString :: "jsstring \<Rightarrow> mark option \<Rightarrow> bool \<Rightarrow> jsstring" where
  "exception_toString reason mk brief =
     jstr ''YAMLException: '' @ (if reason = [] then jstr ''(unknown reason)'' else reason)
     @ (case mk of None \<Rightarrow> [] | Some m \<Rightarrow> if brief then [] else jstr '' '' @ mark_toString m False)"

section \<open>Types\<close>

datatype ykind = Scalar | Sequence | Mapping

datatype represent =
    NoRep
  | RepFn "yval \<Rightarrow> jsstring \<Rightarrow> jsstring"
  | RepStyles "(jsstring \<times> (yval \<Rightarrow> jsstring)) list"

record ytype =
  tag :: jsstring
  kind :: ykind
  resolve :: "store \<Rightarrow> yval \<Rightarrow> bool"
  construct :: "store \<Rightarrow> yval \<Rightarrow> (yval \<times> store) yres"
  instanceOf :: "(yval \<Rightarrow> bool) option"
  predicate :: "(yval \<Rightarrow> bool) option"
  represent :: represent
  defaultStyle :: "jsstring option"
  styleAliases :: "(jsstring \<times> jsstring) list"

definition compileStyleAliases :: "(jsstring \<times> jsstring list) list \<Rightarrow> (jsstring \<times> jsstring) list" where
  "compileStyleAliases m =
     foldl (\<lambda>r style. foldl (\<lambda>r' al. put_prop r' al style) r (the (map_of m style))) []
       (object_keys m)"

text \<open>
  \<open>new Type(tag, options)\<close>: an option that is absent gets the default.  The two checks of the
  constructor (unknown option, unknown kind) are the types of the arguments here.
\<close>

definition Type ::
  "jsstring \<Rightarrow> ykind \<Rightarrow> (store \<Rightarrow> yval \<Rightarrow> bool) option \<Rightarrow>
   (store \<Rightarrow> yval \<Rightarrow> (yval \<times> store) yres) option \<Rightarrow>
   (yval \<Rightarrow> bool) option \<Rightarrow> (yval \<Rightarrow> bool) option \<Rightarrow> represent \<Rightarrow> jsstring option \<Rightarrow>
   (jsstring \<times> jsstring list) list \<Rightarrow> ytype" where
  "Type tg kd res con inst pred rep dflt aliases =
     \<lparr>tag = tg, kind = kd,
      resolve = (case res of Some r \<Rightarrow> r | None \<Rightarrow> (\<lambda>st d. True)),
      construct = (case con of Some c \<Rightarrow> c | None \<Rightarrow> (\<lambda>st d. Inr (d, st))),
      instanceOf = inst, predicate = pred, represent = rep, defaultStyle = dflt,
      styleAliases = compileStyleAliases aliases\<rparr>"

definition yaml_tag :: "string \<Rightarrow> jsstring" where
  "yaml_tag s = jstr (''tag:yaml.org,2002:'' @ s)"

text \<open>The resolver and the constructor of a scalar type, which get \<open>null\<close> or a string.\<close>

definition on_scalar :: "bool \<Rightarrow> (jsstring \<Rightarrow> bool) \<Rightarrow> store \<Rightarrow> yval \<Rightarrow> bool" where
  "on_scalar at_null f st d = (case d of YNull \<Rightarrow> at_null | YStr s \<Rightarrow> f s | _ \<Rightarrow> False)"

definition of_scalar :: "(jsstring \<Rightarrow> yval) \<Rightarrow> store \<Rightarrow> yval \<Rightarrow> (yval \<times> store) yres" where
  "of_scalar f st d =
     (case d of YStr s \<Rightarrow> Inr (f s, st) | _ \<Rightarrow> Inl (JsError ''Cannot read property of a non-string''))"

section \<open>Strings, sequences and mappings\<close>

definition yaml_str :: ytype where
  "yaml_str = Type (yaml_tag ''str'') Scalar None
     (Some (\<lambda>st d. Inr (if d \<noteq> YNull then d else YStr [], st))) None None NoRep None []"

definition yaml_seq :: ytype where
  "yaml_seq = Type (yaml_tag ''seq'') Sequence None
     (Some (\<lambda>st d. Inr (if d \<noteq> YNull then (d, st) else (YRef (length st), st @ [YArr []]))))
     None None NoRep None []"

definition yaml_map :: ytype where
  "yaml_map = Type (yaml_tag ''map'') Mapping None
     (Some (\<lambda>st d. Inr (if d \<noteq> YNull then (d, st) else (YRef (length st), st @ [YMap []]))))
     None None NoRep None []"

section \<open>Null\<close>

definition resolveYamlNull :: "jsstring \<Rightarrow> bool" where
  "resolveYamlNull data \<longleftrightarrow>
     length data = 1 \<and> data = jstr ''~'' \<or>
     length data = 4 \<and> (data = jstr ''null'' \<or> data = jstr ''Null'' \<or> data = jstr ''NULL'')"

definition isNull :: "yval \<Rightarrow> bool" where
  "isNull v \<longleftrightarrow> v = YNull"

definition representYamlNull :: "(jsstring \<times> (yval \<Rightarrow> jsstring)) list" where
  "representYamlNull =
     [(jstr ''canonical'', \<lambda>_. jstr ''~''), (jstr ''lowercase'', \<lambda>_. jstr ''null''),
      (jstr ''uppercase'', \<lambda>_. jstr ''NULL''), (jstr ''camelcase'', \<lambda>_. jstr ''Null'')]"

definition yaml_null :: ytype where
  "yaml_null = Type (yaml_tag ''null'') Scalar (Some (on_scalar True resolveYamlNull))
     (Some (\<lambda>st d. Inr (YNull, st))) None (Some isNull) (RepStyles representYamlNull)
     (Some (jstr ''lowercase'')) []"

section \<open>Booleans\<close>

definition resolveYamlBoolean :: "jsstring \<Rightarrow> bool" where
  "resolveYamlBoolean data \<longleftrightarrow>
     length data = 4 \<and> (data = jstr ''true'' \<or> data = jstr ''True'' \<or> data = jstr ''TRUE'') \<or>
     length data = 5 \<and> (data = jstr ''false'' \<or> data = jstr ''False'' \<or> data = jstr ''FALSE'')"

definition constructYamlBoolean :: "jsstring \<Rightarrow> yval" where
  "constructYamlBoolean data =
     YBool (data = jstr ''true'' \<or> data = jstr ''True'' \<or> data = jstr ''TRUE'')"

definition isBoolean :: "yval \<Rightarrow> bool" where
  "isBoolean v = (case v of YBool _ \<Rightarrow> True | _ \<Rightarrow> False)"

definition representYamlBoolean :: "(jsstring \<times> (yval \<Rightarrow> jsstring)) list" where
  "representYamlBoolean =
     [(jstr ''lowercase'', \<lambda>v. if v = YBool True then jstr ''true'' else jstr ''false''),
      (jstr ''uppercase'', \<lambda>v. if v = YBool True then jstr ''TRUE'' else jstr ''FALSE''),
      (jstr ''camelcase'', \<lambda>v. if v = YBool True then jstr ''True'' else jstr ''False'')]"

definition yaml_bool :: ytype where
  "yaml_bool = Type (yaml_tag ''bool'') Scalar (Some (on_scalar False resolveYamlBoolean))
     (Some (of_scalar constructYamlBoolean)) None (Some isBoolean) (RepStyles representYamlBoolean)
     (Some (jstr ''lowercase'')) []"

section \<open>Integers\<close>

definition isHexCode :: "code_unit \<Rightarrow> bool" where
  "isHexCode c \<longleftrightarrow> 48 \<le> c \<and> c \<le> 57 \<or> 65 \<le> c \<and> c \<le> 70 \<or> 97 \<le> c \<and> c \<le> 102"

definition isOctCode :: "code_unit \<Rightarrow> bool" where
  "isOctCode c \<longleftrightarrow> 48 \<le> c \<and> c \<le> 55"

definition isDecCode :: "code_unit \<Rightarrow> bool" where
  "isDecCode c \<longleftrightarrow> 48 \<le> c \<and> c \<le> 57"

definition isBinCode :: "code_unit \<Rightarrow> bool" where
  "isBinCode c \<longleftrightarrow> c = 48 \<or> c = 49"

text \<open>
  The loops over the digits of a prefixed integer: \<open>has\<close> is \<open>hasDigits\<close> and \<open>und\<close> says that
  the last character seen is an underscore.
\<close>

fun digit_loop :: "(code_unit \<Rightarrow> bool) \<Rightarrow> jsstring \<Rightarrow> bool \<Rightarrow> bool \<Rightarrow> bool" where
  "digit_loop ok [] has und = (has \<and> \<not> und)"
| "digit_loop ok (c # s) has und =
     (if c = 95 then digit_loop ok s has True
      else if \<not> ok c then False
      else digit_loop ok s True False)"

definition sexagesimal_tail :: regex where
  "sexagesimal_tail = Plus (Seqs [Lit 58, Opt (Range 48 53), Digit])"

fun decimal_loop :: "jsstring \<Rightarrow> bool \<Rightarrow> bool \<Rightarrow> bool" where
  "decimal_loop [] has und = (has \<and> \<not> und)"
| "decimal_loop (c # s) has und =
     (if c = 95 then decimal_loop s has True
      else if c = 58 then has \<and> test_full sexagesimal_tail (c # s)
      else if \<not> isDecCode c then False
      else decimal_loop s True False)"

definition unsigned_text :: "jsstring \<Rightarrow> jsstring" where
  "unsigned_text s = (case s of c # t \<Rightarrow> if c = 45 \<or> c = 43 then t else s | [] \<Rightarrow> [])"

definition resolveYamlInteger :: "jsstring \<Rightarrow> bool" where
  "resolveYamlInteger data =
     (if data = [] then False else
      case unsigned_text data of
        [] \<Rightarrow> False
      | ch # t \<Rightarrow>
          if ch = 48 then
            (case t of
               [] \<Rightarrow> True
             | c # u \<Rightarrow>
                 if c = 98 then digit_loop isBinCode u False False
                 else if c = 120 then digit_loop isHexCode u False False
                 else digit_loop isOctCode t False False)
          else if ch = 95 then False
          else decimal_loop (ch # t) False False)"

fun split_at :: "code_unit \<Rightarrow> jsstring \<Rightarrow> jsstring list" where
  "split_at sep [] = [[]]"
| "split_at sep (c # s) =
     (if c = sep then [] # split_at sep s
      else case split_at sep s of [] \<Rightarrow> [[c]] | w # ws \<Rightarrow> (c # w) # ws)"

text \<open>The accumulation of base 60 digits, least significant first.\<close>

definition base60 :: "number list \<Rightarrow> number" where
  "base60 digits =
     fst (foldl (\<lambda>(value, base) d. (num_add value (num_mul d base), num_mul base (Fin 60)))
            (Fin 0, Fin 1) digits)"

definition constructYamlInteger :: "jsstring \<Rightarrow> yval" where
  "constructYamlInteger data =
     (let v0 = filter (\<lambda>c. c \<noteq> 95) data; neg = (v0 \<noteq> [] \<and> hd v0 = 45); value = unsigned_text v0
      in if value = jstr ''0'' then YNum (Fin 0)
         else if value \<noteq> [] \<and> hd value = 48 then
           (if 1 < length value \<and> value ! 1 = 98 then YNum (num_sign neg (parseInt (drop 2 value) 2))
            else if 1 < length value \<and> value ! 1 = 120 then YNum (num_sign neg (parseInt value 16))
            else YNum (num_sign neg (parseInt value 8)))
         else if 58 \<in> set value then
           YNum (num_sign neg (base60 (rev (map (\<lambda>v. parseInt v 10) (split_at 58 value)))))
         else YNum (num_sign neg (parseInt value 10)))"

definition isInteger :: "yval \<Rightarrow> bool" where
  "isInteger v = (case v of YNum x \<Rightarrow> num_integral x \<and> \<not> isNegativeZero x | _ \<Rightarrow> False)"

text \<open>
  \<open>obj.toString(radix)\<close> of an integral number for the radices 2, 8 and 16, whose digits are
  exact, and the upper case of such a text.
\<close>

definition radix_string :: "int \<Rightarrow> yval \<Rightarrow> jsstring" where
  "radix_string radix v = (case v of YNum (Fin q) \<Rightarrow> int_text radix \<lfloor>q\<rfloor> | _ \<Rightarrow> [])"

definition upper :: "code_unit \<Rightarrow> code_unit" where
  "upper c = (if 97 \<le> c \<and> c \<le> 122 then c - 32 else c)"

definition toUpperCase :: "jsstring \<Rightarrow> jsstring" where
  "toUpperCase s = map upper s"

definition num_nonneg :: "yval \<Rightarrow> bool" where
  "num_nonneg v = (case v of YNum (Fin q) \<Rightarrow> 0 \<le> q | _ \<Rightarrow> True)"

definition representYamlInteger :: "(jsstring \<times> (yval \<Rightarrow> jsstring)) list" where
  "representYamlInteger =
     [(jstr ''binary'', \<lambda>v. if num_nonneg v then jstr ''0b'' @ radix_string 2 v
                             else jstr ''-0b'' @ tl (radix_string 2 v)),
      (jstr ''octal'', \<lambda>v. if num_nonneg v then jstr ''0'' @ radix_string 8 v
                            else jstr ''-0'' @ tl (radix_string 8 v)),
      (jstr ''decimal'', \<lambda>v. case v of YNum x \<Rightarrow> num_toString x | _ \<Rightarrow> []),
      (jstr ''hexadecimal'', \<lambda>v. if num_nonneg v then jstr ''0x'' @ toUpperCase (radix_string 16 v)
                                  else jstr ''-0x'' @ tl (toUpperCase (radix_string 16 v)))]"

definition yaml_int :: ytype where
  "yaml_int = Type (yaml_tag ''int'') Scalar (Some (on_scalar False resolveYamlInteger))
     (Some (of_scalar constructYamlInteger)) None (Some isInteger) (RepStyles representYamlInteger)
     (Some (jstr ''decimal''))
     [(jstr ''binary'', [jstr ''2'', jstr ''bin'']), (jstr ''octal'', [jstr ''8'', jstr ''oct'']),
      (jstr ''decimal'', [jstr ''10'', jstr ''dec'']),
      (jstr ''hexadecimal'', [jstr ''16'', jstr ''hex''])]"

section \<open>Floating point numbers\<close>

definition digit_run :: regex where
  "digit_run = Star (Cls (\<lambda>c. 48 \<le> c \<and> c \<le> 57 \<or> c = 95))"

definition exponent_re :: regex where
  "exponent_re = Opt (Seqs [OneOf ''eE'', Opt (OneOf ''-+''), Plus Digit])"

definition YAML_FLOAT_PATTERN :: regex where
  "YAML_FLOAT_PATTERN =
     Alt (Seqs [Opt (OneOf ''-+''), Alt (Lit 48) (Seq (Range 49 57) digit_run),
                Opt (Seq (Lit 46) digit_run), exponent_re])
    (Alt (Seqs [Lit 46, Cls (\<lambda>c. 48 \<le> c \<and> c \<le> 57 \<or> c = 95), digit_run, exponent_re])
    (Alt (Seqs [Opt (OneOf ''-+''), Digit, digit_run, sexagesimal_tail, Lit 46, digit_run])
    (Alt (Seqs [Opt (OneOf ''-+''), Lit 46, Alt (Text ''inf'') (Alt (Text ''Inf'') (Text ''INF''))])
         (Seqs [Lit 46, Alt (Text ''nan'') (Alt (Text ''NaN'') (Text ''NAN''))]))))"

definition resolveYamlFloat :: "jsstring \<Rightarrow> bool" where
  "resolveYamlFloat data \<longleftrightarrow>
     test_full YAML_FLOAT_PATTERN data \<and> \<not> (data \<noteq> [] \<and> last data = 95)"

definition constructYamlFloat :: "jsstring \<Rightarrow> yval" where
  "constructYamlFloat data =
     (let v0 = toLowerCase (filter (\<lambda>c. c \<noteq> 95) data); neg = (v0 \<noteq> [] \<and> hd v0 = 45);
          value = unsigned_text v0
      in if value = jstr ''.inf'' then YNum (if neg then NInf else PInf)
         else if value = jstr ''.nan'' then YNum NaN
         else if 58 \<in> set value then
           YNum (num_sign neg (base60 (rev (map parseFloat (split_at 58 value)))))
         else YNum (num_sign neg (parseFloat value)))"

text \<open>The text before the exponent in \<open>/^[-+]?[0-9]+e/\<close>, and the insertion of the dot.\<close>

definition scientific_without_dot :: "jsstring \<Rightarrow> bool" where
  "scientific_without_dot s =
     (let t = unsigned_text s; r = dropWhile (is_digit 10) t in r \<noteq> t \<and> r \<noteq> [] \<and> hd r = 101)"

fun dot_before_e :: "jsstring \<Rightarrow> jsstring" where
  "dot_before_e [] = []"
| "dot_before_e (c # s) = (if c = 101 then 46 # c # s else c # dot_before_e s)"

definition representYamlFloat :: "yval \<Rightarrow> jsstring \<Rightarrow> jsstring" where
  "representYamlFloat v style =
     (case v of
        YNum x \<Rightarrow>
          let pick = (\<lambda>lo up cm. if style = jstr ''lowercase'' then jstr lo
                                  else if style = jstr ''uppercase'' then jstr up
                                  else if style = jstr ''camelcase'' then jstr cm
                                  else num_toString x)
          in (case x of
                NaN \<Rightarrow> pick ''.nan'' ''.NAN'' ''.NaN''
              | PInf \<Rightarrow> pick ''.inf'' ''.INF'' ''.Inf''
              | NInf \<Rightarrow> pick ''-.inf'' ''-.INF'' ''-.Inf''
              | NegZero \<Rightarrow> jstr ''-0.0''
              | Fin q \<Rightarrow>
                  let res = num_toString x
                  in if scientific_without_dot res then dot_before_e res else res)
      | _ \<Rightarrow> [])"

definition isFloat :: "yval \<Rightarrow> bool" where
  "isFloat v = (case v of YNum x \<Rightarrow> \<not> num_integral x \<or> isNegativeZero x | _ \<Rightarrow> False)"

definition yaml_float :: ytype where
  "yaml_float = Type (yaml_tag ''float'') Scalar (Some (on_scalar False resolveYamlFloat))
     (Some (of_scalar constructYamlFloat)) None (Some isFloat) (RepFn representYamlFloat)
     (Some (jstr ''lowercase'')) []"

section \<open>Timestamps\<close>

definition YAML_DATE_REGEXP :: regex where
  "YAML_DATE_REGEXP =
     Seqs [Grp 1 (Seqs [Digit, Digit, Digit, Digit]), Lit 45, Grp 2 (Seqs [Digit, Digit]), Lit 45,
           Grp 3 (Seqs [Digit, Digit])]"

definition YAML_TIMESTAMP_REGEXP :: regex where
  "YAML_TIMESTAMP_REGEXP =
     Seqs [Grp 1 (Seqs [Digit, Digit, Digit, Digit]), Lit 45, Grp 2 (Seqs [Digit, Opt Digit]), Lit 45,
           Grp 3 (Seqs [Digit, Opt Digit]),
           Alt (OneOf ''Tt'') (Plus (Cls (\<lambda>c. c = 32 \<or> c = 9))),
           Grp 4 (Seqs [Digit, Opt Digit]), Lit 58, Grp 5 (Seqs [Digit, Digit]), Lit 58,
           Grp 6 (Seqs [Digit, Digit]),
           Opt (Seq (Lit 46) (Grp 7 (Star Digit))),
           Opt (Seq (Star (Cls (\<lambda>c. c = 32 \<or> c = 9)))
                    (Grp 8 (Alt (Lit 90)
                       (Seqs [Grp 9 (OneOf ''-+''), Grp 10 (Seqs [Digit, Opt Digit]),
                              Opt (Seq (Lit 58) (Grp 11 (Seqs [Digit, Digit])))]))))]"

definition resolveYamlTimestamp :: "jsstring \<Rightarrow> bool" where
  "resolveYamlTimestamp data \<longleftrightarrow>
     exec_full YAML_DATE_REGEXP data \<noteq> None \<or> exec_full YAML_TIMESTAMP_REGEXP data \<noteq> None"

text \<open>
  \<open>Date.UTC\<close> with integral arguments: the years 0 to 99 mean 1900 to 1999, and months, days
  and times of day outside their usual range carry over.
\<close>

definition days_from_civil :: "int \<Rightarrow> int \<Rightarrow> int \<Rightarrow> int" where
  "days_from_civil y m d =
     (let y' = (if m \<le> 2 then y - 1 else y); mp = (if m > 2 then m - 3 else m + 9);
          era = y' div 400; yoe = y' mod 400; doy = (153 * mp + 2) div 5 + d - 1
      in era * 146097 + (yoe * 365 + yoe div 4 - yoe div 100 + doy) - 719468)"

definition date_UTC :: "int \<Rightarrow> int \<Rightarrow> int \<Rightarrow> int \<Rightarrow> int \<Rightarrow> int \<Rightarrow> int \<Rightarrow> int" where
  "date_UTC year month day hour minute second ms =
     (let y = (if 0 \<le> year \<and> year \<le> 99 then 1900 + year else year)
      in (days_from_civil (y + month div 12) (month mod 12 + 1) 1 + day - 1) * 86400000
         + hour * 3600000 + minute * 60000 + second * 1000 + ms)"

definition group_num :: "captures \<Rightarrow> nat \<Rightarrow> int" where
  "group_num g i = (case capture g i of None \<Rightarrow> 0 | Some s \<Rightarrow> digits_value 10 s)"

definition fraction_ms :: "captures \<Rightarrow> int" where
  "fraction_ms g =
     (case capture g 7 of None \<Rightarrow> 0
      | Some s \<Rightarrow> if s = [] then 0
                  else let f = take 3 s in digits_value 10 (f @ replicate (3 - length f) 48))"

definition zone_delta :: "captures \<Rightarrow> int" where
  "zone_delta g =
     (case capture g 9 of None \<Rightarrow> 0
      | Some sg \<Rightarrow> let delta = (group_num g 10 * 60 + group_num g 11) * 60000
                   in if sg = jstr ''-'' then - delta else delta)"

definition constructYamlTimestamp :: "store \<Rightarrow> yval \<Rightarrow> (yval \<times> store) yres" where
  "constructYamlTimestamp st d =
     (case d of
        YStr data \<Rightarrow>
          (case (case exec_full YAML_DATE_REGEXP data of
                   None \<Rightarrow> exec_full YAML_TIMESTAMP_REGEXP data | r \<Rightarrow> r) of
             None \<Rightarrow> Inl (JsError ''Date resolve error'')
           | Some g \<Rightarrow>
               let year = group_num g 1; month = group_num g 2 - 1; day = group_num g 3
               in if capture g 4 = None then Inr (YDate (date_UTC year month day 0 0 0 0), st)
                  else Inr (YDate (date_UTC year month day (group_num g 4) (group_num g 5)
                                     (group_num g 6) (fraction_ms g) - zone_delta g), st))
      | _ \<Rightarrow> Inl (JsError ''Date resolve error''))"

text \<open>\<open>toISOString\<close>\<close>

definition civil_from_days :: "int \<Rightarrow> int \<times> int \<times> int" where
  "civil_from_days z0 =
     (let z = z0 + 719468; era = z div 146097; doe = z mod 146097;
          yoe = (doe - doe div 1460 + doe div 36524 - doe div 146096) div 365;
          doy = doe - (365 * yoe + yoe div 4 - yoe div 100);
          mp = (5 * doy + 2) div 153; d = doy - (153 * mp + 2) div 5 + 1;
          m = (if mp < 10 then mp + 3 else mp - 9)
      in (yoe + era * 400 + (if m \<le> 2 then 1 else 0), m, d))"

definition pad :: "nat \<Rightarrow> int \<Rightarrow> jsstring" where
  "pad w n = (let t = int_text 10 n in replicate (w - length t) 48 @ t)"

definition toISOString :: "int \<Rightarrow> jsstring" where
  "toISOString t =
     (let (y, m, d) = civil_from_days (t div 86400000); r = t mod 86400000;
          yt = (if 0 \<le> y \<and> y \<le> 9999 then pad 4 y
                else if y < 0 then 45 # pad 6 (- y) else 43 # pad 6 y)
      in yt @ 45 # pad 2 m @ 45 # pad 2 d @ 84 # pad 2 (r div 3600000)
         @ 58 # pad 2 (r div 60000 mod 60) @ 58 # pad 2 (r div 1000 mod 60)
         @ 46 # pad 3 (r mod 1000) @ [90])"

definition representYamlTimestamp :: "yval \<Rightarrow> jsstring \<Rightarrow> jsstring" where
  "representYamlTimestamp v style = (case v of YDate t \<Rightarrow> toISOString t | _ \<Rightarrow> [])"

definition is_date :: "yval \<Rightarrow> bool" where
  "is_date v = (case v of YDate _ \<Rightarrow> True | _ \<Rightarrow> False)"

definition yaml_timestamp :: ytype where
  "yaml_timestamp = Type (yaml_tag ''timestamp'') Scalar (Some (on_scalar False resolveYamlTimestamp))
     (Some constructYamlTimestamp) (Some is_date) None (RepFn representYamlTimestamp) None []"

section \<open>Merge keys\<close>

definition resolveYamlMerge :: "jsstring \<Rightarrow> bool" where
  "resolveYamlMerge data \<longleftrightarrow> data = jstr ''<<''"

definition yaml_merge :: ytype where
  "yaml_merge = Type (yaml_tag ''merge'') Scalar (Some (on_scalar True resolveYamlMerge))
     None None None NoRep None []"

section \<open>Binary data\<close>

definition BASE64_MAP :: jsstring where
  "BASE64_MAP =
     jstr ''ABCDEFGHIJKLMNOPQRSTUVWXYZabcdefghijklmnopqrstuvwxyz0123456789+/='' @ [10, 13]"

fun index_of :: "jsstring \<Rightarrow> code_unit \<Rightarrow> int \<Rightarrow> int" where
  "index_of [] c i = - 1"
| "index_of (x # xs) c i = (if x = c then i else index_of xs c (i + 1))"

fun binary_bits :: "jsstring \<Rightarrow> int \<Rightarrow> int option" where
  "binary_bits [] nbits = Some nbits"
| "binary_bits (c # s) nbits =
     (let code = index_of BASE64_MAP c 0 in
      if code > 64 then binary_bits s nbits
      else if code < 0 then None
      else binary_bits s (nbits + 6))"

definition resolveYamlBinary :: "jsstring \<Rightarrow> bool" where
  "resolveYamlBinary data =
     (case binary_bits data 0 of None \<Rightarrow> False | Some nbits \<Rightarrow> nbits mod 8 = 0)"

definition byte_of :: "int \<Rightarrow> byte" where
  "byte_of n = word_of_int (band n 255)"

definition three_bytes :: "int \<Rightarrow> byte list" where
  "three_bytes bits = [byte_of (sar bits 16), byte_of (sar bits 8), byte_of bits]"

fun binary_decode :: "jsstring \<Rightarrow> nat \<Rightarrow> int \<Rightarrow> byte list \<Rightarrow> int \<times> byte list" where
  "binary_decode [] idx bits result = (bits, result)"
| "binary_decode (c # s) idx bits result =
     (let result' = (if idx mod 4 = 0 \<and> idx \<noteq> 0 then result @ three_bytes bits else result)
      in binary_decode s (idx + 1) (bor (shl bits 6) (index_of BASE64_MAP c 0)) result')"

definition constructYamlBinary :: "jsstring \<Rightarrow> yval" where
  "constructYamlBinary data =
     (let input = filter (\<lambda>c. c \<noteq> 13 \<and> c \<noteq> 10 \<and> c \<noteq> 61) data; max = length input;
          (bits, result) = binary_decode input 0 0 []; tailbits = max mod 4 * 6
      in YBuf (if tailbits = 0 then result @ three_bytes bits
               else if tailbits = 18 then result @ [byte_of (sar bits 10), byte_of (sar bits 2)]
               else if tailbits = 12 then result @ [byte_of (sar bits 4)]
               else result))"

definition map64 :: "int \<Rightarrow> code_unit" where
  "map64 n = BASE64_MAP ! nat (band n 63)"

definition four_chars :: "int \<Rightarrow> jsstring" where
  "four_chars bits = [map64 (sar bits 18), map64 (sar bits 12), map64 (sar bits 6), map64 bits]"

fun binary_encode :: "byte list \<Rightarrow> nat \<Rightarrow> int \<Rightarrow> jsstring \<Rightarrow> int \<times> jsstring" where
  "binary_encode [] idx bits result = (bits, result)"
| "binary_encode (b # bs) idx bits result =
     (let result' = (if idx mod 3 = 0 \<and> idx \<noteq> 0 then result @ four_chars bits else result)
      in binary_encode bs (idx + 1) (shl bits 8 + uint b) result')"

definition representYamlBinary :: "yval \<Rightarrow> jsstring \<Rightarrow> jsstring" where
  "representYamlBinary v style =
     (case v of
        YBuf bs \<Rightarrow>
          let (bits, result) = binary_encode bs 0 0 []; tail = length bs mod 3
          in if tail = 0 then result @ four_chars bits
             else if tail = 2 then
               result @ [map64 (sar bits 10), map64 (sar bits 4), map64 (shl bits 2), BASE64_MAP ! 64]
             else result @ [map64 (sar bits 2), map64 (shl bits 4), BASE64_MAP ! 64, BASE64_MAP ! 64]
      | _ \<Rightarrow> [])"

definition isBinary :: "yval \<Rightarrow> bool" where
  "isBinary v = (case v of YBuf _ \<Rightarrow> True | _ \<Rightarrow> False)"

definition yaml_binary :: ytype where
  "yaml_binary = Type (yaml_tag ''binary'') Scalar (Some (on_scalar False resolveYamlBinary))
     (Some (of_scalar constructYamlBinary)) None (Some isBinary) (RepFn representYamlBinary) None []"

section \<open>Ordered maps, pairs and sets\<close>

definition mapping_of :: "store \<Rightarrow> yval \<Rightarrow> props option" where
  "mapping_of st v = (case v of YRef a \<Rightarrow> (case st ! a of YMap m \<Rightarrow> Some m | _ \<Rightarrow> None) | _ \<Rightarrow> None)"

definition elements_of :: "store \<Rightarrow> yval \<Rightarrow> yval list" where
  "elements_of st v = (case v of YRef a \<Rightarrow> (case st ! a of YArr xs \<Rightarrow> xs | _ \<Rightarrow> []) | _ \<Rightarrow> [])"

fun omap_loop :: "store \<Rightarrow> yval list \<Rightarrow> jsstring list \<Rightarrow> bool" where
  "omap_loop st [] objectKeys = True"
| "omap_loop st (pair # rest) objectKeys =
     (case mapping_of st pair of
        None \<Rightarrow> False
      | Some m \<Rightarrow>
          (case object_keys m of
             [pairKey] \<Rightarrow>
               if pairKey \<notin> set objectKeys then omap_loop st rest (objectKeys @ [pairKey]) else False
           | _ \<Rightarrow> False))"

definition resolveYamlOmap :: "store \<Rightarrow> yval \<Rightarrow> bool" where
  "resolveYamlOmap st data = (if data = YNull then True else omap_loop st (elements_of st data) [])"

definition constructYamlOmap :: "store \<Rightarrow> yval \<Rightarrow> (yval \<times> store) yres" where
  "constructYamlOmap st data =
     Inr (if data \<noteq> YNull then (data, st) else (YRef (length st), st @ [YArr []]))"

definition yaml_omap :: ytype where
  "yaml_omap = Type (yaml_tag ''omap'') Sequence (Some resolveYamlOmap) (Some constructYamlOmap)
     None None NoRep None []"

definition resolveYamlPairs :: "store \<Rightarrow> yval \<Rightarrow> bool" where
  "resolveYamlPairs st data =
     (if data = YNull then True
      else list_all (\<lambda>pair. case mapping_of st pair of
                              None \<Rightarrow> False | Some m \<Rightarrow> length (object_keys m) = 1)
             (elements_of st data))"

fun pairs_loop :: "yval list \<Rightarrow> store \<Rightarrow> yval list \<Rightarrow> (yval list \<times> store) yres" where
  "pairs_loop [] st result = Inr (result, st)"
| "pairs_loop (pair # rest) st result =
     (if isNothing pair then Inl (JsError ''Cannot convert undefined or null to object'')
      else
        let ps = own_props st pair;
            (k, v) = (case ps of [] \<Rightarrow> (YUndef, YUndef) | (key, val) # _ \<Rightarrow> (YStr key, val))
        in pairs_loop rest (st @ [YArr [k, v]]) (result @ [YRef (length st)]))"

definition constructYamlPairs :: "store \<Rightarrow> yval \<Rightarrow> (yval \<times> store) yres" where
  "constructYamlPairs st data =
     (if data = YNull then Inr (YRef (length st), st @ [YArr []])
      else bind_r (pairs_loop (elements_of st data) st [])
             (\<lambda>(result, st'). Inr (YRef (length st'), st' @ [YArr result])))"

definition yaml_pairs :: ytype where
  "yaml_pairs = Type (yaml_tag ''pairs'') Sequence (Some resolveYamlPairs) (Some constructYamlPairs)
     None None NoRep None []"

definition resolveYamlSet :: "store \<Rightarrow> yval \<Rightarrow> bool" where
  "resolveYamlSet st data =
     (if data = YNull then True else list_all (\<lambda>(k, v). v = YNull) (own_props st data))"

definition constructYamlSet :: "store \<Rightarrow> yval \<Rightarrow> (yval \<times> store) yres" where
  "constructYamlSet st data =
     Inr (if data \<noteq> YNull then (data, st) else (YRef (length st), st @ [YMap []]))"

definition yaml_set :: ytype where
  "yaml_set = Type (yaml_tag ''set'') Mapping (Some resolveYamlSet) (Some constructYamlSet)
     None None NoRep None []"

section \<open>The JavaScript types\<close>

text \<open>
  The syntax tree esprima returns, as far as it is read, and the constructors that compile
  text: \<open>parse\<close> is \<open>None\<close> where esprima throws (or is not loaded), \<open>new_RegExp\<close> and
  \<open>new_Function\<close> are \<open>None\<close> where they throw.
\<close>

record es_expression =
  es_type :: jsstring
  es_params :: "jsstring list"
  es_body_type :: jsstring
  es_body_range :: "nat \<times> nat"

record es_statement =
  st_type :: jsstring
  st_expression :: es_expression

record es_program =
  prog_type :: jsstring
  prog_body :: "es_statement list"

record js_host =
  parse :: "jsstring \<Rightarrow> es_program option"
  new_RegExp :: "jsstring \<Rightarrow> jsstring \<Rightarrow> yval option"
  new_Function :: "jsstring list \<Rightarrow> jsstring \<Rightarrow> yval option"

definition isUndefined :: "yval \<Rightarrow> bool" where
  "isUndefined v \<longleftrightarrow> v = YUndef"

definition yaml_js_undefined :: ytype where
  "yaml_js_undefined = Type (yaml_tag ''js/undefined'') Scalar (Some (\<lambda>st d. True))
     (Some (\<lambda>st d. Inr (YUndef, st))) None (Some isUndefined) (RepFn (\<lambda>_ _. [])) None []"

text \<open>The capture of \<open>/\/([gim]*)$/\<close>: the flags after the last slash, when only flags follow it.\<close>

definition regexp_tail :: "jsstring \<Rightarrow> jsstring option" where
  "regexp_tail data =
     (let fl = takeWhile (\<lambda>c. c \<in> set (jstr ''gim'')) (rev data); r = drop (length fl) (rev data)
      in if r \<noteq> [] \<and> hd r = 47 then Some (rev fl) else None)"

definition modifiers_of :: "jsstring \<Rightarrow> jsstring" where
  "modifiers_of data = (case regexp_tail data of Some t \<Rightarrow> t | None \<Rightarrow> [])"

definition resolveJavascriptRegExp :: "jsstring \<Rightarrow> bool" where
  "resolveJavascriptRegExp data =
     (if data = [] then False
      else if hd data = 47 then
        let modifiers = modifiers_of data in
        length modifiers \<le> 3 \<and> data ! (length data - length modifiers - 1) = 47
      else True)"

definition constructJavascriptRegExp :: "js_host \<Rightarrow> store \<Rightarrow> yval \<Rightarrow> (yval \<times> store) yres" where
  "constructJavascriptRegExp js st d =
     (case d of
        YStr data \<Rightarrow>
          let slashed = (data \<noteq> [] \<and> hd data = 47);
              modifiers = (if slashed then modifiers_of data else []);
              regexp = (if slashed
                        then str_slice data 1 (int (length data) - int (length modifiers) - 1) else data)
          in (case new_RegExp js regexp modifiers of
                None \<Rightarrow> Inl (JsError ''Invalid regular expression'') | Some v \<Rightarrow> Inr (v, st))
      | _ \<Rightarrow> Inl (JsError ''Cannot read property of a non-string''))"

definition representJavascriptRegExp :: "yval \<Rightarrow> jsstring \<Rightarrow> jsstring" where
  "representJavascriptRegExp v style =
     (case v of
        YRegExp src flags \<Rightarrow>
          [47] @ src @ [47] @ (if 103 \<in> set flags then jstr ''g'' else [])
          @ (if 109 \<in> set flags then jstr ''m'' else []) @ (if 105 \<in> set flags then jstr ''i'' else [])
      | _ \<Rightarrow> [])"

definition isRegExp :: "yval \<Rightarrow> bool" where
  "isRegExp v = (case v of YRegExp _ _ \<Rightarrow> True | _ \<Rightarrow> False)"

definition yaml_js_regexp :: "js_host \<Rightarrow> ytype" where
  "yaml_js_regexp js = Type (yaml_tag ''js/regexp'') Scalar (Some (on_scalar False resolveJavascriptRegExp))
     (Some (constructJavascriptRegExp js)) None (Some isRegExp) (RepFn representJavascriptRegExp) None []"

definition function_expression :: "es_program \<Rightarrow> es_expression option" where
  "function_expression ast =
     (case prog_body ast of
        [s] \<Rightarrow>
          if prog_type ast = jstr ''Program'' \<and> st_type s = jstr ''ExpressionStatement'' \<and>
             (es_type (st_expression s) = jstr ''ArrowFunctionExpression'' \<or>
              es_type (st_expression s) = jstr ''FunctionExpression'')
          then Some (st_expression s) else None
      | _ \<Rightarrow> None)"

definition resolveJavascriptFunction :: "js_host \<Rightarrow> jsstring \<Rightarrow> bool" where
  "resolveJavascriptFunction js data =
     (case parse js ([40] @ data @ [41]) of
        None \<Rightarrow> False | Some ast \<Rightarrow> function_expression ast \<noteq> None)"

definition constructJavascriptFunction :: "js_host \<Rightarrow> store \<Rightarrow> yval \<Rightarrow> (yval \<times> store) yres" where
  "constructJavascriptFunction js st d =
     (case d of
        YStr data \<Rightarrow>
          let source = [40] @ data @ [41] in
          (case parse js source of
             None \<Rightarrow> Inl (JsError ''esprima.parse failed'')
           | Some ast \<Rightarrow>
               (case function_expression ast of
                  None \<Rightarrow> Inl (JsError ''Failed to resolve function'')
                | Some ex \<Rightarrow>
                    let (a, b) = es_body_range ex;
                        body = (if es_body_type ex = jstr ''BlockStatement''
                                then str_slice source (int a + 1) (int b - 1)
                                else jstr ''return '' @ str_slice source (int a) (int b))
                    in (case new_Function js (es_params ex) body of
                          None \<Rightarrow> Inl (JsError ''SyntaxError'') | Some v \<Rightarrow> Inr (v, st))))
      | _ \<Rightarrow> Inl (JsError ''Failed to resolve function''))"

definition representJavascriptFunction :: "yval \<Rightarrow> jsstring \<Rightarrow> jsstring" where
  "representJavascriptFunction v style = (case v of YFun t \<Rightarrow> t | _ \<Rightarrow> [])"

definition isFunction :: "yval \<Rightarrow> bool" where
  "isFunction v = (case v of YFun _ \<Rightarrow> True | _ \<Rightarrow> False)"

definition yaml_js_function :: "js_host \<Rightarrow> ytype" where
  "yaml_js_function js = Type (yaml_tag ''js/function'') Scalar
     (Some (on_scalar False (resolveJavascriptFunction js)))
     (Some (constructJavascriptFunction js)) None (Some isFunction)
     (RepFn representJavascriptFunction) None []"

section \<open>Integers: representation and construction\<close>

lemma is_digit_range:
  assumes "is_digit radix c" "radix \<le> 16"
  shows "48 \<le> uint c \<and> uint c \<le> 57 \<and> uint c < 48 + radix \<or> 65 \<le> uint c \<and> uint c \<le> 70 \<and> 10 < radix \<or>
         97 \<le> uint c \<and> uint c \<le> 102 \<and> 10 < radix"
  using assms by (auto simp: is_digit_def digit_val_def Let_def split: if_splits)

lemma uint_eq_numeral_iff: "(c :: code_unit) = numeral k \<longleftrightarrow> uint c = uint (numeral k :: code_unit)"
  by (simp add: word_uint_eq_iff)

lemma is_digit_not_special:
  assumes "is_digit radix c" "radix \<le> 16"
  shows "c \<noteq> 95" "c \<noteq> 58" "c \<noteq> 45" "c \<noteq> 43" "c \<noteq> 120" "c \<noteq> 88"
  using is_digit_range [OF assms] by auto

lemma is_digit_iff_code:
  "is_digit 2 c \<longleftrightarrow> isBinCode c" "is_digit 8 c \<longleftrightarrow> isOctCode c" "is_digit 10 c \<longleftrightarrow> isDecCode c"
  "is_digit 16 c \<longleftrightarrow> isHexCode c"
  by (auto simp: is_digit_def digit_val_def Let_def isBinCode_def isOctCode_def isDecCode_def
      isHexCode_def word_le_def uint_eq_numeral_iff split: if_splits)

lemma is_digit_code_fun:
  "is_digit 2 = isBinCode" "is_digit 8 = isOctCode" "is_digit 10 = isDecCode" "is_digit 16 = isHexCode"
  by (simp_all add: fun_eq_iff is_digit_iff_code)

lemma strip_sign_digits:
  assumes "list_all (is_digit radix) ds" "radix \<le> 16"
  shows "strip_sign ds = (False, ds)" "unsigned_text ds = ds"
  using assms by (auto simp: strip_sign_def unsigned_text_def dest: is_digit_not_special split: list.split)

lemma strip_0x_digits:
  assumes "list_all (is_digit radix) ds" "radix \<le> 16"
  shows "strip_0x radix ds = ds"
  using assms by (auto simp: strip_0x_def dest: is_digit_not_special split: list.split)

lemma parseInt_digits:
  assumes "list_all (is_digit radix) ds" "radix \<le> 16" "ds \<noteq> []"
  shows "parseInt ds radix = rnd (of_int (digits_value radix ds))"
proof -
  have tw: "takeWhile (is_digit radix) ds = ds"
    using assms(1) by (simp add: takeWhile_eq_all_conv list_all_iff)
  show ?thesis
    using assms by (simp add: parseInt_def strip_sign_digits strip_0x_digits num_sign_def tw Let_def)
qed

lemma digit_loop_digits:
  assumes "list_all (\<lambda>c. c \<noteq> 95 \<and> ok c) ds" "ds \<noteq> []"
  shows "digit_loop ok ds has und"
  using assms
proof (induction ds arbitrary: has und)
  case (Cons c ds)
  then show ?case by (cases ds) auto
qed simp

lemma decimal_loop_digits:
  assumes "list_all isDecCode ds" "ds \<noteq> []"
  shows "decimal_loop ds has und"
  using assms
proof (induction ds arbitrary: has und)
  case (Cons c ds)
  have "is_digit 10 c"
    using Cons.prems by (simp add: is_digit_iff_code)
  note is_digit_not_special [OF this]
  then show ?case
    using Cons by (cases ds) auto
qed simp

lemma filter_underscore_digits:
  assumes "list_all (is_digit radix) ds" "radix \<le> 16"
  shows "filter (\<lambda>c. c \<noteq> 95) ds = ds"
  using assms by (auto simp: filter_id_conv list_all_iff dest: is_digit_not_special)

lemma hd_radix_text:
  assumes "2 \<le> radix" "radix \<le> 16" "0 < n"
  shows "hd (radix_text radix n) \<noteq> 48"
  using assms
proof (induction radix n rule: radix_text.induct)
  case (1 radix n)
  show ?case
  proof (cases "n < radix")
    case True
    have "digit_val (digit_char n) = Some n"
      using 1 True by (intro digit_val_char) auto
    then have "digit_char n \<noteq> 48"
      using 1(4) by (auto simp: digit_val_def)
    then show ?thesis
      using True by (simp add: radix_text.simps [of radix n])
  next
    case False
    then have "0 < n div radix"
      using 1(2) by (simp add: pos_imp_zdiv_pos_iff)
    then show ?thesis
      using 1 False by (simp add: radix_text.simps [of radix n])
  qed
qed

text \<open>What the constructor makes of the four notations of a number's digits.\<close>

definition radix_prefix :: "int \<Rightarrow> jsstring" where
  "radix_prefix radix =
     (if radix = 2 then jstr ''0b'' else if radix = 8 then jstr ''0''
      else if radix = 16 then jstr ''0x'' else [])"

definition radices :: "int set" where
  "radices = {2, 8, 10, 16}"

lemma notation_accepted:
  assumes "radix \<in> radices" "list_all (is_digit radix) ds" "ds \<noteq> []"
    and "radix = 10 \<Longrightarrow> hd ds \<noteq> 48 \<or> ds = [48]"
  shows "resolveYamlInteger (radix_prefix radix @ ds)"
    and "resolveYamlInteger (45 # radix_prefix radix @ ds)"
proof -
  have le: "radix \<le> 16"
    using assms(1) by (auto simp: radices_def)
  obtain d ds' where ds: "ds = d # ds'"
    using assms(3) by (cases ds) auto
  have d: "is_digit radix d" "d \<noteq> 95" "d \<noteq> 58" "d \<noteq> 45" "d \<noteq> 43" "d \<noteq> 120"
    using assms(2) le is_digit_not_special [of radix d] by (simp_all add: ds)
  have ok: "digit_loop (is_digit radix) ds False False" "digit_loop (is_digit radix) ds' True False"
    using digit_loop_digits [of "is_digit radix" ds] digit_loop_digits [of "is_digit radix" ds'] assms(2) le
    by (auto simp: ds list_all_iff dest: is_digit_not_special)
  have b: "d \<noteq> 98" if "radix = 8"
    using d(1) that by (auto simp: is_digit_iff_code isOctCode_def)
  have dec: "decimal_loop ds False False" if "radix = 10"
    using decimal_loop_digits [of ds] assms(2,3) that by (simp add: is_digit_code_fun)
  show "resolveYamlInteger (radix_prefix radix @ ds)"
    and "resolveYamlInteger (45 # radix_prefix radix @ ds)"
    using assms(1) ok dec d b assms(4)
    by (auto simp: radices_def resolveYamlInteger_def radix_prefix_def unsigned_text_def ds
        is_digit_code_fun)
qed


lemma filter_underscore_notation:
  assumes "radix \<in> radices" "list_all (is_digit radix) ds"
  shows "filter (\<lambda>c. c \<noteq> 95) (radix_prefix radix @ ds) = radix_prefix radix @ ds"
  using assms filter_underscore_digits [of radix ds] by (auto simp: radices_def radix_prefix_def)

lemma num_sign_YNum:
  "(if neg then YNum (num_neg x) else YNum x) = YNum (num_sign neg x)"
  by (simp add: num_sign_def)

lemma notation_constructed:
  assumes "radix \<in> radices" "list_all (is_digit radix) ds" "ds \<noteq> []"
    and "radix = 10 \<Longrightarrow> hd ds \<noteq> 48 \<or> ds = [48]"
    and v: "rnd (of_int (digits_value radix ds)) = Fin (of_int (digits_value radix ds))"
  shows "constructYamlInteger (radix_prefix radix @ ds) = YNum (Fin (of_int (digits_value radix ds)))"
    and "digits_value radix ds \<noteq> 0 \<Longrightarrow>
      constructYamlInteger (45 # radix_prefix radix @ ds) = YNum (Fin (of_int (- digits_value radix ds)))"
proof -
  have le: "radix \<le> 16"
    using assms(1) by (auto simp: radices_def)
  obtain d ds' where ds: "ds = d # ds'"
    using assms(3) by (cases ds) auto
  have d: "is_digit radix d" "d \<noteq> 95" "d \<noteq> 58" "d \<noteq> 45" "d \<noteq> 43" "d \<noteq> 120"
    using assms(2) le is_digit_not_special [of radix d] by (simp_all add: ds)
  have b: "d \<noteq> 98" if "radix = 8"
    using d(1) that by (auto simp: is_digit_iff_code isOctCode_def)
  have colon: "58 \<notin> set ds"
    using assms(2) le is_digit_not_special(2) [of radix] by (auto simp: list_all_iff)
  note p = parseInt_digits [OF assms(2) le assms(3)]
  have oct: "parseInt (48 # ds) 8 = Fin (of_int (digits_value radix ds))" if "radix = 8"
    using parseInt_digits [of 8 "48 # ds"] that assms(2) v
    by (simp add: digits_value_def is_digit_def digit_val_def)
  have hex: "parseInt (48 # 120 # ds) 16 = Fin (of_int (digits_value radix ds))" if "radix = 16"
  proof -
    have tw: "takeWhile (is_digit 16) ds = ds"
      using assms(2) that by (simp add: takeWhile_eq_all_conv list_all_iff)
    show ?thesis
      using v that assms(3) by (simp add: parseInt_def strip_sign_def strip_0x_def num_sign_def Let_def tw)
  qed
  have zero: "digits_value radix [48] = 0"
    by (simp add: digits_value_def digit_val_def)
  note filt = filter_underscore_notation [OF assms(1,2)]
  show "constructYamlInteger (radix_prefix radix @ ds) = YNum (Fin (of_int (digits_value radix ds)))"
    using assms(1,4) filt d b colon p v oct hex zero
    by (auto simp: constructYamlInteger_def Let_def radices_def radix_prefix_def unsigned_text_def
        num_sign_def num_neg_def ds)
  assume "digits_value radix ds \<noteq> 0"
  then show "constructYamlInteger (45 # radix_prefix radix @ ds) = YNum (Fin (of_int (- digits_value radix ds)))"
    using assms(1,4) filt d b colon p v oct hex zero
    by (auto simp: constructYamlInteger_def Let_def radices_def radix_prefix_def unsigned_text_def
        num_sign_def num_neg_def ds)
qed

text \<open>Upper case letters are the same digits.\<close>

lemma digit_upper:
  assumes "is_digit 16 c"
  shows "is_digit 16 (upper c) \<and> digit_val (upper c) = digit_val c"
proof (cases "97 \<le> c \<and> c \<le> 122")
  case True
  then have "32 \<le> c"
    by (auto intro: order.trans [of 32 97 c])
  then have "uint (c - 32) = uint c - 32"
    using uint_minus_simple_alt [of 32 c] by simp
  then show ?thesis
    using assms True
    by (auto simp: upper_def is_digit_def digit_val_def Let_def word_le_def split: if_splits)
next
  case False
  then have "upper c = c"
    by (simp add: upper_def)
  then show ?thesis
    using assms by simp
qed

lemma digits_toUpperCase:
  assumes "list_all (is_digit 16) ds"
  shows "list_all (is_digit 16) (toUpperCase ds) \<and> digits_value 16 (toUpperCase ds) = digits_value 16 ds"
proof -
  have "foldl (\<lambda>a c. a * 16 + the (digit_val c)) x (toUpperCase ds) =
      foldl (\<lambda>a c. a * 16 + the (digit_val c)) x ds" for x
    using assms by (induction ds arbitrary: x) (auto simp: toUpperCase_def digit_upper)
  then show ?thesis
    using assms by (auto simp: digits_value_def toUpperCase_def list_all_iff digit_upper)
qed

text \<open>The digits each style writes for a positive number.\<close>

definition style_digits :: "int \<Rightarrow> int \<Rightarrow> jsstring" where
  "style_digits radix n =
     (if radix = 16 then toUpperCase (radix_text 16 n) else radix_text radix n)"

lemma style_digits_ok:
  assumes "radix \<in> radices" "0 \<le> n"
  shows "list_all (is_digit radix) (style_digits radix n)" "style_digits radix n \<noteq> []"
    "digits_value radix (style_digits radix n) = n"
    "radix = 10 \<Longrightarrow> hd (style_digits radix n) \<noteq> 48 \<or> style_digits radix n = [48]"
proof -
  have r: "2 \<le> radix" "radix \<le> 36"
    using assms(1) by (auto simp: radices_def)
  note t = radix_text_digits [OF r assms(2)]
  show "list_all (is_digit radix) (style_digits radix n)" "digits_value radix (style_digits radix n) = n"
    using t digits_toUpperCase [of "radix_text 16 n"] by (auto simp: style_digits_def)
  show "style_digits radix n \<noteq> []"
    by (simp add: style_digits_def toUpperCase_def)
  show "hd (style_digits radix n) \<noteq> 48 \<or> style_digits radix n = [48]" if "radix = 10"
    using hd_radix_text [of 10 n] assms(2) that
    by (cases "n = 0") (auto simp: style_digits_def radix_text.simps [of 10 0] digit_char_def)
qed

lemma style_text:
  assumes "(style, f) \<in> set representYamlInteger" "\<bar>n\<bar> < 2 ^ 53"
  obtains radix where "radix \<in> radices"
    "f (YNum (Fin (of_int n))) =
       (if n < 0 then 45 # radix_prefix radix @ style_digits radix (- n)
        else radix_prefix radix @ style_digits radix n)"
proof -
  have nn: "num_nonneg (YNum (Fin (of_int n))) \<longleftrightarrow> 0 \<le> n"
    by (simp add: num_nonneg_def)
  have rs: "radix_string r (YNum (Fin (of_int n))) = int_text r n" for r
    by (simp add: radix_string_def)
  note d = nn rs num_toString_of_int [OF assms(2)] radices_def radix_prefix_def style_digits_def
    int_text_def
  from assms(1) consider "f = snd (representYamlInteger ! 0)" | "f = snd (representYamlInteger ! 1)"
    | "f = snd (representYamlInteger ! 2)" | "f = snd (representYamlInteger ! 3)"
    by (auto simp: representYamlInteger_def)
  then show thesis
  proof cases
    case 1
    show thesis by (rule that [of 2]) (simp_all add: 1 representYamlInteger_def d)
  next
    case 2
    show thesis by (rule that [of 8]) (simp_all add: 2 representYamlInteger_def d)
  next
    case 3
    show thesis by (rule that [of 10]) (simp_all add: 3 representYamlInteger_def d)
  next
    case 4
    show thesis by (rule that [of 16]) (simp_all add: 4 representYamlInteger_def d toUpperCase_def upper_def)
  qed
qed

text \<open>
  C18: an integer of absolute value below \<open>2 ^ 53\<close>, written in any of the four styles of the
  integer type (binary, octal, decimal, hexadecimal), is accepted by \<open>resolveYamlInteger\<close> and
  read back by \<open>constructYamlInteger\<close> as the same number.
\<close>

theorem integer_styles_round_trip:
  assumes "(style, f) \<in> set representYamlInteger" and "\<bar>n\<bar> < 2 ^ 53"
  shows "resolveYamlInteger (f (YNum (Fin (of_int n)))) \<and>
         constructYamlInteger (f (YNum (Fin (of_int n)))) = YNum (Fin (of_int n))"
proof -
  obtain radix where r: "radix \<in> radices" and t: "f (YNum (Fin (of_int n))) =
       (if n < 0 then 45 # radix_prefix radix @ style_digits radix (- n)
        else radix_prefix radix @ style_digits radix n)"
    using style_text [OF assms] .
  have "rnd (of_int n) = Fin (of_int n)" "rnd (of_int (- n)) = Fin (of_int (- n))"
    using rnd_of_int [of n] rnd_of_int [of "- n"] assms(2) by simp_all
  then show ?thesis
    using notation_accepted [OF r style_digits_ok(1,2,4) [OF r]]
      notation_constructed [OF r style_digits_ok(1,2,4) [OF r]] style_digits_ok(3) [OF r]
    by (cases "n < 0") (simp_all add: t r)
qed

theorem integer_styles_round_trip_witness:
  "resolveYamlInteger (jstr ''-0x1F'') \<and> constructYamlInteger (jstr ''-0x1F'') = YNum (Fin (- 31))"
proof -
  let ?f = "snd (representYamlInteger ! 3)"
  have "(fst (representYamlInteger ! 3), ?f) \<in> set representYamlInteger"
    by (simp add: representYamlInteger_def)
  moreover have "?f (YNum (Fin (of_int (- 31)))) = jstr ''-0x1F''"
    by code_simp
  ultimately show ?thesis
    using integer_styles_round_trip [of "fst (representYamlInteger ! 3)" ?f "- 31"] by simp
qed

end
