(* ===== verification/Yaml_Binary.thy ===== *)
theory Yaml_Binary
  imports Yaml_Type
begin

unbundle bit_operations_syntax

text \<open>
  The binary type of the YAML library: its bit shifting loops compute base 64 by groups of
  three bytes and four characters (\<open>enc64\<close>, \<open>dec64\<close>), and reading back what was written gives
  the same bytes.  The accumulator \<open>bits\<close> is a 32-bit integer whose upper bits hold leftovers of
  earlier groups, so it is tracked modulo a power of two throughout.
\<close>

section \<open>Binary data: representation and construction\<close>

lemma div_mod_window:
  assumes "x mod 2 ^ n = y mod (2 ^ n :: int)" "k + j \<le> n"
  shows "x div 2 ^ k mod 2 ^ j = y div 2 ^ k mod 2 ^ j"
proof -
  have w: "z div 2 ^ k mod 2 ^ j = z mod 2 ^ n div 2 ^ k mod 2 ^ j" for z :: int
  proof -
    have "j \<le> n - k"
      using assms(2) by simp
    then have "take_bit j (drop_bit k z) = take_bit j (drop_bit k (take_bit n z))"
      by (simp add: drop_bit_take_bit min_def)
    then show ?thesis
      by (simp add: take_bit_eq_mod drop_bit_eq_div)
  qed
  show ?thesis
    using w [of x] w [of y] assms(1) by simp
qed

lemma to_int32_window:
  "k + j \<le> 32 \<Longrightarrow> to_int32 x div 2 ^ k mod 2 ^ j = x div 2 ^ k mod 2 ^ j"
  by (rule div_mod_window [of _ 32]) (simp_all add: to_int32_mod del: power_numeral)

lemma band_mask: "band a 63 = a mod 64" "band a 255 = a mod 256"
  using to_int32_mod_power [of 6 a] to_int32_mod_power [of 8 a] and_mask_mod [of "to_int32 a" 6]
    and_mask_mod [of "to_int32 a" 8] by (simp_all add: band_def)

lemma sar_mod: "k \<le> 26 \<Longrightarrow> sar bits k mod 64 = bits div 2 ^ k mod 64"
  using to_int32_window [of k 6 bits] by (simp add: sar_def)

lemma map64_sextet: "map64 bits = BASE64_MAP ! nat (bits mod 64)"
  by (simp add: map64_def band_mask)

lemma shl_mod: "n \<le> 32 \<Longrightarrow> shl bits k mod 2 ^ n = bits * 2 ^ k mod 2 ^ n"
  unfolding shl_def by (metis mod_mult_left_eq to_int32_mod_power)

lemma sar_octet: "k \<le> 24 \<Longrightarrow> byte_of (sar bits k) = word_of_int (bits div 2 ^ k)"
  using to_int32_window [of k 8 bits]
  by (intro word_uint_eqI) (simp add: byte_of_def band_mask sar_def uint_word_of_int)

lemma octet: "byte_of bits = word_of_int bits"
  by (intro word_uint_eqI) (simp add: byte_of_def band_mask uint_word_of_int)

definition sextet :: "int \<Rightarrow> code_unit" where
  "sextet n = BASE64_MAP ! nat n"

lemma BASE64_MAP_codes:
  "BASE64_MAP =
    [65, 66, 67, 68, 69, 70, 71, 72, 73, 74, 75, 76, 77, 78, 79, 80, 81, 82, 83, 84, 85, 86, 87,
     88, 89, 90, 97, 98, 99, 100, 101, 102, 103, 104, 105, 106, 107, 108, 109, 110, 111, 112,
     113, 114, 115, 116, 117, 118, 119, 120, 121, 122, 48, 49, 50, 51, 52, 53, 54, 55, 56, 57,
     43, 47, 61, 10, 13]"
  by (simp add: BASE64_MAP_def)

lemma index_of_nth:
  assumes "distinct xs" "k < length xs"
  shows "index_of xs (xs ! k) i = i + int k"
  using assms by (induction xs arbitrary: k i) (auto simp: nth_Cons split: nat.split)

lemma distinct_BASE64_MAP: "distinct BASE64_MAP" "length BASE64_MAP = 67"
  by (simp_all add: BASE64_MAP_codes)

lemma sextet_props:
  assumes "0 \<le> n" "n < 64"
  shows "index_of BASE64_MAP (sextet n) 0 = n" "sextet n \<noteq> 61" "sextet n \<noteq> 10" "sextet n \<noteq> 13"
proof -
  have tail: "BASE64_MAP ! 64 = 61" "BASE64_MAP ! 65 = 10" "BASE64_MAP ! 66 = 13"
    by (simp_all add: BASE64_MAP_codes)
  show "index_of BASE64_MAP (sextet n) 0 = n"
    using assms index_of_nth [OF distinct_BASE64_MAP(1), of "nat n" 0]
    by (simp add: sextet_def distinct_BASE64_MAP(2))
  show "sextet n \<noteq> 61" "sextet n \<noteq> 10" "sextet n \<noteq> 13"
    using assms nth_eq_iff_index_eq [OF distinct_BASE64_MAP(1), of "nat n" 64]
      nth_eq_iff_index_eq [OF distinct_BASE64_MAP(1), of "nat n" 65]
      nth_eq_iff_index_eq [OF distinct_BASE64_MAP(1), of "nat n" 66]
    by (auto simp: sextet_def tail distinct_BASE64_MAP(2))
qed

lemma base64_pad: "BASE64_MAP ! 64 = 61"
  by (simp add: BASE64_MAP_codes)

text \<open>Base 64 by groups of three bytes and of four characters.\<close>

definition quad :: "int \<Rightarrow> jsstring" where
  "quad v = [sextet (v div 2 ^ 18 mod 64), sextet (v div 2 ^ 12 mod 64), sextet (v div 2 ^ 6 mod 64),
             sextet (v mod 64)]"

fun enc64 :: "byte list \<Rightarrow> jsstring" where
  "enc64 [] = []"
| "enc64 [a] = [sextet (uint a div 4), sextet (uint a mod 4 * 16), 61, 61]"
| "enc64 [a, b] = [sextet (uint a div 4), sextet (uint a mod 4 * 16 + uint b div 16),
                   sextet (uint b mod 16 * 4), 61]"
| "enc64 (a # b # c # bs) = quad (uint a * 65536 + uint b * 256 + uint c) @ enc64 bs"

definition enc_finish :: "nat \<Rightarrow> int \<Rightarrow> jsstring \<Rightarrow> jsstring" where
  "enc_finish tail bits result =
     (if tail = 0 then result @ four_chars bits
      else if tail = 2 then
        result @ [map64 (sar bits 10), map64 (sar bits 4), map64 (shl bits 2), BASE64_MAP ! 64]
      else result @ [map64 (sar bits 2), map64 (shl bits 4), BASE64_MAP ! 64, BASE64_MAP ! 64])"

lemma sar_window:
  assumes "bits mod 2 ^ n = v mod 2 ^ n" "k + 6 \<le> n" "k \<le> 26"
  shows "sar bits k mod 64 = v div 2 ^ k mod 64"
proof -
  have "bits div 2 ^ k mod 2 ^ 6 = v div 2 ^ k mod 2 ^ 6"
    by (rule div_mod_window [OF assms(1,2)])
  then show ?thesis
    unfolding sar_mod [OF assms(3)] by simp
qed

lemma four_chars_quad:
  assumes "bits mod 2 ^ 24 = v mod 2 ^ 24"
  shows "four_chars bits = quad v"
proof -
  have "bits div 2 ^ 0 mod 2 ^ 6 = v div 2 ^ 0 mod 2 ^ 6"
    by (rule div_mod_window [OF assms]) simp
  then have 0: "bits mod 64 = v mod 64"
    by simp
  have 1: "sar bits 18 mod 64 = v div 2 ^ 18 mod 64" "sar bits 12 mod 64 = v div 2 ^ 12 mod 64"
    "sar bits 6 mod 64 = v div 2 ^ 6 mod 64"
    by (rule sar_window [OF assms]; simp)+
  show ?thesis
    by (simp only: four_chars_def quad_def map64_sextet sextet_def 0 1)
qed

lemma shl8_add_mod: "n \<le> 32 \<Longrightarrow> (shl bits 8 + b) mod 2 ^ n = (bits * 256 + b) mod 2 ^ n"
proof -
  assume "n \<le> 32"
  then have "shl bits 8 mod 2 ^ n = bits * 256 mod 2 ^ n"
    using shl_mod [of n bits 8] by simp
  then show ?thesis
    by (rule mod_add_cong) simp
qed

lemma encode_mod:
  assumes "bits mod 2 ^ n = v mod 2 ^ n" "n + 8 \<le> 32"
  shows "(shl bits 8 + uint (b :: byte)) mod 2 ^ (n + 8) = (v * 256 + uint b) mod 2 ^ (n + 8)"
proof -
  have "bits * 2 ^ 8 mod 2 ^ (n + 8) = v * 2 ^ 8 mod 2 ^ (n + 8)"
    using assms(1) by (simp only: power_add mult_mod_left [symmetric])
  then have "(bits * 256 + uint b) mod 2 ^ (n + 8) = (v * 256 + uint b) mod 2 ^ (n + 8)"
    by (intro mod_add_cong) simp_all
  then show ?thesis
    using shl8_add_mod [of "n + 8" bits "uint b"] assms(2) by simp
qed

lemma encode_three:
  "(shl (shl (shl bits 8 + uint a) 8 + uint b) 8 + uint (c :: byte)) mod 2 ^ 24 =
   (uint (a :: byte) * 65536 + uint (b :: byte) * 256 + uint c) mod 2 ^ 24"
proof -
  have n: "0 + 8 + 8 + 8 = (24 :: nat)"
    by simp
  have e: "((0 * 256 + uint a) * 256 + uint b) * 256 + uint c = uint a * 65536 + uint b * 256 + uint c"
    by simp
  have 1: "(shl bits 8 + uint a) mod 2 ^ (0 + 8) = (0 * 256 + uint a) mod 2 ^ (0 + 8)"
    by (rule encode_mod) simp_all
  note 2 = encode_mod [OF 1, of b]
  note 3 = encode_mod [OF 2, of c, unfolded e n]
  show ?thesis
    using 3 by simp
qed

lemma encode_two:
  "(shl (shl bits 8 + uint a) 8 + uint (b :: byte)) mod 2 ^ 16 = (uint (a :: byte) * 256 + uint b) mod 2 ^ 16"
proof -
  have n: "0 + 8 + 8 = (16 :: nat)"
    by simp
  have e: "(0 * 256 + uint a) * 256 + uint b = uint a * 256 + uint b"
    by simp
  have 1: "(shl bits 8 + uint a) mod 2 ^ (0 + 8) = (0 * 256 + uint a) mod 2 ^ (0 + 8)"
    by (rule encode_mod) simp_all
  note 2 = encode_mod [OF 1, of b, unfolded e n]
  show ?thesis
    using 2 by simp
qed

lemma encode_one: "(shl bits 8 + uint (a :: byte)) mod 2 ^ 8 = uint a mod 2 ^ 8"
  using encode_mod [of bits 0 0 a] by simp

lemma byte_parts:
  "0 \<le> uint (a :: byte) div 4" "uint a div 4 < 64" "0 \<le> uint a mod 4" "uint a mod 4 < 4"
  "0 \<le> uint (b :: byte) div 16" "uint b div 16 < 16" "0 \<le> uint b mod 16" "uint b mod 16 < 16"
proof -
  show "0 \<le> uint a div 4" "uint a div 4 < 64"
    using uint_byte_bounds [of a] by linarith+
  show "0 \<le> uint b div 16" "uint b div 16 < 16"
    using uint_byte_bounds [of b] by linarith+
qed simp_all

lemma sextet_parts:
  "0 \<le> uint a div 4" "uint (a :: byte) div 4 < 64" "0 \<le> uint a mod 4 * 16" "uint a mod 4 * 16 < 64"
  "0 \<le> uint a mod 4 * 16 + uint b div 16" "uint a mod 4 * 16 + uint (b :: byte) div 16 < 64"
  "0 \<le> uint b mod 16 * 4" "uint b mod 16 * 4 < 64"
proof -
  note p = byte_parts(1-4) [of a] byte_parts(5-8) [of b]
  show "0 \<le> uint a div 4" "uint a div 4 < 64"
    by (rule p)+
  show "0 \<le> uint a mod 4 * 16" "uint a mod 4 * 16 < 64" "0 \<le> uint b mod 16 * 4" "uint b mod 16 * 4 < 64"
    using p by simp_all
  define q where "q = uint a mod 4"
  define r where "r = uint b div 16"
  have "0 \<le> q" "q < 4" "0 \<le> r" "r < 16"
    unfolding q_def r_def using p by simp_all
  then have "0 \<le> q * 16 + r \<and> q * 16 + r < 64"
    by linarith
  then show "0 \<le> uint a mod 4 * 16 + uint b div 16" "uint a mod 4 * 16 + uint b div 16 < 64"
    by (simp_all add: q_def r_def)
qed

lemma div_group: "0 \<le> r \<Longrightarrow> r < k \<Longrightarrow> (q * k + r) div k = (q :: int)"
  by simp

lemma enc_finish_one:
  "enc_finish 1 (shl bits 8 + uint a) result = result @ enc64 [a]"
proof -
  let ?w = "shl bits 8 + uint a"
  have "?w div 4 mod 64 = uint a div 4"
    using div_mod_window [OF encode_one, of 2 6 bits a] uint_byte_bounds [of a] by simp
  moreover have "shl ?w 4 mod 64 = uint a mod 4 * 16"
    using shl_mod [of 6 ?w 4] div_mod_window [OF encode_one, of 0 2 bits a]
      mult_mod_left [of ?w 4 16] mult_mod_left [of "uint a" 4 16] by simp
  ultimately show ?thesis
    by (simp add: enc_finish_def map64_sextet sar_mod sextet_def base64_pad)
qed

lemma two_byte_sextets:
  assumes "0 \<le> A" "A < 256" "0 \<le> B" "B < (256 :: int)"
  shows "(A * 256 + B) div 1024 mod 64 = A div 4" "(A * 256 + B) div 16 mod 64 = A mod 4 * 16 + B div 16"
    "(A * 256 + B) mod 16 = B mod 16"
proof -
  have "(A * 256 + B) div 256 = A"
    using assms by simp
  then have "(A * 256 + B) div 1024 = A div 4"
    using zdiv_zmult2_eq [of 4 "A * 256 + B" 256] by simp
  then show "(A * 256 + B) div 1024 mod 64 = A div 4"
    using assms by simp
  have "(A * 256 + B) div 16 = A div 4 * 64 + (A mod 4 * 16 + B div 16)"
  proof -
    have "(A * 256 + B) div 16 = A * 16 + B div 16"
      using div_mult_self3 [of 16 "A * 16" B] by simp
    then show ?thesis
      using mult_div_mod_eq [of 4 A] by linarith
  qed
  moreover have "0 \<le> A mod 4 * 16 + B div 16" "A mod 4 * 16 + B div 16 < 64"
    using assms by linarith+
  ultimately show "(A * 256 + B) div 16 mod 64 = A mod 4 * 16 + B div 16"
    by simp
  show "(A * 256 + B) mod 16 = B mod 16"
    using mod_mult_self3 [of "A * 16" 16 B] by (simp add: mult.commute)
qed

lemma enc_finish_two:
  "enc_finish 2 (shl (shl bits 8 + uint a) 8 + uint b) result = result @ enc64 [a, b]"
proof -
  define w where "w = shl (shl bits 8 + uint a) 8 + uint b"
  define v where "v = uint a * 256 + uint b"
  have e: "w mod 2 ^ 16 = v mod 2 ^ 16"
    unfolding w_def v_def by (rule encode_two)
  have s1: "w div 1024 mod 64 = v div 1024 mod 64" and s2: "w div 16 mod 64 = v div 16 mod 64"
    and s3: "w mod 16 = v mod 16"
    using div_mod_window [OF e, of 10 6] div_mod_window [OF e, of 4 6] div_mod_window [OF e, of 0 4]
    by simp_all
  have "shl w 2 mod 64 = w * 4 mod 64"
    using shl_mod [of 6 w 2] by simp
  also have "w * 4 mod 64 = w mod 16 * 4"
    using mult_mod_left [of w 16 4] by simp
  finally have s4: "shl w 2 mod 64 = v mod 16 * 4"
    by (simp only: s3)
  note v = two_byte_sextets [OF uint_byte_bounds [of a] uint_byte_bounds [of b], folded v_def]
  show ?thesis
    unfolding w_def [symmetric]
    by (simp add: enc_finish_def map64_sextet sar_mod sextet_def base64_pad s1 s2 s4 v)
qed


lemma binary_encode_three:
  assumes "idx mod 3 = 0"
  shows "binary_encode (a # b # c # bs) idx bits result =
         binary_encode bs (idx + 3) (shl (shl (shl bits 8 + uint a) 8 + uint b) 8 + uint c)
           (if idx \<noteq> 0 then result @ four_chars bits else result)"
proof -
  have "Suc idx mod 3 \<noteq> 0" "Suc (Suc idx) mod 3 \<noteq> 0"
    using assms by (simp_all add: mod_Suc)
  moreover have "idx + 3 = Suc (Suc (Suc idx))"
    by simp
  ultimately show ?thesis
    using assms by (simp only: binary_encode.simps Let_def Suc_eq_plus1 [symmetric] if_False simp_thms if_bool_eq_conj)
qed

lemma length_three: "length (a # b # c # bs) mod 3 = length bs mod 3"
proof -
  have "length (a # b # c # bs) = length bs + 3"
    by simp
  then show ?thesis
    by (simp only: mod_add_self2)
qed

lemma encode_loop:
  assumes "idx mod 3 = 0" "idx \<noteq> 0"
  shows "(case binary_encode bs idx bits result of (bits', r) \<Rightarrow> enc_finish (length bs mod 3) bits' r) =
         result @ four_chars bits @ enc64 bs"
  using assms
proof (induction bs arbitrary: idx bits result rule: enc64.induct)
  case 1
  then show ?case by (simp add: enc_finish_def)
next
  case (2 a)
  have "length [a] mod 3 = 1"
    by simp
  moreover have "binary_encode [a] idx bits result = (shl bits 8 + uint a, result @ four_chars bits)"
    using 2 by simp
  ultimately show ?case
    using enc_finish_one [of bits a "result @ four_chars bits"] by (simp only: prod.case append_assoc)
next
  case (3 a b)
  have "length [a, b] mod 3 = 2"
    by simp
  moreover have "binary_encode [a, b] idx bits result =
      (shl (shl bits 8 + uint a) 8 + uint b, result @ four_chars bits)"
    using 3 by (simp add: mod_Suc)
  ultimately show ?case
    using enc_finish_two [of bits a b "result @ four_chars bits"] by (simp only: prod.case append_assoc)
next
  case (4 a b c bs)
  let ?w = "shl (shl (shl bits 8 + uint a) 8 + uint b) 8 + uint c"
  have q: "four_chars ?w = quad (uint a * 65536 + uint b * 256 + uint c)"
    by (rule four_chars_quad) (rule encode_three)
  have "(idx + 3) mod 3 = 0" "idx + 3 \<noteq> 0"
    using 4(2) by simp_all
  note 4(1) [OF this, of ?w "result @ four_chars bits"]
  then show ?case
    by (simp only: binary_encode_three [OF 4(2)] length_three 4(3) q if_True not_False_eq_True
        enc64.simps append_assoc)
qed

lemma represent_enc64:
  assumes "bs \<noteq> []"
  shows "representYamlBinary (YBuf bs) style = enc64 bs"
proof -
  have r: "representYamlBinary (YBuf bs) style =
      (case binary_encode bs 0 0 [] of (bits, r) \<Rightarrow> enc_finish (length bs mod 3) bits r)"
    by (simp add: representYamlBinary_def enc_finish_def split_beta Let_def)
  show ?thesis
  proof (cases bs rule: enc64.cases)
    case 1
    then show ?thesis using assms by simp
  next
    case (2 a)
    show ?thesis
      using enc_finish_one [of 0 a "[]"] r by (simp add: 2)
  next
    case (3 a b)
    show ?thesis
      using enc_finish_two [of 0 a b "[]"] r by (simp add: 3 numeral_2_eq_2)
  next
    case (4 a b c cs)
    let ?w = "shl (shl (shl 0 8 + uint a) 8 + uint b) 8 + uint c"
    have q: "four_chars ?w = quad (uint a * 65536 + uint b * 256 + uint c)"
      by (rule four_chars_quad) (rule encode_three)
    show ?thesis
      using encode_loop [of 3 cs ?w "[]"] r
      by (simp add: 4 length_three binary_encode_three q del: binary_encode.simps length_Cons)
  qed
qed

text \<open>Decoding.\<close>

definition code64 :: "code_unit \<Rightarrow> int" where
  "code64 c = index_of BASE64_MAP c 0"

definition triple :: "int \<Rightarrow> byte list" where
  "triple v = [word_of_int (v div 65536), word_of_int (v div 256), word_of_int v]"

fun dec64 :: "jsstring \<Rightarrow> byte list" where
  "dec64 (p # q # r # s # cs) =
     triple (((code64 p * 64 + code64 q) * 64 + code64 r) * 64 + code64 s) @ dec64 cs"
| "dec64 [p, q, r] =
     (let v = (code64 p * 64 + code64 q) * 64 + code64 r in [word_of_int (v div 1024), word_of_int (v div 4)])"
| "dec64 [p, q] = [word_of_int ((code64 p * 64 + code64 q) div 16)]"
| "dec64 _ = []"

definition dec_finish :: "nat \<Rightarrow> int \<Rightarrow> byte list \<Rightarrow> byte list" where
  "dec_finish tailbits bits result =
     (if tailbits = 0 then result @ three_bytes bits
      else if tailbits = 18 then result @ [byte_of (sar bits 10), byte_of (sar bits 2)]
      else if tailbits = 12 then result @ [byte_of (sar bits 4)]
      else result)"

lemma word_of_int_window:
  assumes "x mod 2 ^ n = y mod 2 ^ n" "k + 8 \<le> n"
  shows "(word_of_int (x div 2 ^ k) :: byte) = word_of_int (y div 2 ^ k)"
  using div_mod_window [OF assms] by (intro word_uint_eqI) (simp add: uint_word_of_int)

lemma three_bytes_triple: "bits mod 2 ^ 24 = v mod 2 ^ 24 \<Longrightarrow> three_bytes bits = triple v"
  using word_of_int_window [of bits 24 v 16] word_of_int_window [of bits 24 v 8]
    word_of_int_window [of bits 24 v 0] sar_octet [of 16 bits] sar_octet [of 8 bits] octet [of bits]
  by (simp add: three_bytes_def triple_def)

lemma decode_mod:
  assumes "bits mod 2 ^ n = v mod 2 ^ n" "n + 6 \<le> 32" "0 \<le> code64 c" "code64 c < 64"
  shows "bor (shl bits 6) (index_of BASE64_MAP c 0) mod 2 ^ (n + 6) = (v * 64 + code64 c) mod 2 ^ (n + 6)"
proof -
  have c: "to_int32 (code64 c) = code64 c"
    using assms(3,4) by (intro to_int32_id) simp_all
  have "shl bits 6 mod 64 = 0"
    using shl_mod [of 6 bits 6] by simp
  then have "shl bits 6 div 64 * 64 = shl bits 6"
    using div_mult_mod_eq [of "shl bits 6" 64] by linarith
  then have m: "shl bits 6 div 64 * 2 ^ 6 = shl bits 6"
    by simp
  have i: "to_int32 (shl bits 6) = shl bits 6"
    by (simp add: shl_def)
  have "bor (shl bits 6) (code64 c) = shl bits 6 + code64 c"
    using or_shifted_eq_add(2) [of "code64 c" 6 "shl bits 6 div 64", unfolded m] assms(3,4)
    by (simp add: bor_def c i)
  moreover have "bits * 2 ^ 6 mod 2 ^ (n + 6) = v * 2 ^ 6 mod 2 ^ (n + 6)"
    using assms(1) by (simp only: power_add mult_mod_left [symmetric])
  then have "shl bits 6 mod 2 ^ (n + 6) = v * 64 mod 2 ^ (n + 6)"
    using shl_mod [of "n + 6" bits 6] assms(2) by simp
  ultimately show ?thesis
    using mod_add_cong [of "shl bits 6" "2 ^ (n + 6)" "v * 64" "code64 c" "code64 c"]
    by (simp add: code64_def)
qed

definition codes64 :: "jsstring \<Rightarrow> bool" where
  "codes64 cs \<longleftrightarrow> list_all (\<lambda>c. 0 \<le> code64 c \<and> code64 c < 64) cs"

lemma decode_quad:
  assumes "codes64 [p, q, r, s]"
  shows "bor (shl (bor (shl (bor (shl (bor (shl bits 6) (index_of BASE64_MAP p 0)) 6)
           (index_of BASE64_MAP q 0)) 6) (index_of BASE64_MAP r 0)) 6) (index_of BASE64_MAP s 0) mod 2 ^ 24 =
         (((code64 p * 64 + code64 q) * 64 + code64 r) * 64 + code64 s) mod 2 ^ 24"
proof -
  have c: "0 \<le> code64 p" "code64 p < 64" "0 \<le> code64 q" "code64 q < 64" "0 \<le> code64 r"
    "code64 r < 64" "0 \<le> code64 s" "code64 s < 64"
    using assms by (simp_all add: codes64_def)
  have "bits mod 2 ^ 0 = 0 mod 2 ^ 0"
    by simp
  from decode_mod [OF decode_mod [OF decode_mod [OF decode_mod [OF this _ c(1,2)] _ c(3,4)] _ c(5,6)] _ c(7,8)]
  show ?thesis by (simp add: algebra_simps)
qed

lemma decode_triple:
  assumes "codes64 [p, q, r]"
  shows "bor (shl (bor (shl (bor (shl bits 6) (index_of BASE64_MAP p 0)) 6)
           (index_of BASE64_MAP q 0)) 6) (index_of BASE64_MAP r 0) mod 2 ^ 18 =
         ((code64 p * 64 + code64 q) * 64 + code64 r) mod 2 ^ 18"
proof -
  have c: "0 \<le> code64 p" "code64 p < 64" "0 \<le> code64 q" "code64 q < 64" "0 \<le> code64 r"
    "code64 r < 64"
    using assms by (simp_all add: codes64_def)
  have "bits mod 2 ^ 0 = 0 mod 2 ^ 0"
    by simp
  from decode_mod [OF decode_mod [OF decode_mod [OF this _ c(1,2)] _ c(3,4)] _ c(5,6)]
  show ?thesis by (simp add: algebra_simps)
qed

lemma decode_pair:
  assumes "codes64 [p, q]"
  shows "bor (shl (bor (shl bits 6) (index_of BASE64_MAP p 0)) 6) (index_of BASE64_MAP q 0) mod 2 ^ 12 =
         (code64 p * 64 + code64 q) mod 2 ^ 12"
proof -
  have c: "0 \<le> code64 p" "code64 p < 64" "0 \<le> code64 q" "code64 q < 64"
    using assms by (simp_all add: codes64_def)
  have "bits mod 2 ^ 0 = 0 mod 2 ^ 0"
    by simp
  from decode_mod [OF decode_mod [OF this _ c(1,2)] _ c(3,4)]
  show ?thesis by (simp add: algebra_simps)
qed

lemma dec_finish_triple:
  assumes "codes64 [p, q, r]"
  shows "dec_finish 18 (bor (shl (bor (shl (bor (shl bits 6) (index_of BASE64_MAP p 0)) 6)
           (index_of BASE64_MAP q 0)) 6) (index_of BASE64_MAP r 0)) result = result @ dec64 [p, q, r]"
  using word_of_int_window [OF decode_triple [OF assms], of 10] word_of_int_window [OF decode_triple [OF assms], of 2]
  by (simp add: dec_finish_def sar_octet Let_def)

lemma dec_finish_pair:
  assumes "codes64 [p, q]"
  shows "dec_finish 12 (bor (shl (bor (shl bits 6) (index_of BASE64_MAP p 0)) 6)
           (index_of BASE64_MAP q 0)) result = result @ dec64 [p, q]"
  using word_of_int_window [OF decode_pair [OF assms], of 4]
  by (simp add: dec_finish_def sar_octet)

lemma binary_decode_four:
  assumes "idx mod 4 = 0"
  shows "binary_decode (p # q # r # s # cs) idx bits result =
         binary_decode cs (idx + 4) (bor (shl (bor (shl (bor (shl (bor (shl bits 6) (index_of BASE64_MAP p 0)) 6)
           (index_of BASE64_MAP q 0)) 6) (index_of BASE64_MAP r 0)) 6) (index_of BASE64_MAP s 0))
           (if idx \<noteq> 0 then result @ three_bytes bits else result)"
proof -
  have "Suc idx mod 4 \<noteq> 0" "Suc (Suc idx) mod 4 \<noteq> 0" "Suc (Suc (Suc idx)) mod 4 \<noteq> 0"
    using assms by (simp_all add: mod_Suc)
  moreover have "idx + 4 = Suc (Suc (Suc (Suc idx)))"
    by simp
  ultimately show ?thesis
    using assms by (simp only: binary_decode.simps Let_def Suc_eq_plus1 [symmetric] if_False simp_thms)
qed

lemma length_four: "length (p # q # r # s # cs) mod 4 = length cs mod 4"
proof -
  have "length (p # q # r # s # cs) = length cs + 4"
    by simp
  then show ?thesis
    by (simp only: mod_add_self2)
qed

lemma codes64_Cons: "codes64 (c # cs) \<longleftrightarrow> codes64 [c] \<and> codes64 cs"
  by (simp add: codes64_def)

lemma decode_loop:
  assumes "idx mod 4 = 0" "idx \<noteq> 0" "codes64 cs"
  shows "(case binary_decode cs idx bits result of (bits', r) \<Rightarrow> dec_finish (length cs mod 4 * 6) bits' r) =
         result @ three_bytes bits @ dec64 cs"
  using assms
proof (induction cs arbitrary: idx bits result rule: dec64.induct)
  case (1 p q r s cs)
  let ?w = "bor (shl (bor (shl (bor (shl (bor (shl bits 6) (index_of BASE64_MAP p 0)) 6)
           (index_of BASE64_MAP q 0)) 6) (index_of BASE64_MAP r 0)) 6) (index_of BASE64_MAP s 0)"
  have c: "codes64 [p, q, r, s]" "codes64 cs"
    using 1(4) by (simp_all add: codes64_def)
  have t: "three_bytes ?w = triple (((code64 p * 64 + code64 q) * 64 + code64 r) * 64 + code64 s)"
    by (rule three_bytes_triple) (rule decode_quad [OF c(1)])
  have "(idx + 4) mod 4 = 0" "idx + 4 \<noteq> 0"
    using 1(2) by simp_all
  note 1(1) [OF this c(2), of ?w "result @ three_bytes bits"]
  then show ?case
    by (simp only: binary_decode_four [OF 1(2)] length_four 1(3) t if_True not_False_eq_True
        dec64.simps append_assoc)
next
  case (2 p q r)
  have "length [p, q, r] mod 4 * 6 = 18"
    by simp
  moreover have "binary_decode [p, q, r] idx bits result =
      (bor (shl (bor (shl (bor (shl bits 6) (index_of BASE64_MAP p 0)) 6)
           (index_of BASE64_MAP q 0)) 6) (index_of BASE64_MAP r 0), result @ three_bytes bits)"
    using 2 by (simp add: mod_Suc)
  ultimately show ?case
    using dec_finish_triple [OF 2(3), of bits "result @ three_bytes bits"]
    by (simp only: prod.case append_assoc)
next
  case (3 p q)
  have "length [p, q] mod 4 * 6 = 12"
    by simp
  moreover have "binary_decode [p, q] idx bits result =
      (bor (shl (bor (shl bits 6) (index_of BASE64_MAP p 0)) 6) (index_of BASE64_MAP q 0),
       result @ three_bytes bits)"
    using 3 by (simp add: mod_Suc)
  ultimately show ?case
    using dec_finish_pair [OF 3(3), of bits "result @ three_bytes bits"]
    by (simp only: prod.case append_assoc)
next
  case "4_1"
  then show ?case by (simp add: dec_finish_def)
next
  case "4_2"
  then show ?case by (simp add: dec_finish_def)
qed

lemma construct_dec64:
  fixes data
  defines "cs \<equiv> filter (\<lambda>c. c \<noteq> 13 \<and> c \<noteq> 10 \<and> c \<noteq> 61) data"
  assumes "cs \<noteq> []" "codes64 cs"
  shows "constructYamlBinary data = YBuf (dec64 cs)"
proof -
  have f: "constructYamlBinary data =
      YBuf (case binary_decode cs 0 0 [] of (bits, r) \<Rightarrow> dec_finish (length cs mod 4 * 6) bits r)"
    by (simp add: constructYamlBinary_def dec_finish_def cs_def split_beta Let_def)
  show ?thesis
  proof (cases cs rule: dec64.cases)
    case (1 p q r s xs)
    let ?w = "bor (shl (bor (shl (bor (shl (bor (shl 0 6) (index_of BASE64_MAP p 0)) 6)
           (index_of BASE64_MAP q 0)) 6) (index_of BASE64_MAP r 0)) 6) (index_of BASE64_MAP s 0)"
    have c: "codes64 [p, q, r, s]" "codes64 xs"
      using assms(3) by (simp_all add: 1 codes64_def)
    have t: "three_bytes ?w = triple (((code64 p * 64 + code64 q) * 64 + code64 r) * 64 + code64 s)"
      by (rule three_bytes_triple) (rule decode_quad [OF c(1)])
    show ?thesis
      using decode_loop [of 4 xs ?w "[]"] c(2) f
      by (simp add: 1 length_four binary_decode_four t del: binary_decode.simps length_Cons)
  next
    case (2 p q r)
    show ?thesis
      using dec_finish_triple [of p q r 0 "[]"] assms(3) f by (simp add: 2)
  next
    case (3 p q)
    show ?thesis
      using dec_finish_pair [of p q 0 "[]"] assms(3) f by (simp add: 3)
  next
    case "4_1"
    then show ?thesis using assms(2) by simp
  next
    case "4_2"
    note e = this
    show ?thesis
      using f by (simp add: e dec_finish_def)
  qed
qed

lemma sextets_value:
  assumes "0 \<le> v" "v < (2 ^ 24 :: int)"
  shows "((v div 2 ^ 18 mod 64 * 64 + v div 2 ^ 12 mod 64) * 64 + v div 2 ^ 6 mod 64) * 64 + v mod 64 = v"
proof -
  have "v div 2 ^ 18 < 64"
    using assms(2) by simp
  then have a: "v div 2 ^ 18 mod 64 = v div 2 ^ 12 div 64"
    using assms(1) zdiv_zmult2_eq [of 64 v "2 ^ 12"] by simp
  have b: "v div 2 ^ 12 = v div 2 ^ 6 div 64"
    using zdiv_zmult2_eq [of 64 v "2 ^ 6"] by simp
  have c: "v div 2 ^ 6 = v div 64"
    by simp
  show ?thesis
    by (simp only: a div_mult_mod_eq) (simp only: b div_mult_mod_eq, simp only: c div_mult_mod_eq)
qed

lemma sextet_mod:
  "0 \<le> index_of BASE64_MAP (sextet (x mod 64)) 0" "index_of BASE64_MAP (sextet (x mod 64)) 0 = x mod 64"
  "x mod 64 < 64" "sextet (x mod 64) \<noteq> 61" "sextet (x mod 64) \<noteq> 10" "sextet (x mod 64) \<noteq> 13"
proof -
  have r: "0 \<le> x mod 64" "x mod 64 < 64"
    by simp_all
  show "0 \<le> index_of BASE64_MAP (sextet (x mod 64)) 0" "index_of BASE64_MAP (sextet (x mod 64)) 0 = x mod 64"
    "x mod 64 < 64" "sextet (x mod 64) \<noteq> 61" "sextet (x mod 64) \<noteq> 10" "sextet (x mod 64) \<noteq> 13"
    using sextet_props [OF r] r by simp_all
qed

lemma quad_codes:
  "codes64 (quad v)" "list_all (\<lambda>c. c \<noteq> 13 \<and> c \<noteq> 10 \<and> c \<noteq> 61) (quad v)"
  by (simp_all only: codes64_def quad_def code64_def sextet_mod list.pred_inject pos_mod_sign simp_thms
      zero_less_numeral)

lemma dec64_quad:
  assumes "0 \<le> v" "v < 2 ^ 24"
  shows "dec64 (quad v @ cs) = triple v @ dec64 cs"
  by (simp only: quad_def append.simps dec64.simps code64_def sextet_mod(2) sextets_value [OF assms])

lemma byte_overflow [simp]: "(256 :: byte) = 0" "(65536 :: byte) = 0"
  by simp_all

lemma triple_bytes:
  "triple (uint a * 65536 + uint b * 256 + uint c) = [a, b, c :: byte]"
proof -
  have "0 \<le> uint b * 256 + uint c" "uint b * 256 + uint c < 65536"
    using uint_byte_bounds [of b] uint_byte_bounds [of c] by linarith+
  then have "(uint a * 65536 + uint b * 256 + uint c) div 65536 = uint a"
    using div_group [of "uint b * 256 + uint c" 65536 "uint a"] by (simp only: add.assoc)
  moreover have "(uint a * 65536 + uint b * 256 + uint c) div 256 = uint a * 256 + uint b"
    using div_group [of "uint c" 256 "uint a * 256 + uint b"] by (simp add: ring_distribs)
  ultimately show ?thesis
    by (simp add: triple_def)
qed

lemma dec64_one: "dec64 [sextet (uint a div 4), sextet (uint a mod 4 * 16)] = [a :: byte]"
proof -
  note r = sextet_parts(1-4) [of a]
  have "uint a div 4 * 64 + uint a mod 4 * 16 = uint a * 16 + 0"
    using div_mult_mod_eq [of "uint a" 4] by linarith
  then have "(uint a div 4 * 64 + uint a mod 4 * 16) div 16 = uint a"
    by (simp only: div_group)
  then show ?thesis
    by (simp add: code64_def sextet_props(1) [OF r(1,2)] sextet_props(1) [OF r(3,4)])
qed

lemma dec64_two:
  "dec64 [sextet (uint a div 4), sextet (uint a mod 4 * 16 + uint b div 16), sextet (uint b mod 16 * 4)]
   = [a, b :: byte]"
proof -
  note r = sextet_parts(1,2) [of a] sextet_parts(5,6) [of a b] sextet_parts(7,8) [of b]
  define q r' q2 r2 where "q = uint a div 4" and "r' = uint a mod 4" and "q2 = uint b div 16" and "r2 = uint b mod 16"
  have ab: "uint a = q * 4 + r'" "uint b = q2 * 16 + r2"
    by (simp_all add: q_def r'_def q2_def r2_def)
  let ?v = "(q * 64 + (r' * 16 + q2)) * 64 + r2 * 4"
  have v4: "?v = (uint a * 256 + uint b) * 4 + 0" and v1024: "?v = uint a * 1024 + uint b * 4"
    unfolding ab by simp_all
  have "?v div 4 = uint a * 256 + uint b"
    by (simp only: v4 div_group)
  moreover have "?v div 1024 = uint a"
    unfolding v1024 using uint_byte_bounds [of b] by (intro div_group) linarith+
  ultimately have "(word_of_int (?v div 1024) :: byte) = a" "(word_of_int (?v div 4) :: byte) = b"
    by simp_all
  then show ?thesis
    by (simp only: dec64.simps code64_def sextet_props(1) [OF r(1,2)] sextet_props(1) [OF r(3,4)]
        sextet_props(1) [OF r(5,6)] Let_def q_def r'_def q2_def r2_def)
qed

lemma filter_all: "list_all P xs \<Longrightarrow> filter P xs = xs"
  by (simp add: filter_id_conv list_all_iff)

lemma three_byte_bounds:
  "0 \<le> uint a * 65536 + uint b * 256 + uint (c :: byte)"
  "uint (a :: byte) * 65536 + uint (b :: byte) * 256 + uint c < 2 ^ 24"
proof -
  show "0 \<le> uint a * 65536 + uint b * 256 + uint c"
    by simp
  have "uint a * 65536 + uint b * 256 + uint c < 16777216"
    using uint_byte_bounds [of a] uint_byte_bounds [of b] uint_byte_bounds [of c] by linarith
  then show "uint a * 65536 + uint b * 256 + uint c < 2 ^ 24"
    by simp
qed

lemma dvd4_Suc: "4 dvd Suc (Suc (Suc (Suc n))) \<longleftrightarrow> 4 dvd n"
  by presburger

lemma enc64_filter:
  "codes64 (filter (\<lambda>c. c \<noteq> 13 \<and> c \<noteq> 10 \<and> c \<noteq> 61) (enc64 bs)) \<and>
   dec64 (filter (\<lambda>c. c \<noteq> 13 \<and> c \<noteq> 10 \<and> c \<noteq> 61) (enc64 bs)) = bs"
proof (induction bs rule: enc64.induct)
  case 1
  then show ?case by (simp add: codes64_def)
next
  case (2 a)
  note r = sextet_parts(1-4) [of a]
  show ?case
    using dec64_one [of a] sextet_props [OF r(1,2)] sextet_props [OF r(3,4)] r
    by (simp add: codes64_def code64_def del: dec64.simps)
next
  case (3 a b)
  note r = sextet_parts(1,2) [of a] sextet_parts(5,6) [of a b] sextet_parts(7,8) [of b]
  show ?case
    using dec64_two [of a b] sextet_props [OF r(1,2)] sextet_props [OF r(3,4)] sextet_props [OF r(5,6)] r
    by (simp add: codes64_def code64_def del: dec64.simps)
next
  case (4 a b c bs)
  show ?case
    using 4 quad_codes(1) [of "uint a * 65536 + uint b * 256 + uint c"]
    by (simp add: filter_all [OF quad_codes(2)] dec64_quad [OF three_byte_bounds] triple_bytes codes64_def)
qed

lemma enc64_codes: "list_all (\<lambda>c. 0 \<le> index_of BASE64_MAP c 0 \<and> index_of BASE64_MAP c 0 \<le> 64) (enc64 bs) \<and>
  4 dvd length (enc64 bs)"
proof -
  have pad: "index_of BASE64_MAP 61 0 = 64"
    using index_of_nth [OF distinct_BASE64_MAP(1), of 64 0] by (simp add: distinct_BASE64_MAP(2) base64_pad)
  have s: "0 \<le> index_of BASE64_MAP c 0 \<and> index_of BASE64_MAP c 0 \<le> 64"
    if "c \<in> set (enc64 bs)" for c
  proof (cases "c = 61")
    case True
    then show ?thesis by (simp add: pad)
  next
    case False
    have "list_all (\<lambda>c. c \<noteq> 13 \<and> c \<noteq> 10) (enc64 bs)"
    proof (induction bs rule: enc64.induct)
      case (4 a b c bs)
      then show ?case
        using quad_codes(2) [of "uint a * 65536 + uint b * 256 + uint c"] by (auto simp: list_all_iff)
    next
      case (2 a)
      note r = sextet_parts(1-4) [of a]
      show ?case
        using sextet_props [OF r(1,2)] sextet_props [OF r(3,4)] by simp
    next
      case (3 a b)
      note r = sextet_parts(1,2) [of a] sextet_parts(5,6) [of a b] sextet_parts(7,8) [of b]
      show ?case
        using sextet_props [OF r(1,2)] sextet_props [OF r(3,4)] sextet_props [OF r(5,6)] by simp
    qed simp
    then have "c \<in> set (filter (\<lambda>c. c \<noteq> 13 \<and> c \<noteq> 10 \<and> c \<noteq> 61) (enc64 bs))"
      using that False by (auto simp: list_all_iff)
    then have "0 \<le> code64 c \<and> code64 c < 64"
      using enc64_filter [of bs] by (auto simp: codes64_def list_all_iff)
    then show ?thesis
      by (simp add: code64_def)
  qed
  moreover have "4 dvd length (enc64 bs)"
    by (induction bs rule: enc64.induct) (simp_all add: quad_def dvd4_Suc)
  ultimately show ?thesis
    by (simp add: list_all_iff)
qed

lemma binary_bits_codes:
  "list_all (\<lambda>c. 0 \<le> index_of BASE64_MAP c 0 \<and> index_of BASE64_MAP c 0 \<le> 64) cs \<Longrightarrow>
   binary_bits cs n = Some (n + 6 * int (length cs))"
  by (induction cs arbitrary: n) (auto simp: Let_def)

text \<open>
  C19: the base 64 text \<open>representYamlBinary\<close> writes for a non-empty buffer is accepted by
  \<open>resolveYamlBinary\<close> and read back by \<open>constructYamlBinary\<close> as the same bytes.
\<close>

theorem binary_round_trip:
  assumes "bs \<noteq> []"
  shows "resolveYamlBinary (representYamlBinary (YBuf bs) style) \<and>
         constructYamlBinary (representYamlBinary (YBuf bs) style) = YBuf bs"
proof -
  let ?f = "filter (\<lambda>c. c \<noteq> 13 \<and> c \<noteq> 10 \<and> c \<noteq> 61) (enc64 bs)"
  have d: "codes64 ?f" "dec64 ?f = bs"
    using enc64_filter [of bs] by simp_all
  then have "?f \<noteq> []"
    using assms by (metis dec64.simps(4))
  then have "constructYamlBinary (enc64 bs) = YBuf bs"
    using construct_dec64 [of "enc64 bs"] d by simp
  moreover obtain k where "length (enc64 bs) = 4 * k"
    using enc64_codes [of bs] by (auto simp: dvd_def)
  then have "resolveYamlBinary (enc64 bs)"
    using enc64_codes [of bs] binary_bits_codes [of "enc64 bs" 0] by (simp add: resolveYamlBinary_def)
  ultimately show ?thesis
    by (simp add: represent_enc64 [OF assms])
qed

theorem binary_round_trip_witness:
  "representYamlBinary (YBuf [0, 255]) [] = jstr ''AP8='' \<and>
   resolveYamlBinary (jstr ''AP8='') \<and> constructYamlBinary (jstr ''AP8='') = YBuf [0, 255]"
proof -
  have "representYamlBinary (YBuf [0, 255]) [] = jstr ''AP8=''"
    by code_simp
  then show ?thesis
    using binary_round_trip [of "[0, 255]" "[]"] by simp
qed

text \<open>
  The empty buffer is represented by four characters, which are read back as three bytes;
  the empty text is constructed as three bytes too.
\<close>

lemma binary_empty_not_kept:
  "representYamlBinary (YBuf []) style = jstr ''AAAA''" "constructYamlBinary (jstr ''AAAA'') = YBuf [0, 0, 0]"
  "constructYamlBinary [] = YBuf [0, 0, 0]"
proof -
  show "representYamlBinary (YBuf []) style = jstr ''AAAA''"
    by (simp add: representYamlBinary_def four_chars_def map64_sextet sar_def to_int32_def BASE64_MAP_codes)
  show "constructYamlBinary (jstr ''AAAA'') = YBuf [0, 0, 0]" "constructYamlBinary [] = YBuf [0, 0, 0]"
    by code_simp+
qed

section \<open>Limits of the number and date types\<close>

text \<open>A text the float type accepts but constructs \<open>NaN\<close> from: no digit is left once the
  underscores are removed.\<close>

lemma float_accepts_no_digits:
  "resolveYamlFloat (jstr ''._e5'')" "constructYamlFloat (jstr ''._e5'') = YNum NaN"
  by code_simp+

text \<open>A four digit year below 100 denotes a year of the twentieth century.\<close>

lemma timestamp_early_year:
  "constructYamlTimestamp st (YStr (jstr ''0050-01-01'')) = constructYamlTimestamp st (YStr (jstr ''1950-01-01''))"
proof -
  have "exec_full YAML_DATE_REGEXP (jstr ''0050-01-01'') =
      Some [(3, jstr ''01''), (2, jstr ''01''), (1, jstr ''0050'')]"
    "exec_full YAML_DATE_REGEXP (jstr ''1950-01-01'') =
      Some [(3, jstr ''01''), (2, jstr ''01''), (1, jstr ''1950'')]"
    by code_simp+
  moreover have "group_num [(3, jstr ''01''), (2, jstr ''01''), (1, jstr ''0050'')] 1 = 50"
    "group_num [(3, jstr ''01''), (2, jstr ''01''), (1, jstr ''1950'')] 1 = 1950"
    by code_simp+
  ultimately show ?thesis
    by (simp add: constructYamlTimestamp_def capture_def group_num_def date_UTC_def)
qed

end
