(* ===== verification/Yaml_Schema.thy ===== *)
theory Yaml_Schema
  imports Yaml_Type
begin

text \<open>
  Schemas: lists of types, with inclusion.  \<open>compileList\<close> flattens a schema into the list in
  which a later type replaces an earlier one of the same tag and kind, and \<open>compileMap\<close> indexes
  the types by kind and tag.  The five schemas of the library are defined at the end.
\<close>

section \<open>Compilation\<close>

datatype schema = Schema_of (incl: "schema list") (implicit: "ytype list") (explicit: "ytype list")

definition same_key :: "ytype \<Rightarrow> ytype \<Rightarrow> bool" where
  "same_key previous current \<longleftrightarrow> tag previous = tag current \<and> kind previous = kind current"

fun push_types :: "ytype list \<Rightarrow> ytype list \<Rightarrow> nat list \<Rightarrow> ytype list \<times> nat list" where
  "push_types [] result exclude = (result, exclude)"
| "push_types (currentType # rest) result exclude =
     push_types rest (result @ [currentType])
       (exclude @ filter (\<lambda>i. same_key (result ! i) currentType) [0..<length result])"

definition drop_indices :: "ytype list \<Rightarrow> nat list \<Rightarrow> ytype list" where
  "drop_indices result exclude =
     map snd (filter (\<lambda>(i, t). i \<notin> set exclude) (zip [0..<length result] result))"

function compileList :: "schema \<Rightarrow> (schema \<Rightarrow> ytype list) \<Rightarrow> ytype list \<Rightarrow> ytype list" where
  "compileList schema name result =
     (let result' = foldl (\<lambda>r s. compileList s name r) result (incl schema);
          (result'', exclude) = push_types (name schema) result' []
      in drop_indices result'' exclude)"
  by pat_completeness auto

termination
proof (relation "measure (\<lambda>(s, _, _). size s)")
  fix schema :: schema and s
  assume "s \<in> set (incl schema)"
  then show "((s, name, r), schema, name, result) \<in> measure (\<lambda>(s, _, _). size s)"
    for name :: "schema \<Rightarrow> ytype list" and r result
    by (cases schema) (auto dest: size_list_estimation' [of _ _ _ size] simp: less_Suc_eq_le)
qed simp

declare compileList.simps [simp del]

type_synonym typemap = "(jsstring \<times> ytype) list"

record type_map =
  tm_scalar :: typemap
  tm_sequence :: typemap
  tm_mapping :: typemap
  tm_fallback :: typemap

definition collectType :: "type_map \<Rightarrow> ytype \<Rightarrow> type_map" where
  "collectType result t =
     (let r = result\<lparr>tm_fallback := put_prop (tm_fallback result) (tag t) t\<rparr>
      in case kind t of
           Scalar \<Rightarrow> r\<lparr>tm_scalar := put_prop (tm_scalar r) (tag t) t\<rparr>
         | Sequence \<Rightarrow> r\<lparr>tm_sequence := put_prop (tm_sequence r) (tag t) t\<rparr>
         | Mapping \<Rightarrow> r\<lparr>tm_mapping := put_prop (tm_mapping r) (tag t) t\<rparr>)"

definition compileMap :: "ytype list list \<Rightarrow> type_map" where
  "compileMap args =
     foldl (foldl collectType) \<lparr>tm_scalar = [], tm_sequence = [], tm_mapping = [], tm_fallback = []\<rparr> args"

definition compiledImplicit :: "schema \<Rightarrow> ytype list" where
  "compiledImplicit s = compileList s implicit []"

definition compiledExplicit :: "schema \<Rightarrow> ytype list" where
  "compiledExplicit s = compileList s explicit []"

definition compiledTypeMap :: "schema \<Rightarrow> type_map" where
  "compiledTypeMap s = compileMap [compiledImplicit s, compiledExplicit s]"

text \<open>
  \<open>new Schema(definition)\<close>.  The check of the implicit list reads the property \<open>loadKind\<close>, which
  no type has.
\<close>

definition loadKind :: "ytype \<Rightarrow> ykind option" where
  "loadKind t = None"

definition newSchema :: "schema list \<Rightarrow> ytype list \<Rightarrow> ytype list \<Rightarrow> schema yres" where
  "newSchema inc imp expl =
     (if list_ex (\<lambda>t. loadKind t \<noteq> None \<and> loadKind t \<noteq> Some Scalar) imp
      then Inl (YAMLException (jstr (''There is a non-scalar type in the implicit list of a schema. ''
             @ ''Implicit resolving of such types is not supported.'')) None)
      else Inr (Schema_of inc imp expl))"

text \<open>\<open>Schema.create\<close> on its arguments, each already turned into an array by \<open>toArray\<close>.\<close>

datatype create_item = ISchema schema | IType ytype | IOther

definition schema_of_item :: "create_item \<Rightarrow> schema option" where
  "schema_of_item i = (case i of ISchema s \<Rightarrow> Some s | _ \<Rightarrow> None)"

definition type_of_item :: "create_item \<Rightarrow> ytype option" where
  "type_of_item i = (case i of IType t \<Rightarrow> Some t | _ \<Rightarrow> None)"

definition createSchema :: "create_item list \<Rightarrow> create_item list list \<Rightarrow> schema yres" where
  "createSchema dflt arguments =
     bind_r (case arguments of [types] \<Rightarrow> Inr (dflt, types) | [schemas, types] \<Rightarrow> Inr (schemas, types)
             | _ \<Rightarrow> Inl (YAMLException (jstr ''Wrong number of arguments for Schema.create function'') None))
       (\<lambda>(schemas, types).
          if \<not> list_all (\<lambda>i. schema_of_item i \<noteq> None) schemas then
            Inl (YAMLException (jstr (''Specified list of super schemas (or a single Schema object) ''
              @ ''contains a non-Schema object.'')) None)
          else if \<not> list_all (\<lambda>i. type_of_item i \<noteq> None) types then
            Inl (YAMLException (jstr (''Specified list of YAML types (or a single Type object) ''
              @ ''contains a non-Type object.'')) None)
          else newSchema (List.map_filter schema_of_item schemas) [] (List.map_filter type_of_item types))"

section \<open>The schemas of the library\<close>

definition FAILSAFE_SCHEMA :: schema where
  "FAILSAFE_SCHEMA = Schema_of [] [] [yaml_str, yaml_seq, yaml_map]"

definition JSON_SCHEMA :: schema where
  "JSON_SCHEMA = Schema_of [FAILSAFE_SCHEMA] [yaml_null, yaml_bool, yaml_int, yaml_float] []"

definition CORE_SCHEMA :: schema where
  "CORE_SCHEMA = Schema_of [JSON_SCHEMA] [] []"

definition DEFAULT_SAFE_SCHEMA :: schema where
  "DEFAULT_SAFE_SCHEMA =
     Schema_of [CORE_SCHEMA] [yaml_timestamp, yaml_merge] [yaml_binary, yaml_omap, yaml_pairs, yaml_set]"

definition DEFAULT_FULL_SCHEMA :: "js_host \<Rightarrow> schema" where
  "DEFAULT_FULL_SCHEMA js =
     Schema_of [DEFAULT_SAFE_SCHEMA] [] [yaml_js_undefined, yaml_js_regexp js, yaml_js_function js]"

section \<open>What compilation computes\<close>

text \<open>The types of a schema in the order of inclusion, and the last of each tag and kind.\<close>

function flat :: "(schema \<Rightarrow> ytype list) \<Rightarrow> schema \<Rightarrow> ytype list" where
  "flat name s = concat (map (flat name) (incl s)) @ name s"
  by pat_completeness auto

termination
proof (relation "measure (\<lambda>(_, s). size s)")
  fix s :: schema and x
  assume "x \<in> set (incl s)"
  then show "((name, x), name, s) \<in> measure (\<lambda>(_, s). size s)" for name :: "schema \<Rightarrow> ytype list"
    by (cases s) (auto dest: size_list_estimation' [of _ _ _ size] simp: less_Suc_eq_le)
qed simp

declare flat.simps [simp del]

fun keep_last :: "ytype list \<Rightarrow> ytype list" where
  "keep_last [] = []"
| "keep_last (t # ts) = (if list_ex (same_key t) ts then keep_last ts else t # keep_last ts)"

definition add_type :: "ytype list \<Rightarrow> ytype \<Rightarrow> ytype list" where
  "add_type ts t = filter (\<lambda>x. \<not> same_key x t) ts @ [t]"

lemma drop_indices_snoc:
  assumes "\<forall>i \<in> set ex. i < length res"
  shows "drop_indices (res @ [t]) (ex @ filter (\<lambda>i. same_key (res ! i) t) [0..<length res]) =
         add_type (drop_indices res ex) t"
proof -
  have z: "zip [0..<length (res @ [t])] (res @ [t]) = zip [0..<length res] res @ [(length res, t)]"
    by simp
  have "filter (\<lambda>(i, x). i \<notin> set (ex @ filter (\<lambda>i. same_key (res ! i) t) [0..<length res]))
          (zip [0..<length res] res) =
        filter (\<lambda>(i, x). i \<notin> set ex \<and> \<not> same_key x t) (zip [0..<length res] res)"
    by (rule filter_cong) (auto simp: set_zip)
  then show ?thesis
    using assms unfolding drop_indices_def add_type_def z
    by (auto simp: filter_map comp_def case_prod_unfold)
qed

lemma push_types_add:
  assumes "\<forall>i \<in> set ex. i < length res"
  shows "(case push_types ts res ex of (r, e) \<Rightarrow> drop_indices r e) = foldl add_type (drop_indices res ex) ts"
  using assms
proof (induction ts arbitrary: res ex)
  case (Cons t ts)
  have "\<forall>i \<in> set (ex @ filter (\<lambda>i. same_key (res ! i) t) [0..<length res]). i < length (res @ [t])"
    using Cons.prems by auto
  from Cons.IH [OF this] show ?case
    by (simp add: drop_indices_snoc [OF Cons.prems])
qed simp

lemma drop_indices_Nil [simp]: "drop_indices ts [] = ts"
  by (simp add: drop_indices_def split_beta map_snd_zip)

lemma incl_size: "x \<in> set (incl s) \<Longrightarrow> size x < size s"
  by (cases s) (auto dest: size_list_estimation' [of _ _ _ size] simp: less_Suc_eq_le)

lemma compileList_foldl: "compileList s name result = foldl add_type result (flat name s)"
proof (induction s arbitrary: result rule: measure_induct_rule [of size])
  case (less s)
  have inc: "foldl (\<lambda>r s. compileList s name r) result ss = foldl add_type result (concat (map (flat name) ss))"
    if "set ss \<subseteq> set (incl s)" for ss result
    using that
  proof (induction ss arbitrary: result)
    case (Cons x ss)
    then show ?case
      using less [of x] incl_size [of x s] by simp
  qed simp
  show ?case
    using push_types_add [of "[]" "foldl add_type result (concat (map (flat name) (incl s)))" "name s"]
      inc [of "incl s" result]
    by (simp add: compileList.simps [of s] flat.simps [of name s] Let_def split_beta)
qed

lemma add_type_keep_last: "foldl add_type [] ts = keep_last ts"
proof (induction ts rule: rev_induct)
  case (snoc t ts)
  have "keep_last (ts @ [t]) = filter (\<lambda>x. \<not> same_key x t) (keep_last ts) @ [t]"
    by (induction ts) auto
  then show ?case
    using snoc by (simp add: add_type_def)
qed simp


lemma keep_last_subset: "t \<in> set (keep_last ts) \<Longrightarrow> t \<in> set ts"
  by (induction ts) (auto split: if_splits)

lemma keep_last_distinct: "distinct (map (\<lambda>t. (tag t, kind t)) (keep_last ts))"
proof (induction ts)
  case (Cons t ts)
  then show ?case
    by (auto simp: list_ex_iff same_key_def dest!: keep_last_subset)
qed simp

text \<open>The type map returns the last collected type of a kind and tag.\<close>

definition kind_map :: "type_map \<Rightarrow> ykind option \<Rightarrow> typemap" where
  "kind_map m k =
     (case k of None \<Rightarrow> tm_fallback m | Some Scalar \<Rightarrow> tm_scalar m | Some Sequence \<Rightarrow> tm_sequence m
      | Some Mapping \<Rightarrow> tm_mapping m)"

lemma collectType_lookup:
  "map_of (kind_map (collectType m t) k) tg =
   (if tg = tag t \<and> tg \<noteq> proto \<and> (k = None \<or> k = Some (kind t)) then Some t else map_of (kind_map m k) tg)"
  by (auto simp: kind_map_def collectType_def Let_def map_of_put_prop split: option.split ykind.split)

lemma collect_foldl_lookup:
  "map_of (kind_map (foldl collectType m ts) k) tg =
   (case find (\<lambda>t. tg = tag t \<and> tg \<noteq> proto \<and> (k = None \<or> k = Some (kind t))) (rev ts) of
      Some t \<Rightarrow> Some t | None \<Rightarrow> map_of (kind_map m k) tg)"
proof (induction ts arbitrary: m rule: rev_induct)
  case (snoc t ts)
  show ?case
  proof (cases "tg = tag t \<and> tg \<noteq> proto \<and> (k = None \<or> k = Some (kind t))")
    case True
    then have "tag t \<noteq> proto"
      by auto
    with True show ?thesis
      by (simp add: collectType_lookup)
  next
    case False
    then show ?thesis
      by (simp only: collectType_lookup snoc foldl_append foldl.simps rev_append rev.simps append.simps
          find.simps if_False)
  qed
qed simp



text \<open>A type that is not scalar is let into the implicit list of a schema.\<close>

lemma newSchema_never_rejects: "newSchema inc imp expl = Inr (Schema_of inc imp expl)"
  by (simp add: newSchema_def loadKind_def list_ex_iff)

end
