(* ===== verification/Yaml_Scan.thy ===== *)
theory Yaml_Scan
  imports Yaml_Schema
begin

text \<open>
  The scanner of the YAML loader: its state, the directives, the skipping of white space and
  comments, the readers of plain, quoted and block scalars, of tags, anchors and aliases, and
  the storing of mapping pairs.

  The input ends with a zero code unit the loader appends.  A loop that reads on until it finds
  some character is \<open>seek\<close>, which is \<open>Diverges\<close> when there is none before the end of the input,
  since \<open>charCodeAt\<close> then returns \<open>NaN\<close> for ever; a loop that reads on while it finds some
  character is \<open>advance\<close>.
\<close>

section \<open>Characters\<close>

definition is_EOL :: "int option \<Rightarrow> bool" where
  "is_EOL c \<longleftrightarrow> c = Some 10 \<or> c = Some 13"

definition is_WHITE_SPACE :: "int option \<Rightarrow> bool" where
  "is_WHITE_SPACE c \<longleftrightarrow> c = Some 9 \<or> c = Some 32"

definition is_WS_OR_EOL :: "int option \<Rightarrow> bool" where
  "is_WS_OR_EOL c \<longleftrightarrow> c = Some 9 \<or> c = Some 32 \<or> c = Some 10 \<or> c = Some 13"

definition is_FLOW_INDICATOR :: "int option \<Rightarrow> bool" where
  "is_FLOW_INDICATOR c \<longleftrightarrow> c = Some 44 \<or> c = Some 91 \<or> c = Some 93 \<or> c = Some 123 \<or> c = Some 125"

definition fromHexCode :: "int option \<Rightarrow> int" where
  "fromHexCode c =
     (case c of
        None \<Rightarrow> - 1
      | Some n \<Rightarrow>
          if 48 \<le> n \<and> n \<le> 57 then n - 48
          else let lc = bor n 32 in if 97 \<le> lc \<and> lc \<le> 102 then lc - 97 + 10 else - 1)"

definition escapedHexLen :: "int option \<Rightarrow> nat" where
  "escapedHexLen c = (if c = Some 120 then 2 else if c = Some 117 then 4 else if c = Some 85 then 8 else 0)"

definition fromDecimalCode :: "int option \<Rightarrow> int" where
  "fromDecimalCode c = (case c of None \<Rightarrow> - 1 | Some n \<Rightarrow> if 48 \<le> n \<and> n \<le> 57 then n - 48 else - 1)"

definition simpleEscapeSequence :: "int \<Rightarrow> jsstring" where
  "simpleEscapeSequence c =
     (if c = 48 then [0] else if c = 97 then [7] else if c = 98 then [8] else if c = 116 then [9]
      else if c = 9 then [9] else if c = 110 then [10] else if c = 118 then [11]
      else if c = 102 then [12] else if c = 114 then [13] else if c = 101 then [27]
      else if c = 32 then [32] else if c = 34 then [34] else if c = 47 then [47]
      else if c = 92 then [92] else if c = 78 then [133] else if c = 95 then [160]
      else if c = 76 then [8232] else if c = 80 then [8233] else [])"

definition charFromCodepoint :: "int \<Rightarrow> jsstring" where
  "charFromCodepoint c =
     (if c \<le> 65535 then [fromCharCode c]
      else [fromCharCode (sar (c - 65536) 10 + 55296), fromCharCode (band (c - 65536) 1023 + 56320)])"

definition lead_unit :: "code_unit \<Rightarrow> bool" where
  "lead_unit c \<longleftrightarrow> 0xD800 \<le> c \<and> c \<le> 0xDBFF"

definition trail_unit :: "code_unit \<Rightarrow> bool" where
  "trail_unit c \<longleftrightarrow> 0xDC00 \<le> c \<and> c \<le> 0xDFFF"

definition control_unit :: "code_unit \<Rightarrow> bool" where
  "control_unit c \<longleftrightarrow>
     c \<le> 8 \<or> c = 0x0B \<or> c = 0x0C \<or> 0x0E \<le> c \<and> c \<le> 0x1F \<or> 0x7F \<le> c \<and> c \<le> 0x84 \<or>
     0x86 \<le> c \<and> c \<le> 0x9F \<or> c = 0xFFFE \<or> c = 0xFFFF"

text \<open>\<open>PATTERN_NON_PRINTABLE.test\<close>: a control character or half a surrogate pair; \<open>after\<close> says
  that the previous code unit opens a pair.\<close>

fun non_printable :: "bool \<Rightarrow> jsstring \<Rightarrow> bool" where
  "non_printable after [] = False"
| "non_printable after (c # s) =
     (control_unit c \<or>
      lead_unit c \<and> \<not> (s \<noteq> [] \<and> trail_unit (hd s)) \<or>
      trail_unit c \<and> \<not> after \<or>
      non_printable (lead_unit c) s)"

definition non_ascii_line_break :: "jsstring \<Rightarrow> bool" where
  "non_ascii_line_break s = list_ex (\<lambda>c. c = 0x85 \<or> c = 0x2028 \<or> c = 0x2029) s"

definition letter :: "code_unit \<Rightarrow> bool" where
  "letter c \<longleftrightarrow> 65 \<le> c \<and> c \<le> 90 \<or> 97 \<le> c \<and> c \<le> 122"

definition PATTERN_TAG_HANDLE :: regex where
  "PATTERN_TAG_HANDLE =
     Alt (Lit 33) (Alt (Seq (Lit 33) (Lit 33))
       (Seqs [Lit 33, Plus (Cls (\<lambda>c. letter c \<or> c = 45)), Lit 33]))"

definition PATTERN_TAG_URI :: regex where
  "PATTERN_TAG_URI =
     Seq (Alt (Lit 33) (Cls (\<lambda>c. c \<notin> set (jstr '',[]{}''))))
         (Star (Alt (Seqs [Lit 37, Cls isHexCode, Cls isHexCode])
            (Cls (\<lambda>c. letter c \<or> isDecCode c \<or> c = 39 \<or> c \<in> set (jstr ''-#;/?:@&=+$,_.!~*()[]'')))))"

section \<open>State\<close>

record state =
  input :: jsstring
  len :: nat
  filename :: "jsstring option"
  json :: bool
  legacy :: bool
  implicitTypes :: "ytype list"
  typeMap :: type_map
  s_host :: host
  heap :: store
  position :: nat
  line :: nat
  lineStart :: nat
  lineIndent :: nat
  s_tag :: "jsstring option"
  anchor :: "jsstring option"
  s_kind :: "ykind option"
  result :: yval
  version :: "jsstring option"
  checkLineBreaks :: bool
  tagMap :: "(jsstring \<times> jsstring) list"
  anchorMap :: props
  documents :: "yval list"
  warnings :: "(jsstring \<times> mark) list"

definition code_at :: "state \<Rightarrow> nat \<Rightarrow> int option" where
  "code_at st i = (if i < length (input st) then Some (uint (input st ! i)) else None)"

abbreviation here :: "state \<Rightarrow> int option" where
  "here st \<equiv> code_at st (position st)"

definition segment :: "state \<Rightarrow> nat \<Rightarrow> nat \<Rightarrow> jsstring" where
  "segment st a b = str_slice (input st) (int a) (int b)"

definition advance :: "(code_unit \<Rightarrow> bool) \<Rightarrow> jsstring \<Rightarrow> nat \<Rightarrow> nat" where
  "advance p s i = i + length (takeWhile p (drop i s))"

definition seek :: "(code_unit \<Rightarrow> bool) \<Rightarrow> jsstring \<Rightarrow> nat \<Rightarrow> nat yres" where
  "seek p s i =
     (let j = advance (\<lambda>c. \<not> p c) s i in if j < length s then Inr j else Inl Diverges)"

definition generateError :: "state \<Rightarrow> jsstring \<Rightarrow> jsstring \<times> mark" where
  "generateError st message =
     (message, \<lparr>mname = filename st, mbuffer = input st, mposition = position st, mline = line st,
                mcolumn = int (position st) - int (lineStart st)\<rparr>)"

definition throwError :: "state \<Rightarrow> jsstring \<Rightarrow> 'a yres" where
  "throwError st message = Inl (YAMLException message (Some (snd (generateError st message))))"

text \<open>The calls of \<open>onWarning\<close>, in order.\<close>

definition throwWarning :: "state \<Rightarrow> jsstring \<Rightarrow> state" where
  "throwWarning st message = st\<lparr>warnings := warnings st @ [generateError st message]\<rparr>"

definition append_result :: "state \<Rightarrow> jsstring \<Rightarrow> state" where
  "append_result st s = st\<lparr>result := (case result st of YStr r \<Rightarrow> YStr (r @ s) | v \<Rightarrow> v)\<rparr>"

section \<open>Directives\<close>

definition version_re :: regex where
  "version_re = Seqs [Grp 1 (Plus Digit), Lit 46, Grp 2 (Plus Digit)]"

definition handleYamlDirective :: "state \<Rightarrow> jsstring list \<Rightarrow> state yres" where
  "handleYamlDirective st args =
     (if version st \<noteq> None then throwError st (jstr ''duplication of %YAML directive'')
      else case args of
        [arg] \<Rightarrow>
          (case exec_full version_re arg of
             None \<Rightarrow> throwError st (jstr ''ill-formed argument of the YAML directive'')
           | Some g \<Rightarrow>
               let major = parseInt (the (capture g 1)) 10; minor = parseInt (the (capture g 2)) 10
               in if major \<noteq> Fin 1 then throwError st (jstr ''unacceptable YAML version of the document'')
                  else
                    let st1 = st\<lparr>version := Some arg, checkLineBreaks := (minor = Fin 0 \<or> minor = Fin 1)\<rparr>
                    in if minor \<noteq> Fin 1 \<and> minor \<noteq> Fin 2
                       then Inr (throwWarning st1 (jstr ''unsupported YAML version of the document''))
                       else Inr st1)
      | _ \<Rightarrow> throwError st (jstr ''YAML directive accepts exactly one argument''))"

definition handleTagDirective :: "state \<Rightarrow> jsstring list \<Rightarrow> state yres" where
  "handleTagDirective st args =
     (case args of
        [handle, prefix] \<Rightarrow>
          if \<not> test_full PATTERN_TAG_HANDLE handle then
            throwError st (jstr ''ill-formed tag handle (first argument) of the TAG directive'')
          else if has_prop (tagMap st) handle then
            throwError st (jstr ''there is a previously declared suffix for \"'' @ handle @ jstr ''\" tag handle'')
          else if \<not> test_full PATTERN_TAG_URI prefix then
            throwError st (jstr ''ill-formed tag prefix (second argument) of the TAG directive'')
          else Inr (st\<lparr>tagMap := put_prop (tagMap st) handle prefix\<rparr>)
      | _ \<Rightarrow> throwError st (jstr ''TAG directive accepts exactly two arguments''))"

section \<open>Content\<close>

definition captureSegment :: "state \<Rightarrow> nat \<Rightarrow> nat \<Rightarrow> bool \<Rightarrow> state yres" where
  "captureSegment st start endp checkJson =
     (if start < endp then
        let r = segment st start endp in
        if checkJson then
          (if list_all (\<lambda>c. c = 9 \<or> 32 \<le> c) r then Inr (append_result st r)
           else throwError st (jstr ''expected valid JSON character''))
        else if non_printable False r then
          throwError st (jstr ''the stream contains non-printable characters'')
        else Inr (append_result st r)
      else Inr st)"

definition map_at :: "state \<Rightarrow> nat \<Rightarrow> props" where
  "map_at st a = (case heap st ! a of YMap m \<Rightarrow> m | YArr _ \<Rightarrow> [])"

fun merge_loop :: "props \<Rightarrow> props \<Rightarrow> (jsstring \<times> bool) list \<Rightarrow> props \<times> (jsstring \<times> bool) list" where
  "merge_loop [] destination overridable = (destination, overridable)"
| "merge_loop ((key, v) # rest) destination overridable =
     (if has_prop destination key then merge_loop rest destination overridable
      else merge_loop rest (put_prop destination key v) (put_prop overridable key True))"

definition mergeMappings ::
  "state \<Rightarrow> nat \<Rightarrow> yval \<Rightarrow> (jsstring \<times> bool) list \<Rightarrow> (state \<times> (jsstring \<times> bool) list) yres" where
  "mergeMappings st destination source overridable =
     (if \<not> isObject source then
        throwError st (jstr ''cannot merge mappings; the provided source object is unacceptable'')
      else
        let (m, ov) = merge_loop (own_props (heap st) source) (map_at st destination) overridable
        in Inr (st\<lparr>heap := (heap st)[destination := YMap m]\<rparr>, ov))"

fun mergeAll ::
  "yval list \<Rightarrow> state \<Rightarrow> nat \<Rightarrow> (jsstring \<times> bool) list \<Rightarrow> (state \<times> (jsstring \<times> bool) list) yres" where
  "mergeAll [] st destination overridable = Inr (st, overridable)"
| "mergeAll (source # rest) st destination overridable =
     bind_r (mergeMappings st destination source overridable)
       (\<lambda>(st', ov). mergeAll rest st' destination ov)"

definition merge_tag :: jsstring where
  "merge_tag = yaml_tag ''merge''"

text \<open>
  \<open>storeMappingPair\<close>; \<open>target\<close> is the mapping to store into, \<open>None\<close> where the code passes \<open>null\<close>,
  and the result names the mapping stored into.  A start line or position of zero counts as
  absent.
\<close>

definition or_else :: "nat option \<Rightarrow> nat \<Rightarrow> nat" where
  "or_else v dflt = (case v of Some (Suc n) \<Rightarrow> Suc n | _ \<Rightarrow> dflt)"

definition storeMappingPair ::
  "state \<Rightarrow> nat option \<Rightarrow> (jsstring \<times> bool) list \<Rightarrow> jsstring option \<Rightarrow> yval \<Rightarrow> yval \<Rightarrow>
   nat option \<Rightarrow> nat option \<Rightarrow> (state \<times> nat \<times> (jsstring \<times> bool) list) yres" where
  "storeMappingPair st0 target overridable keyTag keyNode valueNode startLine startPos =
     (let key = js_String (s_host st0) (heap st0) keyNode;
          (st, a) = (case target of
                       Some a \<Rightarrow> (st0, a)
                     | None \<Rightarrow> (st0\<lparr>heap := heap st0 @ [YMap []]\<rparr>, length (heap st0)))
      in if keyTag = Some merge_tag then
           bind_r (if isArray (heap st) valueNode then mergeAll (elements_of (heap st) valueNode) st a overridable
                   else mergeMappings st a valueNode overridable)
             (\<lambda>(st', ov). Inr (st', a, ov))
         else if \<not> json st \<and> \<not> has_prop overridable key \<and> has_prop (map_at st a) key then
           throwError (st\<lparr>line := or_else startLine (line st), position := or_else startPos (position st)\<rparr>)
             (jstr ''duplicated mapping key'')
         else Inr (st\<lparr>heap := (heap st)[a := YMap (put_prop (map_at st a) key valueNode)]\<rparr>, a,
                   delete_prop overridable key))"

section \<open>White space\<close>

definition readLineBreak :: "state \<Rightarrow> state yres" where
  "readLineBreak st =
     bind_r (if here st = Some 10 then Inr (st\<lparr>position := position st + 1\<rparr>)
             else if here st = Some 13 then
               (let st1 = st\<lparr>position := position st + 1\<rparr> in
                if here st1 = Some 10 then Inr (st1\<lparr>position := position st1 + 1\<rparr>) else Inr st1)
             else throwError st (jstr ''a line break is expected''))
       (\<lambda>st1. Inr (st1\<lparr>line := line st1 + 1, lineStart := position st1\<rparr>))"

lemma code_at_SomeD: "code_at st i = Some c \<Longrightarrow> i < length (input st)"
  by (simp add: code_at_def split: if_splits)

lemma advance_ge: "i \<le> advance p s i"
  by (simp add: advance_def)

lemma advance_le: "i \<le> length s \<Longrightarrow> advance p s i \<le> length s"
  using length_takeWhile_le [of p "drop i s"] by (simp add: advance_def)

lemma advance_stop: "(i < length s \<Longrightarrow> \<not> p (s ! i)) \<Longrightarrow> advance p s i = i"
  by (cases "i < length s") (simp_all add: advance_def Cons_nth_drop_Suc [symmetric])

lemma advance_char:
  assumes "advance p s i < length s"
  shows "\<not> p (s ! advance p s i)"
proof -
  have "length (takeWhile p (drop i s)) < length (drop i s)"
    using assms by (simp add: advance_def)
  from nth_length_takeWhile [OF this] show ?thesis
    using assms by (simp add: advance_def)
qed

lemma seek_InrD: "seek p s i = Inr j \<Longrightarrow> i \<le> j \<and> j < length s \<and> p (s ! j)"
  using advance_char [of "\<lambda>c. \<not> p c" s i] advance_ge [of i "\<lambda>c. \<not> p c" s]
  by (auto simp: seek_def Let_def split: if_splits)

lemma readLineBreak_InrD:
  assumes "readLineBreak st = Inr st'"
  shows "position st < position st'" "position st < length (input st)" "input st' = input st"
  using assms
  by (auto simp: readLineBreak_def Let_def throwError_def is_EOL_def dest: code_at_SomeD split: if_splits)

text \<open>The loop of \<open>skipSeparationSpace\<close>; the count is the number of line breaks passed.\<close>

definition skip_comment :: "bool \<Rightarrow> state \<Rightarrow> state yres" where
  "skip_comment allowComments st =
     (if allowComments \<and> here st = Some 35 then
        bind_r (seek (\<lambda>c. c = 10 \<or> c = 13 \<or> c = 0) (input st) (position st + 1))
          (\<lambda>p. Inr (st\<lparr>position := p\<rparr>))
      else Inr st)"

lemma skip_comment_InrD:
  assumes "skip_comment allow st = Inr st'"
  shows "position st \<le> position st'" "input st' = input st"
  using assms by (auto simp: skip_comment_def bind_r_Inr_iff dest: seek_InrD split: if_splits)

function skip_loop :: "bool \<Rightarrow> state \<Rightarrow> nat \<Rightarrow> (nat \<times> state) yres" where
  "skip_loop allowComments st lineBreaks =
     (if here st = Some 0 then Inr (lineBreaks, st)
      else
        bind_r (skip_comment allowComments
                  (st\<lparr>position := advance (\<lambda>c. c = 9 \<or> c = 32) (input st) (position st)\<rparr>))
          (\<lambda>st1. if is_EOL (here st1) then
                   bind_r (readLineBreak st1)
                     (\<lambda>st2. let p = advance (\<lambda>c. c = 32) (input st2) (position st2)
                            in skip_loop allowComments
                                 (st2\<lparr>lineIndent := p - position st2, position := p\<rparr>) (lineBreaks + 1))
                 else Inr (lineBreaks, st1)))"
  by pat_completeness auto

termination
proof (relation "measure (\<lambda>(_, st, _). length (input st) - position st)")
  fix allow :: bool and st :: state and n st1 st2 p
  assume c: "skip_comment allow (st\<lparr>position := advance (\<lambda>c. c = 9 \<or> c = 32) (input st) (position st)\<rparr>) = Inr st1"
    and b: "readLineBreak st1 = Inr st2" and p: "p = advance (\<lambda>c. c = 32) (input st2) (position st2)"
  have "position st \<le> position st1" "input st1 = input st"
    using skip_comment_InrD [OF c] advance_ge [of "position st" "\<lambda>c. c = 9 \<or> c = 32" "input st"]
    by simp_all
  then show "((allow, st2\<lparr>lineIndent := p - position st2, position := p\<rparr>, n + 1), allow, st, n)
      \<in> measure (\<lambda>(_, st, _). length (input st) - position st)"
    using readLineBreak_InrD [OF b] advance_ge [of "position st2" "\<lambda>c. c = 32" "input st2"] p
    by simp
qed simp

declare skip_loop.simps [simp del]

definition skipSeparationSpace :: "state \<Rightarrow> bool \<Rightarrow> int \<Rightarrow> (nat \<times> state) yres" where
  "skipSeparationSpace st allowComments checkIndent =
     bind_r (skip_loop allowComments st 0)
       (\<lambda>(lineBreaks, st1).
          Inr (lineBreaks,
               if checkIndent \<noteq> - 1 \<and> lineBreaks \<noteq> 0 \<and> int (lineIndent st1) < checkIndent
               then throwWarning st1 (jstr ''deficient indentation'') else st1))"

definition testDocumentSeparator :: "state \<Rightarrow> bool" where
  "testDocumentSeparator st =
     (let p = position st; ch = code_at st p in
      (ch = Some 45 \<or> ch = Some 46) \<and> ch = code_at st (p + 1) \<and> ch = code_at st (p + 2) \<and>
      (code_at st (p + 3) = Some 0 \<or> is_WS_OR_EOL (code_at st (p + 3))))"

definition writeFoldedLines :: "state \<Rightarrow> int \<Rightarrow> state" where
  "writeFoldedLines st count =
     (if count = 1 then append_result st (jstr '' '')
      else if count > 1 then append_result st (repeat [10] (count - 1)) else st)"

lemma skip_loop_mono:
  "skip_loop allow st n = Inr (m, st') \<Longrightarrow>
   position st \<le> position st' \<and> input st' = input st \<and> n \<le> m \<and> (is_EOL (here st) \<longrightarrow> position st < position st')"
proof (induction allow st n arbitrary: m st' rule: skip_loop.induct)
  case (1 allow st n)
  show ?case
  proof (cases "here st = Some 0")
    case True
    then show ?thesis
      using 1(2) by (subst (asm) skip_loop.simps) (simp add: is_EOL_def)
  next
    case False
    let ?st0 = "st\<lparr>position := advance (\<lambda>c. c = 9 \<or> c = 32) (input st) (position st)\<rparr>"
    obtain st1 where c: "skip_comment allow ?st0 = Inr st1"
      using 1(2) False by (subst (asm) skip_loop.simps) (auto simp: bind_r_Inr_iff)
    have le: "position st \<le> position st1" "input st1 = input st"
      using skip_comment_InrD [OF c] advance_ge [of "position st" "\<lambda>c. c = 9 \<or> c = 32" "input st"]
      by simp_all
    show ?thesis
    proof (cases "is_EOL (here st1)")
      case True
      then obtain st2 where b: "readLineBreak st1 = Inr st2"
        using 1(2) False c by (subst (asm) skip_loop.simps) (auto simp: bind_r_Inr_iff)
      define p where "p = advance (\<lambda>c. c = 32) (input st2) (position st2)"
      have r: "skip_loop allow (st2\<lparr>lineIndent := p - position st2, position := p\<rparr>) (n + 1) = Inr (m, st')"
        using 1(2) False c True b by (subst (asm) skip_loop.simps) (simp add: p_def Let_def)
      have "p \<le> position st' \<and> input st' = input st2 \<and> n < m"
        using 1(1) [OF False c True b p_def r] by simp
      then show ?thesis
        using le readLineBreak_InrD [OF b] advance_ge [of "position st2" "\<lambda>c. c = 32" "input st2"]
        by (simp add: p_def)
    next
      case False2: False
      then have "m = n" "st' = st1"
        using 1(2) False c by (subst (asm) skip_loop.simps, simp)+
      moreover have "\<not> is_EOL (here st)"
      proof
        assume e: "is_EOL (here st)"
        have "advance (\<lambda>c. c = 9 \<or> c = 32) (input st) (position st) = position st"
          by (rule advance_stop) (use e in \<open>auto simp: is_EOL_def code_at_def split: if_splits\<close>)
        then have "st1 = ?st0" "here ?st0 = here st"
          using c e by (auto simp: skip_comment_def is_EOL_def code_at_def)
        then show False
          using e False2 by simp
      qed
      ultimately show ?thesis
        using le by simp
    qed
  qed
qed

lemma skipSeparationSpace_InrE:
  assumes "skipSeparationSpace st allow ind = Inr (m, st')"
  obtains st1 where "skip_loop allow st 0 = Inr (m, st1)"
    "st' = st1 \<or> st' = throwWarning st1 (jstr ''deficient indentation'')"
proof (cases "skip_loop allow st 0")
  case (Inl e)
  then show thesis
    using assms by (simp add: skipSeparationSpace_def)
next
  case (Inr r)
  then show thesis
    using assms that [of "snd r"] by (cases r) (auto simp: skipSeparationSpace_def split: if_splits)
qed

lemma throwWarning_frame [simp]:
  "position (throwWarning st w) = position st" "input (throwWarning st w) = input st"
  "code_at (throwWarning st w) i = code_at st i"
  by (simp_all add: throwWarning_def code_at_def)

lemma skipSeparationSpace_mono:
  assumes "skipSeparationSpace st allow ind = Inr (m, st')"
  shows "position st \<le> position st' \<and> input st' = input st \<and> (is_EOL (here st) \<longrightarrow> position st < position st')"
proof -
  obtain st1 where "skip_loop allow st 0 = Inr (m, st1)"
    and "st' = st1 \<or> st' = throwWarning st1 (jstr ''deficient indentation'')"
    using skipSeparationSpace_InrE [OF assms] .
  then show ?thesis
    using skip_loop_mono [of allow st 0 m st1] by auto
qed

end
