(* ===== verification/Yaml_Scalar.thy ===== *)
theory Yaml_Scalar
  imports Yaml_Scan
begin

text \<open>
  The readers of the YAML loader that do not call themselves: plain, quoted and block scalars,
  tags, anchors and aliases.  Each returns whether it found what it reads, with the state after
  it.  Every loop advances the position, which is the measure of its recursion; where a loop of
  the code would run past the end of the input for ever, the result is \<open>Diverges\<close>.
\<close>

section \<open>Scalars\<close>

lemma captureSegment_frame:
  assumes "captureSegment st a b chk = Inr st'"
  shows "position st' = position st \<and> input st' = input st \<and> lineStart st' = lineStart st \<and>
         lineIndent st' = lineIndent st \<and> line st' = line st"
  using assms
  by (auto simp: captureSegment_def throwError_def Let_def append_result_def split: if_splits)

lemma writeFoldedLines_frame [simp]:
  "position (writeFoldedLines st n) = position st" "input (writeFoldedLines st n) = input st"
  "lineStart (writeFoldedLines st n) = lineStart st" "lineIndent (writeFoldedLines st n) = lineIndent st"
  "line (writeFoldedLines st n) = line st"
  by (simp_all add: writeFoldedLines_def append_result_def)

text \<open>
  The loop of \<open>readPlainScalar\<close>.  It returns the state and the bounds of the last segment where
  the code leaves the loop; \<open>line0\<close> is the code's \<open>_line\<close>.
\<close>

definition flush_pending :: "state \<Rightarrow> nat \<Rightarrow> nat \<Rightarrow> bool \<Rightarrow> nat \<Rightarrow> (state \<times> nat \<times> nat) yres" where
  "flush_pending st captureStart captureEnd hasPendingContent line0 =
     (if hasPendingContent then
        bind_r (captureSegment st captureStart captureEnd False)
          (\<lambda>st1. Inr (writeFoldedLines st1 (int (line st1) - int line0), position st1, position st1))
      else Inr (st, captureStart, captureEnd))"

lemma flush_pending_frame:
  assumes "flush_pending st a b pend l = Inr (st', a', b')"
  shows "position st' = position st \<and> input st' = input st \<and> lineStart st' = lineStart st \<and>
         lineIndent st' = lineIndent st \<and> line st' = line st \<and>
         (if pend then a' = position st \<and> b' = position st else a' = a \<and> b' = b)"
  using assms
  by (auto simp: flush_pending_def bind_r_Inr_iff dest!: captureSegment_frame split: if_splits)

definition plain_stop :: "bool \<Rightarrow> state \<Rightarrow> bool" where
  "plain_stop withinFlowCollection st =
     (let ch = here st; following = code_at st (position st + 1) in
      if ch = Some 58 then
        is_WS_OR_EOL following \<or> withinFlowCollection \<and> is_FLOW_INDICATOR following
      else if ch = Some 35 then
        0 < position st \<and> is_WS_OR_EOL (code_at st (position st - 1))
      else
        position st = lineStart st \<and> testDocumentSeparator st \<or>
        withinFlowCollection \<and> is_FLOW_INDICATOR ch)"

function plain_loop ::
  "bool \<Rightarrow> int \<Rightarrow> state \<Rightarrow> nat \<Rightarrow> nat \<Rightarrow> bool \<Rightarrow> nat \<Rightarrow> (state \<times> nat \<times> nat) yres" where
  "plain_loop withinFlow nodeIndent st captureStart captureEnd hasPending line0 =
     (if length (input st) \<le> position st then Inl Diverges
      else if here st = Some 0 then Inr (st, captureStart, captureEnd)
      else if plain_stop withinFlow st then Inr (st, captureStart, captureEnd)
      else if is_EOL (here st) then
        bind_r (skipSeparationSpace st False (- 1))
          (\<lambda>(_, st1).
             if nodeIndent \<le> int (lineIndent st1) then
               plain_loop withinFlow nodeIndent st1 captureStart captureEnd True (line st)
             else
               Inr (st1\<lparr>position := captureEnd, line := line st, lineStart := lineStart st,
                        lineIndent := lineIndent st\<rparr>, captureStart, captureEnd))
      else
        bind_r (flush_pending st captureStart captureEnd hasPending line0)
          (\<lambda>(st1, cs, ce).
             plain_loop withinFlow nodeIndent (st1\<lparr>position := position st1 + 1\<rparr>) cs
               (if is_WHITE_SPACE (here st1) then ce else position st1 + 1) False line0))"
  by pat_completeness auto

termination
proof (relation "measure (\<lambda>(_, _, st, _). length (input st) - position st)", goal_cases)
  case (2 w ind st cs ce pend l r n st1)
  then have "position st < position st1" "input st1 = input st"
    using skipSeparationSpace_mono [of st False "- 1" n st1] by auto
  then show ?case
    using 2(1) by simp
next
  case (3 w ind st cs ce pend l r st1 y cs' ce')
  then show ?case
    using flush_pending_frame [of st cs ce pend l st1 cs' ce'] by auto
qed simp

declare plain_loop.simps [simp del]

definition plain_first_excluded :: "int option \<Rightarrow> bool" where
  "plain_first_excluded ch \<longleftrightarrow>
     is_WS_OR_EOL ch \<or> is_FLOW_INDICATOR ch \<or>
     ch \<in> Some ` {35, 38, 42, 33, 124, 62, 39, 34, 37, 64, 96}"

definition readPlainScalar :: "state \<Rightarrow> int \<Rightarrow> bool \<Rightarrow> (bool \<times> state) yres" where
  "readPlainScalar st nodeIndent withinFlow =
     (let ch = here st; following = code_at st (position st + 1) in
      if plain_first_excluded ch then Inr (False, st)
      else if (ch = Some 63 \<or> ch = Some 45) \<and>
              (is_WS_OR_EOL following \<or> withinFlow \<and> is_FLOW_INDICATOR following) then Inr (False, st)
      else
        bind_r (plain_loop withinFlow nodeIndent (st\<lparr>s_kind := Some Scalar, result := YStr []\<rparr>)
                  (position st) (position st) False 0)
          (\<lambda>(st1, cs, ce).
             bind_r (captureSegment st1 cs ce False)
               (\<lambda>st2. if result st2 \<noteq> YStr [] then Inr (True, st2)
                      else Inr (False, st2\<lparr>s_kind := s_kind st, result := result st\<rparr>))))"

text \<open>A line break inside a quoted scalar.\<close>

definition fold_break :: "state \<Rightarrow> int \<Rightarrow> nat \<Rightarrow> nat \<Rightarrow> state yres" where
  "fold_break st nodeIndent captureStart captureEnd =
     bind_r (captureSegment st captureStart captureEnd True)
       (\<lambda>st1. bind_r (skipSeparationSpace st1 False nodeIndent)
          (\<lambda>(n, st2). Inr (writeFoldedLines st2 (int n))))"

lemma fold_break_progress:
  assumes "fold_break st ind a b = Inr st'" "is_EOL (here st)"
  shows "position st < position st' \<and> input st' = input st"
proof -
  obtain st1 where c: "captureSegment st a b True = Inr st1"
    using assms(1) by (auto simp: fold_break_def bind_r_Inr_iff)
  obtain n st2 where s: "skipSeparationSpace st1 False ind = Inr (n, st2)" and e: "st' = writeFoldedLines st2 (int n)"
    using assms(1) c by (auto simp: fold_break_def bind_r_Inr_iff)
  have "here st1 = here st"
    using captureSegment_frame [OF c] by (simp add: code_at_def)
  then show ?thesis
    using captureSegment_frame [OF c] skipSeparationSpace_mono [OF s] assms(2) by (simp add: e)
qed

function single_loop :: "int \<Rightarrow> state \<Rightarrow> nat \<Rightarrow> nat \<Rightarrow> (bool \<times> state) yres" where
  "single_loop nodeIndent st captureStart captureEnd =
     (if length (input st) \<le> position st then Inl Diverges
      else if here st = Some 0 then
        throwError st (jstr ''unexpected end of the stream within a single quoted scalar'')
      else if here st = Some 39 then
        bind_r (captureSegment st captureStart (position st) True)
          (\<lambda>st1. let st2 = st1\<lparr>position := position st1 + 1\<rparr> in
             if here st2 = Some 39 then
               single_loop nodeIndent (st2\<lparr>position := position st2 + 1\<rparr>) (position st2) (position st2 + 1)
             else Inr (True, st2))
      else if is_EOL (here st) then
        bind_r (fold_break st nodeIndent captureStart captureEnd)
          (\<lambda>st1. single_loop nodeIndent st1 (position st1) (position st1))
      else if position st = lineStart st \<and> testDocumentSeparator st then
        throwError st (jstr ''unexpected end of the document within a single quoted scalar'')
      else
        single_loop nodeIndent (st\<lparr>position := position st + 1\<rparr>) captureStart (position st + 1))"
  by pat_completeness auto

termination
proof (relation "measure (\<lambda>(_, st, _). length (input st) - position st)", goal_cases)
  case (2 ind st cs ce st1 st2)
  then show ?case
    using captureSegment_frame [of st cs "position st" True st1] by auto
next
  case (3 ind st cs ce st1)
  then show ?case
    using fold_break_progress [of st ind cs ce st1] by auto
next
  case (4 ind st cs ce)
  then show ?case by simp
qed simp

declare single_loop.simps [simp del]

definition readSingleQuotedScalar :: "state \<Rightarrow> int \<Rightarrow> (bool \<times> state) yres" where
  "readSingleQuotedScalar st nodeIndent =
     (if here st \<noteq> Some 39 then Inr (False, st)
      else single_loop nodeIndent
             (st\<lparr>s_kind := Some Scalar, result := YStr [], position := position st + 1\<rparr>)
             (position st + 1) (position st + 1))"

text \<open>The digits of a hexadecimal escape: the position stops at the last digit.\<close>

fun hex_loop :: "nat \<Rightarrow> state \<Rightarrow> int \<Rightarrow> (state \<times> int) yres" where
  "hex_loop 0 st hexResult = Inr (st, hexResult)"
| "hex_loop (Suc hexLength) st hexResult =
     (let st1 = st\<lparr>position := position st + 1\<rparr>; tmp = fromHexCode (here st1) in
      if 0 \<le> tmp then hex_loop hexLength st1 (shl hexResult 4 + tmp)
      else throwError st1 (jstr ''expected hexadecimal character''))"

definition simple_escape :: "int option \<Rightarrow> jsstring" where
  "simple_escape ch = (case ch of None \<Rightarrow> [] | Some c \<Rightarrow> if c < 256 then simpleEscapeSequence c else [])"

text \<open>The state after an escape, whose backslash is at the current position.\<close>

definition read_escape :: "state \<Rightarrow> int \<Rightarrow> state yres" where
  "read_escape st0 nodeIndent =
     (let st = st0\<lparr>position := position st0 + 1\<rparr>; ch = here st in
      if is_EOL ch then
        bind_r (skipSeparationSpace st False nodeIndent) (\<lambda>(_, st1). Inr st1)
      else if simple_escape ch \<noteq> [] then
        Inr ((append_result st (simple_escape ch))\<lparr>position := position st + 1\<rparr>)
      else if 0 < escapedHexLen ch then
        bind_r (hex_loop (escapedHexLen ch) st 0)
          (\<lambda>(st1, hexResult).
             Inr ((append_result st1 (charFromCodepoint hexResult))\<lparr>position := position st1 + 1\<rparr>))
      else throwError st (jstr ''unknown escape sequence''))"

lemma hex_loop_frame:
  "hex_loop n st r = Inr (st', r') \<Longrightarrow> position st' = position st + n \<and> input st' = input st"
  by (induction n st r rule: hex_loop.induct) (auto simp: Let_def throwError_def split: if_splits)

lemma append_result_frame [simp]:
  "position (append_result st s) = position st" "input (append_result st s) = input st"
  "lineStart (append_result st s) = lineStart st" "lineIndent (append_result st s) = lineIndent st"
  "line (append_result st s) = line st"
  by (simp_all add: append_result_def)

lemma read_escape_progress:
  assumes "read_escape st ind = Inr st'"
  shows "position st < position st' \<and> input st' = input st"
  using assms
  by (auto simp: read_escape_def Let_def throwError_def bind_r_Inr_iff
      dest!: skipSeparationSpace_mono hex_loop_frame split: if_splits)

function double_loop :: "int \<Rightarrow> state \<Rightarrow> nat \<Rightarrow> nat \<Rightarrow> (bool \<times> state) yres" where
  "double_loop nodeIndent st captureStart captureEnd =
     (if length (input st) \<le> position st then Inl Diverges
      else if here st = Some 0 then
        throwError st (jstr ''unexpected end of the stream within a double quoted scalar'')
      else if here st = Some 34 then
        bind_r (captureSegment st captureStart (position st) True)
          (\<lambda>st1. Inr (True, st1\<lparr>position := position st1 + 1\<rparr>))
      else if here st = Some 92 then
        bind_r (captureSegment st captureStart (position st) True)
          (\<lambda>st1. bind_r (read_escape st1 nodeIndent)
             (\<lambda>st2. double_loop nodeIndent st2 (position st2) (position st2)))
      else if is_EOL (here st) then
        bind_r (fold_break st nodeIndent captureStart captureEnd)
          (\<lambda>st1. double_loop nodeIndent st1 (position st1) (position st1))
      else if position st = lineStart st \<and> testDocumentSeparator st then
        throwError st (jstr ''unexpected end of the document within a double quoted scalar'')
      else
        double_loop nodeIndent (st\<lparr>position := position st + 1\<rparr>) captureStart (position st + 1))"
  by pat_completeness auto

termination
proof (relation "measure (\<lambda>(_, st, _). length (input st) - position st)", goal_cases)
  case (2 ind st cs ce st1 st2)
  then show ?case
    using captureSegment_frame [of st cs "position st" True st1] read_escape_progress [of st1 ind st2] by auto
next
  case (3 ind st cs ce st1)
  then show ?case
    using fold_break_progress [of st ind cs ce st1] by auto
next
  case (4 ind st cs ce)
  then show ?case by simp
qed simp

declare double_loop.simps [simp del]

definition readDoubleQuotedScalar :: "state \<Rightarrow> int \<Rightarrow> (bool \<times> state) yres" where
  "readDoubleQuotedScalar st nodeIndent =
     (if here st \<noteq> Some 34 then Inr (False, st)
      else double_loop nodeIndent
             (st\<lparr>s_kind := Some Scalar, result := YStr [], position := position st + 1\<rparr>)
             (position st + 1) (position st + 1))"

section \<open>Block scalars\<close>

datatype chomping = Clip | Strip | Keep

record block_header =
  bh_chomping :: chomping
  bh_detected :: bool
  bh_indent :: int

lemma fromDecimalCode_SomeD: "0 \<le> fromDecimalCode c \<Longrightarrow> \<exists>n. c = Some n"
  by (cases c) (auto simp: fromDecimalCode_def)

function header_loop :: "int \<Rightarrow> state \<Rightarrow> block_header \<Rightarrow> (state \<times> block_header) yres" where
  "header_loop nodeIndent st0 h =
     (if here st0 = Some 0 then Inr (st0, h)
      else
        let st = st0\<lparr>position := position st0 + 1\<rparr>; ch = here st; tmp = fromDecimalCode ch in
        if ch = Some 43 \<or> ch = Some 45 then
          (if bh_chomping h = Clip then
             header_loop nodeIndent st (h\<lparr>bh_chomping := (if ch = Some 43 then Keep else Strip)\<rparr>)
           else throwError st (jstr ''repeat of a chomping mode identifier''))
        else if 0 \<le> tmp then
          (if tmp = 0 then
             throwError st (jstr ''bad explicit indentation width of a block scalar; it cannot be less than one'')
           else if \<not> bh_detected h then
             header_loop nodeIndent st (h\<lparr>bh_indent := nodeIndent + tmp - 1, bh_detected := True\<rparr>)
           else throwError st (jstr ''repeat of an indentation width identifier''))
        else Inr (st, h))"
  by pat_completeness auto

termination
proof (relation "measure (\<lambda>(_, st, _). length (input st) - position st)", goal_cases)
  case (2 ind st0 h st ch tmp)
  then have "position st < length (input st0)"
    by (auto dest: code_at_SomeD)
  then show ?case
    using 2(2) by simp
next
  case (3 ind st0 h st ch tmp)
  then have "position st < length (input st0)"
    by (auto dest!: fromDecimalCode_SomeD code_at_SomeD)
  then show ?case
    using 3(2) by simp
qed simp

declare header_loop.simps [simp del]

text \<open>The blanks and the comment after the header.\<close>

definition header_comment :: "state \<Rightarrow> state yres" where
  "header_comment st =
     (if is_WHITE_SPACE (here st) then
        let st1 = st\<lparr>position := advance (\<lambda>c. c = 9 \<or> c = 32) (input st) (position st + 1)\<rparr> in
        if here st1 = Some 35 then
          bind_r (seek (\<lambda>c. c = 10 \<or> c = 13 \<or> c = 0) (input st1) (position st1 + 1))
            (\<lambda>p. Inr (st1\<lparr>position := p\<rparr>))
        else Inr st1
      else Inr st)"

definition newlines :: "nat \<Rightarrow> jsstring" where
  "newlines n = repeat [10] (int n)"

text \<open>What is added to the result before a line of content.\<close>

definition block_separator :: "bool \<Rightarrow> bool \<Rightarrow> bool \<Rightarrow> bool \<Rightarrow> nat \<Rightarrow> jsstring" where
  "block_separator isFolded blank atMoreIndented didReadContent emptyLines =
     (if isFolded then
        (if blank then newlines (if didReadContent then 1 + emptyLines else emptyLines)
         else if atMoreIndented then newlines (emptyLines + 1)
         else if emptyLines = 0 then (if didReadContent then jstr '' '' else [])
         else newlines emptyLines)
      else newlines (if didReadContent then 1 + emptyLines else emptyLines))"

definition block_tail :: "chomping \<Rightarrow> bool \<Rightarrow> nat \<Rightarrow> jsstring" where
  "block_tail chomp didReadContent emptyLines =
     (case chomp of
        Keep \<Rightarrow> newlines (if didReadContent then 1 + emptyLines else emptyLines)
      | Clip \<Rightarrow> if didReadContent then [10] else []
      | Strip \<Rightarrow> [])"

text \<open>The spaces that indent a line: all of them, or at most \<open>textIndent\<close> once that is known.\<close>

definition indent_width :: "bool \<Rightarrow> int \<Rightarrow> jsstring \<Rightarrow> nat \<Rightarrow> nat" where
  "indent_width detectedIndent textIndent s i =
     (let n = advance (\<lambda>c. c = 32) s i - i in if detectedIndent then min n (nat textIndent) else n)"

function block_loop ::
  "bool \<Rightarrow> chomping \<Rightarrow> state \<Rightarrow> bool \<Rightarrow> int \<Rightarrow> bool \<Rightarrow> nat \<Rightarrow> bool \<Rightarrow> state yres" where
  "block_loop isFolded chomp st detectedIndent textIndent0 didReadContent emptyLines atMoreIndented =
     (if here st = Some 0 then Inr st
      else
        bind_r (readLineBreak st)
          (\<lambda>st1.
             let w = indent_width detectedIndent textIndent0 (input st1) (position st1);
                 st2 = st1\<lparr>lineIndent := w, position := position st1 + w\<rparr>; ch = here st2;
                 textIndent = (if \<not> detectedIndent \<and> textIndent0 < int w then int w else textIndent0)
             in if is_EOL ch then
                  block_loop isFolded chomp st2 detectedIndent textIndent didReadContent (emptyLines + 1)
                    atMoreIndented
                else if int w < textIndent then
                  Inr (append_result st2 (block_tail chomp didReadContent emptyLines))
                else
                  let st3 = append_result st2 (block_separator isFolded (is_WHITE_SPACE ch) atMoreIndented
                                                 didReadContent emptyLines);
                      more = (if isFolded then is_WHITE_SPACE ch else atMoreIndented)
                  in bind_r (seek (\<lambda>c. c = 10 \<or> c = 13 \<or> c = 0) (input st3) (position st3))
                       (\<lambda>p. bind_r (captureSegment (st3\<lparr>position := p\<rparr>) (position st3) p False)
                          (\<lambda>st4. block_loop isFolded chomp st4 True textIndent True 0 more))))"
  by pat_completeness auto

termination
proof (relation "measure (\<lambda>(_, _, st, _). length (input st) - position st)", goal_cases)
  case (2 f c st d t r e m st1 w st2 ch t')
  then show ?case
    using readLineBreak_InrD [of st st1] by simp
next
  case (3 f c st d t r e m st1 w st2 ch t' st3 more p st4)
  then show ?case
    using readLineBreak_InrD [of st st1] captureSegment_frame [of "st3\<lparr>position := p\<rparr>" "position st3" p False st4]
    by (auto dest!: seek_InrD)
qed simp

declare block_loop.simps [simp del]

definition readBlockScalar :: "state \<Rightarrow> int \<Rightarrow> (bool \<times> state) yres" where
  "readBlockScalar st nodeIndent =
     (if here st \<noteq> Some 124 \<and> here st \<noteq> Some 62 then Inr (False, st)
      else
        bind_r (header_loop nodeIndent (st\<lparr>s_kind := Some Scalar, result := YStr []\<rparr>)
                  \<lparr>bh_chomping = Clip, bh_detected = False, bh_indent = nodeIndent\<rparr>)
          (\<lambda>(st1, h). bind_r (header_comment st1)
             (\<lambda>st2. bind_r (block_loop (here st = Some 62) (bh_chomping h) st2 (bh_detected h) (bh_indent h)
                              False 0 False)
                (\<lambda>st3. Inr (True, st3)))))"

section \<open>Node properties\<close>

function tag_loop :: "state \<Rightarrow> nat \<Rightarrow> bool \<Rightarrow> jsstring \<Rightarrow> (state \<times> nat \<times> jsstring) yres" where
  "tag_loop st start isNamed tagHandle =
     (if length (input st) \<le> position st then Inl Diverges
      else if here st = Some 0 \<or> is_WS_OR_EOL (here st) then Inr (st, start, tagHandle)
      else if here st = Some 33 then
        (if isNamed then throwError st (jstr ''tag suffix cannot contain exclamation marks'')
         else
           let h = segment st (start - 1) (position st + 1) in
           if \<not> test_full PATTERN_TAG_HANDLE h then
             throwError st (jstr ''named tag handle cannot contain such characters'')
           else tag_loop (st\<lparr>position := position st + 1\<rparr>) (position st + 1) True h)
      else tag_loop (st\<lparr>position := position st + 1\<rparr>) start isNamed tagHandle)"
  by pat_completeness auto

termination
  by (relation "measure (\<lambda>(st, _). length (input st) - position st)") auto

declare tag_loop.simps [simp del]

definition verbatim_tag :: "state \<Rightarrow> (state \<times> jsstring) yres" where
  "verbatim_tag st =
     bind_r (seek (\<lambda>c. c = 0 \<or> c = 62) (input st) (position st + 1))
       (\<lambda>p. let st1 = st\<lparr>position := p\<rparr> in
          if p < len st1 then Inr (st1\<lparr>position := p + 1\<rparr>, segment st (position st) p)
          else throwError st1 (jstr ''unexpected end of the stream within a verbatim tag''))"

definition readTagProperty :: "state \<Rightarrow> (bool \<times> state) yres" where
  "readTagProperty st0 =
     (if here st0 \<noteq> Some 33 then Inr (False, st0)
      else if s_tag st0 \<noteq> None then throwError st0 (jstr ''duplication of a tag property'')
      else
        let st = st0\<lparr>position := position st0 + 1\<rparr>;
            isVerbatim = (here st = Some 60); named = (here st = Some 33);
            handle0 = (if named then jstr ''!!'' else jstr ''!'');
            st1 = (if isVerbatim \<or> named then st\<lparr>position := position st + 1\<rparr> else st)
        in bind_r (if isVerbatim then
                     bind_r (verbatim_tag st1) (\<lambda>(st2, tagName). Inr (st2, tagName, handle0))
                   else
                     bind_r (tag_loop st1 (position st1) named handle0)
                       (\<lambda>(st2, start, handle).
                          let tagName = segment st2 start (position st2) in
                          if list_ex (\<lambda>c. is_FLOW_INDICATOR (Some (uint c))) tagName then
                            throwError st2 (jstr ''tag suffix cannot contain flow indicator characters'')
                          else Inr (st2, tagName, handle)))
             (\<lambda>(st2, tagName, handle).
                if tagName \<noteq> [] \<and> \<not> test_full PATTERN_TAG_URI tagName then
                  throwError st2 (jstr ''tag name cannot contain such characters: '' @ tagName)
                else if isVerbatim then Inr (True, st2\<lparr>s_tag := Some tagName\<rparr>)
                else if has_prop (tagMap st2) handle then
                  Inr (True, st2\<lparr>s_tag := Some (the (map_of (tagMap st2) handle) @ tagName)\<rparr>)
                else if handle = jstr ''!'' then Inr (True, st2\<lparr>s_tag := Some (jstr ''!'' @ tagName)\<rparr>)
                else if handle = jstr ''!!'' then
                  Inr (True, st2\<lparr>s_tag := Some (yaml_tag '''' @ tagName)\<rparr>)
                else throwError st2 (jstr ''undeclared tag handle \"'' @ handle @ jstr ''\"'')))"

definition name_end :: "code_unit \<Rightarrow> bool" where
  "name_end c \<longleftrightarrow> c = 0 \<or> is_WS_OR_EOL (Some (uint c)) \<or> is_FLOW_INDICATOR (Some (uint c))"

definition readAnchorProperty :: "state \<Rightarrow> (bool \<times> state) yres" where
  "readAnchorProperty st0 =
     (if here st0 \<noteq> Some 38 then Inr (False, st0)
      else if anchor st0 \<noteq> None then throwError st0 (jstr ''duplication of an anchor property'')
      else
        let start = position st0 + 1 in
        bind_r (seek name_end (input st0) start)
          (\<lambda>p. let st = st0\<lparr>position := p\<rparr> in
             if p = start then
               throwError st (jstr ''name of an anchor node must contain at least one character'')
             else Inr (True, st\<lparr>anchor := Some (segment st start p)\<rparr>)))"

text \<open>
  The alias is looked up with the map's own \<open>hasOwnProperty\<close>, which an anchor of that name
  replaces by a value that is not a function.
\<close>

definition readAlias :: "state \<Rightarrow> (bool \<times> state) yres" where
  "readAlias st0 =
     (if here st0 \<noteq> Some 42 then Inr (False, st0)
      else
        let start = position st0 + 1 in
        bind_r (seek name_end (input st0) start)
          (\<lambda>p. let st = st0\<lparr>position := p\<rparr>; al = segment st start p in
             if p = start then
               throwError st (jstr ''name of an alias node must contain at least one character'')
             else if has_prop (anchorMap st) (jstr ''hasOwnProperty'') then
               Inl (JsError ''state.anchorMap.hasOwnProperty is not a function'')
             else if \<not> has_prop (anchorMap st) al then
               throwError st (jstr ''unidentified alias \"'' @ al @ jstr ''\"'')
             else
               bind_r (skipSeparationSpace (st\<lparr>result := the (map_of (anchorMap st) al)\<rparr>) True (- 1))
                 (\<lambda>(_, st1). Inr (True, st1))))"

end
