(* ===== verification/Yaml_Load.thy ===== *)
theory Yaml_Load
  imports Yaml_Scalar
begin

text \<open>
  The recursive part of the YAML loader.  \<open>composeNode\<close> reads a node and calls the readers of
  flow collections, block sequences and block mappings, which call it for their entries.  These
  readers take the reader of nodes as an argument, and \<open>composeNode\<close> is defined by recursion on
  a bound of the nesting depth; the loops over the entries of a collection carry a bound of their
  own, computed from the length of the input.  Running out of either is \<open>Diverges\<close>.
\<close>

datatype node_context = FLOW_IN | FLOW_OUT | BLOCK_IN | BLOCK_OUT

type_synonym node_fun = "state \<Rightarrow> int \<Rightarrow> node_context \<Rightarrow> bool \<Rightarrow> bool \<Rightarrow> (bool \<times> state) yres"

section \<open>Flow collections\<close>

definition push :: "state \<Rightarrow> nat \<Rightarrow> yval \<Rightarrow> state" where
  "push st a v =
     st\<lparr>heap := (heap st)[a := YArr ((case heap st ! a of YArr xs \<Rightarrow> xs | YMap _ \<Rightarrow> []) @ [v])]\<rparr>"

text \<open>A new object, entered into the anchor map when the node has an anchor.\<close>

definition alloc_anchored :: "state \<Rightarrow> yobj \<Rightarrow> state \<times> nat" where
  "alloc_anchored st ob =
     (let a = length (heap st); st1 = st\<lparr>heap := heap st @ [ob]\<rparr>
      in (case anchor st of None \<Rightarrow> st1
          | Some an \<Rightarrow> st1\<lparr>anchorMap := put_prop (anchorMap st1) an (YRef a)\<rparr>, a))"

type_synonym overridable = "(jsstring \<times> bool) list"

definition explicit_mark :: "state \<Rightarrow> int \<Rightarrow> (bool \<times> state) yres" where
  "explicit_mark st nodeIndent =
     (if here st = Some 63 \<and> is_WS_OR_EOL (code_at st (position st + 1)) then
        bind_r (skipSeparationSpace (st\<lparr>position := position st + 1\<rparr>) True nodeIndent)
          (\<lambda>(_, st1). Inr (True, st1))
      else Inr (False, st))"

definition flow_value :: "node_fun \<Rightarrow> state \<Rightarrow> int \<Rightarrow> bool \<Rightarrow> nat \<Rightarrow> (state \<times> bool \<times> yval) yres" where
  "flow_value cn st nodeIndent isExplicitPair line0 =
     (if (isExplicitPair \<or> line st = line0) \<and> here st = Some 58 then
        bind_r (skipSeparationSpace (st\<lparr>position := position st + 1\<rparr>) True nodeIndent)
          (\<lambda>(_, st1). bind_r (cn st1 nodeIndent FLOW_IN False True)
             (\<lambda>(_, st2). Inr (st2, True, result st2)))
      else Inr (st, isExplicitPair, YNull))"

definition flow_store ::
  "state \<Rightarrow> bool \<Rightarrow> nat \<Rightarrow> bool \<Rightarrow> overridable \<Rightarrow> jsstring option \<Rightarrow> yval \<Rightarrow> yval \<Rightarrow>
   (state \<times> overridable) yres" where
  "flow_store st isMapping a isPair ov keyTag keyNode valueNode =
     (if isMapping then
        bind_r (storeMappingPair st (Some a) ov keyTag keyNode valueNode None None)
          (\<lambda>(st1, _, ov1). Inr (st1, ov1))
      else if isPair then
        bind_r (storeMappingPair st None ov keyTag keyNode valueNode None None)
          (\<lambda>(st1, b, ov1). Inr (push st1 a (YRef b), ov1))
      else Inr (push st a keyNode, ov))"

text \<open>One entry, from the reset of the variables to the separating comma.\<close>

definition flow_entry ::
  "node_fun \<Rightarrow> state \<Rightarrow> int \<Rightarrow> bool \<Rightarrow> nat \<Rightarrow> overridable \<Rightarrow> (state \<times> overridable) yres" where
  "flow_entry cn st nodeIndent isMapping a ov =
     bind_r (explicit_mark st nodeIndent)
       (\<lambda>(isExplicitPair, st1).
          bind_r (cn st1 nodeIndent FLOW_IN False True)
            (\<lambda>(_, st2).
               bind_r (skipSeparationSpace st2 True nodeIndent)
                 (\<lambda>(_, st3).
                    bind_r (flow_value cn st3 nodeIndent isExplicitPair (line st1))
                      (\<lambda>(st4, isPair, valueNode).
                         bind_r (flow_store st4 isMapping a isPair ov (s_tag st2) (result st2) valueNode)
                           (\<lambda>(st5, ov1).
                              bind_r (skipSeparationSpace st5 True nodeIndent)
                                (\<lambda>(_, st6). Inr (st6, ov1)))))))"

fun flow_loop ::
  "node_fun \<Rightarrow> nat \<Rightarrow> int \<Rightarrow> int \<Rightarrow> bool \<Rightarrow> nat \<Rightarrow> state \<Rightarrow> bool \<Rightarrow> overridable \<Rightarrow> state yres" where
  "flow_loop cn 0 nodeIndent terminator isMapping a st readNext ov = Inl Diverges"
| "flow_loop cn (Suc fuel) nodeIndent terminator isMapping a st readNext ov =
     (if here st = Some 0 then
        throwError st (jstr ''unexpected end of the stream within a flow collection'')
      else
        bind_r (skipSeparationSpace st True nodeIndent)
          (\<lambda>(_, st1).
             if here st1 = Some terminator then Inr (st1\<lparr>position := position st1 + 1\<rparr>)
             else if \<not> readNext then
               throwError st1 (jstr ''missed comma between flow collection entries'')
             else
               bind_r (flow_entry cn st1 nodeIndent isMapping a ov)
                 (\<lambda>(st2, ov1).
                    if here st2 = Some 44 then
                      flow_loop cn fuel nodeIndent terminator isMapping a
                        (st2\<lparr>position := position st2 + 1\<rparr>) True ov1
                    else flow_loop cn fuel nodeIndent terminator isMapping a st2 False ov1)))"

definition flow_fuel :: "state \<Rightarrow> nat" where
  "flow_fuel st = 2 * length (input st) + 2"

definition readFlowCollection :: "node_fun \<Rightarrow> state \<Rightarrow> int \<Rightarrow> (bool \<times> state) yres" where
  "readFlowCollection cn st nodeIndent =
     (if here st \<noteq> Some 91 \<and> here st \<noteq> Some 123 then Inr (False, st)
      else
        let isMapping = (here st = Some 123); terminator = (if isMapping then 125 else 93);
            (st1, a) = alloc_anchored st (if isMapping then YMap [] else YArr [])
        in bind_r (flow_loop cn (flow_fuel st) nodeIndent terminator isMapping a
                     (st1\<lparr>position := position st1 + 1\<rparr>) True [])
             (\<lambda>st2. Inr (True, st2\<lparr>s_tag := s_tag st, anchor := anchor st,
                                   s_kind := Some (if isMapping then Mapping else Sequence),
                                   result := YRef a\<rparr>)))"

section \<open>Block sequences\<close>

fun seq_loop :: "node_fun \<Rightarrow> nat \<Rightarrow> int \<Rightarrow> nat \<Rightarrow> state \<Rightarrow> bool \<Rightarrow> (bool \<times> state) yres" where
  "seq_loop cn 0 nodeIndent a st detected = Inl Diverges"
| "seq_loop cn (Suc fuel) nodeIndent a st detected =
     (if here st \<noteq> Some 45 \<or> \<not> is_WS_OR_EOL (code_at st (position st + 1)) then Inr (detected, st)
      else
        bind_r (skipSeparationSpace (st\<lparr>position := position st + 1\<rparr>) True (- 1))
          (\<lambda>(breaks, st1).
             if breaks \<noteq> 0 \<and> int (lineIndent st1) \<le> nodeIndent then
               seq_loop cn fuel nodeIndent a (push st1 a YNull) True
             else
               bind_r (cn st1 nodeIndent BLOCK_IN False True)
                 (\<lambda>(_, st2).
                    bind_r (skipSeparationSpace (push st2 a (result st2)) True (- 1))
                      (\<lambda>(_, st3).
                         if (line st3 = line st1 \<or> nodeIndent < int (lineIndent st3)) \<and> here st3 \<noteq> Some 0 then
                           throwError st3 (jstr ''bad indentation of a sequence entry'')
                         else if int (lineIndent st3) < nodeIndent then Inr (True, st3)
                         else seq_loop cn fuel nodeIndent a st3 True))))"

definition block_fuel :: "state \<Rightarrow> nat" where
  "block_fuel st = length (input st) + 1"

definition readBlockSequence :: "node_fun \<Rightarrow> state \<Rightarrow> int \<Rightarrow> (bool \<times> state) yres" where
  "readBlockSequence cn st nodeIndent =
     (let (st1, a) = alloc_anchored st (YArr []) in
      bind_r (seq_loop cn (block_fuel st) nodeIndent a st1 False)
        (\<lambda>(detected, st2).
           if detected then
             Inr (True, st2\<lparr>s_tag := s_tag st, anchor := anchor st, s_kind := Some Sequence,
                            result := YRef a\<rparr>)
           else Inr (False, st2)))"

section \<open>Block mappings\<close>

text \<open>The local variables of \<open>readBlockMapping\<close>, and how the reading of a key ends.\<close>

record map_vars =
  mv_overridable :: overridable
  mv_keyTag :: "jsstring option"
  mv_keyNode :: yval
  mv_valueNode :: yval
  mv_atExplicitKey :: bool
  mv_detected :: bool
  mv_allowCompact :: bool

datatype key_outcome = Break state | Return state | Entry state map_vars

definition no_vars :: map_vars where
  "no_vars = \<lparr>mv_overridable = [], mv_keyTag = None, mv_keyNode = YNull, mv_valueNode = YNull,
              mv_atExplicitKey = False, mv_detected = False, mv_allowCompact = False\<rparr>"

text \<open>Storing the current pair, after which key and value are reset.\<close>

definition store_pair ::
  "state \<Rightarrow> nat \<Rightarrow> map_vars \<Rightarrow> yval \<Rightarrow> nat option \<Rightarrow> nat option \<Rightarrow> (state \<times> map_vars) yres" where
  "store_pair st a v valueNode startLine startPos =
     bind_r (storeMappingPair st (Some a) (mv_overridable v) (mv_keyTag v) (mv_keyNode v) valueNode
               startLine startPos)
       (\<lambda>(st1, _, ov). Inr (st1, v\<lparr>mv_overridable := ov, mv_keyTag := None, mv_keyNode := YNull,
                                   mv_valueNode := YNull\<rparr>))"

definition store_explicit :: "state \<Rightarrow> nat \<Rightarrow> map_vars \<Rightarrow> (state \<times> map_vars) yres" where
  "store_explicit st a v =
     (if mv_atExplicitKey v then store_pair st a v YNull None None else Inr (st, v))"

definition implicit_key ::
  "state \<Rightarrow> nat \<Rightarrow> nat \<Rightarrow> jsstring option \<Rightarrow> jsstring option \<Rightarrow> map_vars \<Rightarrow> key_outcome yres" where
  "implicit_key st a line0 tag0 anchor0 v =
     (if line st = line0 then
        let st1 = st\<lparr>position := advance (\<lambda>c. c = 9 \<or> c = 32) (input st) (position st)\<rparr> in
        if here st1 = Some 58 then
          let st2 = st1\<lparr>position := position st1 + 1\<rparr> in
          if \<not> is_WS_OR_EOL (here st2) then
            throwError st2 (jstr (''a whitespace character is expected after the key-value separator ''
                                  @ ''within a block mapping''))
          else
            bind_r (store_explicit st2 a v)
              (\<lambda>(st3, v1). Inr (Entry st3 (v1\<lparr>mv_detected := True, mv_atExplicitKey := False,
                                 mv_allowCompact := False, mv_keyTag := s_tag st3,
                                 mv_keyNode := result st3\<rparr>)))
        else if mv_detected v then
          throwError st1 (jstr ''can not read an implicit mapping pair; a colon is missed'')
        else Inr (Return (st1\<lparr>s_tag := tag0, anchor := anchor0\<rparr>))
      else if mv_detected v then
        throwError st (jstr (''can not read a block mapping entry; a multiline key may not be ''
                             @ ''an implicit key''))
      else Inr (Return (st\<lparr>s_tag := tag0, anchor := anchor0\<rparr>)))"

definition read_key ::
  "node_fun \<Rightarrow> state \<Rightarrow> int \<Rightarrow> nat \<Rightarrow> jsstring option \<Rightarrow> jsstring option \<Rightarrow> map_vars \<Rightarrow> key_outcome yres" where
  "read_key cn st flowIndent a tag0 anchor0 v =
     (if (here st = Some 63 \<or> here st = Some 58) \<and> is_WS_OR_EOL (code_at st (position st + 1)) then
        (if here st = Some 63 then
           bind_r (store_explicit st a v)
             (\<lambda>(st1, v1). Inr (Entry (st1\<lparr>position := position st1 + 1\<rparr>)
                                (v1\<lparr>mv_detected := True, mv_atExplicitKey := True, mv_allowCompact := True\<rparr>)))
         else if mv_atExplicitKey v then
           Inr (Entry (st\<lparr>position := position st + 1\<rparr>)
                  (v\<lparr>mv_atExplicitKey := False, mv_allowCompact := True\<rparr>))
         else throwError st (jstr (''incomplete explicit mapping pair; a key node is missed; ''
                                   @ ''or followed by a non-tabulated empty line'')))
      else
        bind_r (cn st flowIndent FLOW_OUT False True)
          (\<lambda>(found, st1). if found then implicit_key st1 a (line st) tag0 anchor0 v else Inr (Break st1)))"

text \<open>The value (or explicit key) after a key indicator, up to the next entry.\<close>

definition read_value ::
  "node_fun \<Rightarrow> state \<Rightarrow> int \<Rightarrow> nat \<Rightarrow> nat \<Rightarrow> nat \<Rightarrow> map_vars \<Rightarrow> (state \<times> map_vars) yres" where
  "read_value cn st nodeIndent a line0 pos0 v =
     (if line st = line0 \<or> nodeIndent < int (lineIndent st) then
        bind_r (cn st nodeIndent BLOCK_OUT True (mv_allowCompact v))
          (\<lambda>(found, st1).
             let v1 = (if \<not> found then v
                       else if mv_atExplicitKey v then v\<lparr>mv_keyNode := result st1\<rparr>
                       else v\<lparr>mv_valueNode := result st1\<rparr>)
             in bind_r (if mv_atExplicitKey v1 then Inr (st1, v1)
                        else store_pair st1 a v1 (mv_valueNode v1) (Some line0) (Some pos0))
                  (\<lambda>(st2, v2). bind_r (skipSeparationSpace st2 True (- 1))
                     (\<lambda>(_, st3). Inr (st3, v2))))
      else Inr (st, v))"

fun map_loop ::
  "node_fun \<Rightarrow> nat \<Rightarrow> int \<Rightarrow> int \<Rightarrow> nat \<Rightarrow> jsstring option \<Rightarrow> jsstring option \<Rightarrow> state \<Rightarrow> map_vars \<Rightarrow>
   key_outcome yres" where
  "map_loop cn 0 nodeIndent flowIndent a tag0 anchor0 st v = Inl Diverges"
| "map_loop cn (Suc fuel) nodeIndent flowIndent a tag0 anchor0 st v =
     (if here st = Some 0 then Inr (Entry st v)
      else
        bind_r (read_key cn st flowIndent a tag0 anchor0 v)
          (\<lambda>k. case k of
             Break st1 \<Rightarrow> Inr (Entry st1 v)
           | Return st1 \<Rightarrow> Inr (Return st1)
           | Entry st1 v1 \<Rightarrow>
               bind_r (read_value cn st1 nodeIndent a (line st) (position st) v1)
                 (\<lambda>(st2, v2).
                    if nodeIndent < int (lineIndent st2) \<and> here st2 \<noteq> Some 0 then
                      throwError st2 (jstr ''bad indentation of a mapping entry'')
                    else if int (lineIndent st2) < nodeIndent then Inr (Entry st2 v2)
                    else map_loop cn fuel nodeIndent flowIndent a tag0 anchor0 st2 v2)))"

definition readBlockMapping :: "node_fun \<Rightarrow> state \<Rightarrow> int \<Rightarrow> int \<Rightarrow> (bool \<times> state) yres" where
  "readBlockMapping cn st nodeIndent flowIndent =
     (let (st1, a) = alloc_anchored st (YMap []) in
      bind_r (map_loop cn (block_fuel st) nodeIndent flowIndent a (s_tag st) (anchor st) st1 no_vars)
        (\<lambda>k. case k of
           Return st2 \<Rightarrow> Inr (True, st2)
         | Break st2 \<Rightarrow> Inr (False, st2)
         | Entry st2 v \<Rightarrow>
             bind_r (store_explicit st2 a v)
               (\<lambda>(st3, v1).
                  if mv_detected v1 then
                    Inr (True, st3\<lparr>s_tag := s_tag st, anchor := anchor st, s_kind := Some Mapping,
                                   result := YRef a\<rparr>)
                  else Inr (False, st3))))"

section \<open>Nodes\<close>

definition indent_status :: "nat \<Rightarrow> int \<Rightarrow> int" where
  "indent_status ind parentIndent =
     (if parentIndent < int ind then 1 else if int ind = parentIndent then 0 else - 1)"

definition read_property :: "state \<Rightarrow> (bool \<times> state) yres" where
  "read_property st =
     bind_r (readTagProperty st) (\<lambda>(found, st1). if found then Inr (True, st1) else readAnchorProperty st1)"

lemma tag_loop_frame:
  "tag_loop st start isNamed h = Inr (st', start', h') \<Longrightarrow> position st \<le> position st' \<and> input st' = input st"
proof (induction st start isNamed h rule: tag_loop.induct)
  case (1 st start isNamed h)
  note e = 1(3) [unfolded tag_loop.simps [of st start isNamed h]]
  show ?case
    using e 1(1,2) by (cases "here st = Some 33") (auto simp: Let_def throwError_def split: if_splits)
qed

lemma verbatim_tag_frame:
  "verbatim_tag st = Inr (st', n) \<Longrightarrow> position st < position st' \<and> input st' = input st"
  by (auto simp: verbatim_tag_def Let_def bind_r_Inr_iff throwError_def dest!: seek_InrD split: if_splits)

lemma readTagProperty_frame:
  assumes "readTagProperty st = Inr (found, st')"
  shows "if found then position st < position st' \<and> input st' = input st else st' = st"
  using assms
  by (auto simp: readTagProperty_def Let_def bind_r_Inr_iff throwError_def
      dest!: tag_loop_frame verbatim_tag_frame split: if_splits)

lemma readAnchorProperty_frame:
  assumes "readAnchorProperty st = Inr (found, st')"
  shows "if found then position st < position st' \<and> input st' = input st else st' = st"
  using assms
  by (auto simp: readAnchorProperty_def Let_def bind_r_Inr_iff throwError_def dest!: seek_InrD split: if_splits)

lemma read_property_frame:
  assumes "read_property st = Inr (found, st')"
  shows "if found then position st < position st' \<and> input st' = input st else st' = st"
  using assms
  by (auto simp: read_property_def bind_r_Inr_iff dest!: readTagProperty_frame readAnchorProperty_frame
      split: if_splits)

text \<open>
  The loop over tags and anchors.  The three flags are \<open>atNewLine\<close>, \<open>allowBlockCollections\<close> and
  \<open>indentStatus\<close>.
\<close>

function property_loop ::
  "state \<Rightarrow> int \<Rightarrow> bool \<Rightarrow> bool \<Rightarrow> bool \<Rightarrow> int \<Rightarrow> (state \<times> bool \<times> bool \<times> int) yres" where
  "property_loop st parentIndent allowBlockStyles atNewLine allowBlockCollections status =
     (if length (input st) \<le> position st then Inr (st, atNewLine, allowBlockCollections, status)
      else
        bind_r (read_property st)
          (\<lambda>(found, st1).
             if \<not> found then Inr (st1, atNewLine, allowBlockCollections, status)
             else
               bind_r (skipSeparationSpace st1 True (- 1))
                 (\<lambda>(breaks, st2).
                    if breaks \<noteq> 0 then
                      property_loop st2 parentIndent allowBlockStyles True allowBlockStyles
                        (indent_status (lineIndent st2) parentIndent)
                    else property_loop st2 parentIndent allowBlockStyles atNewLine False status)))"
  by pat_completeness auto

termination
proof (relation "measure (\<lambda>(st, _). length (input st) - position st)", goal_cases)
  case (2 st pi abs nl abc s r found st1 r' n st2)
  then show ?case
    using read_property_frame [of st found st1] skipSeparationSpace_mono [of st1 True "- 1" n st2] by auto
next
  case (3 st pi abs nl abc s r found st1 r' n st2)
  then show ?case
    using read_property_frame [of st found st1] skipSeparationSpace_mono [of st1 True "- 1" n st2] by auto
qed simp

declare property_loop.simps [simp del]

definition set_anchor :: "state \<Rightarrow> state" where
  "set_anchor st =
     (case anchor st of None \<Rightarrow> st
      | Some an \<Rightarrow> st\<lparr>anchorMap := put_prop (anchorMap st) an (result st)\<rparr>)"

text \<open>\<open>or_read\<close> is the short-circuit disjunction of two readers.\<close>

definition or_read ::
  "(state \<Rightarrow> (bool \<times> state) yres) \<Rightarrow> (state \<Rightarrow> (bool \<times> state) yres) \<Rightarrow> state \<Rightarrow> (bool \<times> state) yres" where
  "or_read f g st = bind_r (f st) (\<lambda>(found, st1). if found then Inr (True, st1) else g st1)"

definition no_read :: "state \<Rightarrow> (bool \<times> state) yres" where
  "no_read st = Inr (False, st)"

definition read_alias_checked :: "state \<Rightarrow> (bool \<times> state) yres" where
  "read_alias_checked st =
     bind_r (readAlias st)
       (\<lambda>(found, st1).
          if found \<and> (s_tag st1 \<noteq> None \<or> anchor st1 \<noteq> None) then
            throwError st1 (jstr ''alias node should not have any properties'')
          else Inr (found, st1))"

definition read_plain_tagged :: "int \<Rightarrow> bool \<Rightarrow> state \<Rightarrow> (bool \<times> state) yres" where
  "read_plain_tagged flowIndent withinFlow st =
     bind_r (readPlainScalar st flowIndent withinFlow)
       (\<lambda>(found, st1).
          Inr (found, if found \<and> s_tag st1 = None then st1\<lparr>s_tag := Some (jstr ''?'')\<rparr> else st1))"

definition read_scalar :: "bool \<Rightarrow> int \<Rightarrow> bool \<Rightarrow> state \<Rightarrow> (bool \<times> state) yres" where
  "read_scalar allowBlockScalars flowIndent withinFlow =
     or_read (if allowBlockScalars then (\<lambda>s. readBlockScalar s flowIndent) else no_read)
    (or_read (\<lambda>s. readSingleQuotedScalar s flowIndent)
    (or_read (\<lambda>s. readDoubleQuotedScalar s flowIndent)
    (or_read read_alias_checked (read_plain_tagged flowIndent withinFlow))))"

definition is_block :: "node_context \<Rightarrow> bool" where
  "is_block ctx \<longleftrightarrow> ctx = BLOCK_OUT \<or> ctx = BLOCK_IN"

text \<open>The content of a node, once its properties are read.\<close>

definition read_content ::
  "node_fun \<Rightarrow> state \<Rightarrow> int \<Rightarrow> node_context \<Rightarrow> bool \<Rightarrow> int \<Rightarrow> (bool \<times> state) yres" where
  "read_content cn st parentIndent ctx allowBlockCollections status =
     (let flowIndent = (if is_block ctx then parentIndent + 1 else parentIndent);
          blockIndent = int (position st) - int (lineStart st)
      in if status = 1 then
           bind_r (or_read (if allowBlockCollections
                            then or_read (\<lambda>s. readBlockSequence cn s blockIndent)
                                         (\<lambda>s. readBlockMapping cn s blockIndent flowIndent)
                            else no_read)
                     (\<lambda>s. readFlowCollection cn s flowIndent) st)
             (\<lambda>(found, st1).
                if found then Inr (True, st1)
                else bind_r (read_scalar (is_block ctx) flowIndent (ctx = FLOW_IN) st1)
                       (\<lambda>(found2, st2). Inr (found2, set_anchor st2)))
         else if status = 0 \<and> ctx = BLOCK_OUT then
           (if allowBlockCollections then readBlockSequence cn st blockIndent else Inr (False, st))
         else Inr (False, st))"

text \<open>The resolution of the node's tag.\<close>

definition construct_node :: "state \<Rightarrow> ytype \<Rightarrow> state yres" where
  "construct_node st t =
     bind_r (construct t (heap st) (result st)) (\<lambda>(v, h). Inr (st\<lparr>result := v, heap := h\<rparr>))"

definition kind_name :: "ykind option \<Rightarrow> jsstring" where
  "kind_name k =
     (case k of None \<Rightarrow> jstr ''null'' | Some Scalar \<Rightarrow> jstr ''scalar'' | Some Sequence \<Rightarrow> jstr ''sequence''
      | Some Mapping \<Rightarrow> jstr ''mapping'')"

definition resolve_implicit :: "state \<Rightarrow> state yres" where
  "resolve_implicit st =
     (case find (\<lambda>t. resolve t (heap st) (result st)) (implicitTypes st) of
        None \<Rightarrow> Inr st
      | Some t \<Rightarrow> bind_r (construct_node st t) (\<lambda>st1. Inr (set_anchor (st1\<lparr>s_tag := Some (tag t)\<rparr>))))"

definition resolve_tag :: "state \<Rightarrow> state yres" where
  "resolve_tag st =
     (case s_tag st of
        None \<Rightarrow> Inr st
      | Some tg \<Rightarrow>
          if tg = jstr ''!'' then Inr st
          else if tg = jstr ''?'' then resolve_implicit st
          else
            (case map_of (kind_map (typeMap st) (s_kind st)) tg of
               None \<Rightarrow> throwError st (jstr ''unknown tag !<'' @ tg @ jstr ''>'')
             | Some t \<Rightarrow>
                 if result st \<noteq> YNull \<and> Some (kind t) \<noteq> s_kind st then
                   throwError st (jstr ''unacceptable node kind for !<'' @ tg @ jstr ''> tag; it should be \"''
                     @ kind_name (Some (kind t)) @ jstr ''\", not \"'' @ kind_name (s_kind st) @ jstr ''\"'')
                 else if \<not> resolve t (heap st) (result st) then
                   throwError st (jstr ''cannot resolve a node with !<'' @ tg @ jstr ''> explicit tag'')
                 else bind_r (construct_node st t) (\<lambda>st1. Inr (set_anchor st1))))"

definition seek_node :: "state \<Rightarrow> int \<Rightarrow> bool \<Rightarrow> (state \<times> bool \<times> int) yres" where
  "seek_node st parentIndent allowToSeek =
     (if allowToSeek then
        bind_r (skipSeparationSpace st True (- 1))
          (\<lambda>(breaks, st1). if breaks \<noteq> 0 then Inr (st1, True, indent_status (lineIndent st1) parentIndent)
                           else Inr (st1, False, 1))
      else Inr (st, False, 1))"

definition compose_with :: "node_fun \<Rightarrow> node_fun" where
  "compose_with cn st0 parentIndent ctx allowToSeek allowCompact =
     bind_r (seek_node (st0\<lparr>s_tag := None, anchor := None, s_kind := None, result := YNull\<rparr>) parentIndent
               allowToSeek)
       (\<lambda>(st1, atNewLine, status).
          bind_r (if status = 1 then property_loop st1 parentIndent (is_block ctx) atNewLine (is_block ctx) status
                  else Inr (st1, atNewLine, is_block ctx, status))
            (\<lambda>(st2, atNewLine2, allowBlockCollections, status2).
               bind_r (if status2 = 1 \<or> ctx = BLOCK_OUT then
                         read_content cn st2 parentIndent ctx
                           (allowBlockCollections \<and> (atNewLine2 \<or> allowCompact)) status2
                       else Inr (False, st2))
                 (\<lambda>(hasContent, st3).
                    bind_r (resolve_tag st3)
                      (\<lambda>st4. Inr (s_tag st4 \<noteq> None \<or> anchor st4 \<noteq> None \<or> hasContent, st4)))))"

fun composeNode :: "nat \<Rightarrow> node_fun" where
  "composeNode 0 st parentIndent ctx allowToSeek allowCompact = Inl Diverges"
| "composeNode (Suc depth) st parentIndent ctx allowToSeek allowCompact =
     compose_with (composeNode depth) st parentIndent ctx allowToSeek allowCompact"

section \<open>Documents\<close>

definition word_end :: "code_unit \<Rightarrow> bool" where
  "word_end c \<longleftrightarrow> c = 0 \<or> is_WS_OR_EOL (Some (uint c))"

lemma args_progress:
  assumes "here st \<noteq> Some 0" "p0 = advance (\<lambda>c. c = 9 \<or> c = 32) (input st) (position st)"
    and "\<not> is_EOL (code_at st p0)" "seek word_end (input st) p0 = Inr p"
  shows "position st < p \<and> p < length (input st)"
proof -
  note s = seek_InrD [OF assms(4)]
  have le: "position st \<le> p0"
    using advance_ge assms(2) by blast
  have "p \<noteq> position st"
  proof
    assume "p = position st"
    then have eq: "p0 = position st" "p0 = p"
      using le s by simp_all
    then have "p0 < length (input st)" "word_end (input st ! p0)"
      using s by simp_all
    moreover have "\<not> (input st ! p0 = 9 \<or> input st ! p0 = 32)"
      using advance_char [of "\<lambda>c. c = 9 \<or> c = 32" "input st" "position st"] assms(2) s eq by simp
    ultimately show False
      using assms(1,3) eq by (auto simp: word_end_def is_WS_OR_EOL_def is_EOL_def code_at_def uint_eq_numeral_iff)
  qed
  then show ?thesis
    using le s by simp
qed

function args_loop :: "state \<Rightarrow> jsstring list \<Rightarrow> (state \<times> jsstring list) yres" where
  "args_loop st args =
     (if here st = Some 0 then Inr (st, args)
      else
        let st1 = st\<lparr>position := advance (\<lambda>c. c = 9 \<or> c = 32) (input st) (position st)\<rparr> in
        if here st1 = Some 35 then
          bind_r (seek (\<lambda>c. c = 10 \<or> c = 13 \<or> c = 0) (input st1) (position st1 + 1))
            (\<lambda>p. Inr (st1\<lparr>position := p\<rparr>, args))
        else if is_EOL (here st1) then Inr (st1, args)
        else
          bind_r (seek word_end (input st1) (position st1))
            (\<lambda>p. args_loop (st1\<lparr>position := p\<rparr>) (args @ [segment st1 (position st1) p])))"
  by pat_completeness auto

termination
proof (relation "measure (\<lambda>(st, _). length (input st) - position st)", goal_cases)
  case (2 st args st1 p)
  then have "position st < p \<and> p < length (input st)"
    by (intro args_progress [of st _ p]) (auto simp: code_at_def)
  then show ?case
    using 2(2) by (simp add: diff_less_mono2 less_trans)
qed simp

declare args_loop.simps [simp del]

definition handle_directive :: "state \<Rightarrow> jsstring \<Rightarrow> jsstring list \<Rightarrow> state yres" where
  "handle_directive st name args =
     (if name = jstr ''YAML'' then handleYamlDirective st args
      else if name = jstr ''TAG'' then handleTagDirective st args
      else Inr (throwWarning st (jstr ''unknown document directive \"'' @ name @ jstr ''\"'')))"

definition directive_break :: "state \<Rightarrow> state yres" where
  "directive_break st = (if here st \<noteq> Some 0 then readLineBreak st else Inr st)"

definition read_directive :: "state \<Rightarrow> state yres" where
  "read_directive st =
     (let start = position st + 1 in
      bind_r (seek word_end (input st) start)
        (\<lambda>p. let st1 = st\<lparr>position := p\<rparr>; name = segment st start p in
           if name = [] then
             throwError st1 (jstr ''directive name must not be less than one character in length'')
           else
             bind_r (args_loop st1 [])
               (\<lambda>(st2, args).
                  bind_r (directive_break st2) (\<lambda>st3. handle_directive st3 name args))))"

lemma args_loop_frame:
  "args_loop st args = Inr (st', args') \<Longrightarrow> position st \<le> position st' \<and> input st' = input st"
proof (induction st args rule: args_loop.induct)
  case (1 st args)
  let ?st1 = "st\<lparr>position := advance (\<lambda>c. c = 9 \<or> c = 32) (input st) (position st)\<rparr>"
  note e = 1(2) [unfolded args_loop.simps [of st args] Let_def]
  note a = advance_ge [of "position st" "\<lambda>c. c = 9 \<or> c = 32" "input st"]
  show ?case
  proof (cases "here st \<noteq> Some 0 \<and> here ?st1 \<noteq> Some 35 \<and> \<not> is_EOL (here ?st1)")
    case True
    then obtain p where p: "seek word_end (input ?st1) (position ?st1) = Inr p"
      and r: "args_loop (?st1\<lparr>position := p\<rparr>) (args @ [segment ?st1 (position ?st1) p]) = Inr (st', args')"
      using e by (auto simp: bind_r_Inr_iff)
    have "position (?st1\<lparr>position := p\<rparr>) \<le> position st' \<and> input st' = input (?st1\<lparr>position := p\<rparr>)"
      using 1(1) [OF _ refl _ _ p r] True by blast
    then show ?thesis
      using a seek_InrD [OF p] by simp
  next
    case False
    then show ?thesis
      using e a by (auto simp: bind_r_Inr_iff dest!: seek_InrD split: if_splits)
  qed
qed

lemma handle_directive_frame:
  "handle_directive st n args = Inr st' \<Longrightarrow> position st' = position st \<and> input st' = input st"
  by (auto simp: handle_directive_def handleYamlDirective_def handleTagDirective_def throwError_def
      throwWarning_def Let_def split: if_splits list.splits option.splits)

lemma read_directive_progress:
  assumes "read_directive st = Inr st'"
  shows "position st < position st' \<and> input st' = input st"
proof -
  obtain p where p: "seek word_end (input st) (position st + 1) = Inr p"
    and r: "(if segment st (position st + 1) p = [] then
        throwError (st\<lparr>position := p\<rparr>) (jstr ''directive name must not be less than one character in length'')
      else bind_r (args_loop (st\<lparr>position := p\<rparr>) []) (\<lambda>(st2, args). bind_r (directive_break st2)
        (\<lambda>st3. handle_directive st3 (segment st (position st + 1) p) args))) = Inr st'"
    using assms unfolding read_directive_def Let_def by (rule bind_r_InrE)
  have "bind_r (args_loop (st\<lparr>position := p\<rparr>) []) (\<lambda>(st2, args). bind_r (directive_break st2)
      (\<lambda>st3. handle_directive st3 (segment st (position st + 1) p) args)) = Inr st'"
    using r by (cases "segment st (position st + 1) p = []") (simp_all add: throwError_def)
  then obtain y where y: "args_loop (st\<lparr>position := p\<rparr>) [] = Inr y"
    and r2: "(case y of (st2, args) \<Rightarrow> bind_r (directive_break st2)
      (\<lambda>st3. handle_directive st3 (segment st (position st + 1) p) args)) = Inr st'"
    by (rule bind_r_InrE)
  obtain st2 args where y2: "y = (st2, args)"
    by (cases y)
  then have a: "args_loop (st\<lparr>position := p\<rparr>) [] = Inr (st2, args)"
    using y by simp
  from r2 [unfolded y2 prod.case] obtain st3 where l: "directive_break st2 = Inr st3"
    and h: "handle_directive st3 (segment st (position st + 1) p) args = Inr st'"
    by (rule bind_r_InrE)
  have "position st2 \<le> position st3 \<and> input st3 = input st2"
  proof (cases "here st2 = Some 0")
    case True
    then have "st3 = st2"
      using l by (simp add: directive_break_def)
    then show ?thesis by simp
  next
    case False
    then have "readLineBreak st2 = Inr st3"
      using l by (simp add: directive_break_def)
    from readLineBreak_InrD [OF this] show ?thesis by simp
  qed
  moreover have "position st + 1 \<le> p"
    using seek_InrD [OF p] by simp
  moreover have "p \<le> position st2 \<and> input st2 = input st"
    using args_loop_frame [OF a] by simp
  ultimately show ?thesis
    using handle_directive_frame [OF h] by auto
qed

function directive_loop :: "state \<Rightarrow> bool \<Rightarrow> (state \<times> bool) yres" where
  "directive_loop st hasDirectives =
     (if here st = Some 0 then Inr (st, hasDirectives)
      else
        bind_r (skipSeparationSpace st True (- 1))
          (\<lambda>(_, st1).
             if 0 < lineIndent st1 \<or> here st1 \<noteq> Some 37 then Inr (st1, hasDirectives)
             else bind_r (read_directive st1) (\<lambda>st2. directive_loop st2 True)))"
  by pat_completeness auto

termination
proof (relation "measure (\<lambda>(st, _). length (input st) - position st)", goal_cases)
  case (2 st h r n st1 st2)
  then have "position st \<le> position st1" "input st1 = input st" "position st1 < length (input st1)"
    using skipSeparationSpace_mono [of st True "- 1" n st1] code_at_SomeD [of st1 "position st1" 37] by auto
  moreover have "position st1 < position st2" "input st2 = input st1"
    using 2 read_directive_progress [of st1 st2] by auto
  ultimately show ?case
    by (simp add: diff_less_mono2)
qed simp

declare directive_loop.simps [simp del]

definition document_start :: "state \<Rightarrow> bool \<Rightarrow> state yres" where
  "document_start st hasDirectives =
     (if lineIndent st = 0 \<and> here st = Some 45 \<and> code_at st (position st + 1) = Some 45 \<and>
         code_at st (position st + 2) = Some 45 then
        bind_r (skipSeparationSpace (st\<lparr>position := position st + 3\<rparr>) True (- 1)) (\<lambda>(_, st1). Inr st1)
      else if hasDirectives then throwError st (jstr ''directives end mark is expected'')
      else Inr st)"

definition document_end :: "state \<Rightarrow> state yres" where
  "document_end st =
     (if position st = lineStart st \<and> testDocumentSeparator st then
        (if here st = Some 46 then
           bind_r (skipSeparationSpace (st\<lparr>position := position st + 3\<rparr>) True (- 1)) (\<lambda>(_, st1). Inr st1)
         else Inr st)
      else if int (position st) < int (len st) - 1 then
        throwError st (jstr ''end of the stream or a document separator is expected'')
      else Inr st)"

definition readDocument :: "nat \<Rightarrow> state \<Rightarrow> state yres" where
  "readDocument depth st0 =
     bind_r (directive_loop (st0\<lparr>version := None, checkLineBreaks := legacy st0, tagMap := [],
                                 anchorMap := []\<rparr>) False)
       (\<lambda>(st1, hasDirectives).
          bind_r (skipSeparationSpace st1 True (- 1))
            (\<lambda>(_, st2).
               bind_r (document_start st2 hasDirectives)
                 (\<lambda>st3.
                    bind_r (composeNode depth st3 (int (lineIndent st3) - 1) BLOCK_OUT False True)
                      (\<lambda>(_, st4).
                         bind_r (skipSeparationSpace st4 True (- 1))
                           (\<lambda>(_, st5).
                              let st6 = (if checkLineBreaks st5 \<and>
                                            non_ascii_line_break (segment st5 (position st0) (position st5))
                                         then throwWarning st5
                                                (jstr ''non-ASCII line breaks are interpreted as content'')
                                         else st5)
                              in document_end (st6\<lparr>documents := documents st6 @ [result st6]\<rparr>))))))"

section \<open>Loading\<close>

record options =
  o_schema :: "schema option"
  o_filename :: "jsstring option"
  o_json :: bool
  o_legacy :: bool

definition no_options :: options where
  "no_options = \<lparr>o_schema = None, o_filename = None, o_json = False, o_legacy = False\<rparr>"

text \<open>What the loader gets from its surroundings: the texts of values and the compilers.\<close>

record env =
  e_host :: host
  e_js :: js_host

definition normalize_input :: "jsstring \<Rightarrow> jsstring" where
  "normalize_input s =
     (if s = [] then []
      else
        let t = (if last s \<noteq> 10 \<and> last s \<noteq> 13 then s @ [10] else s)
        in if hd t = 0xFEFF then tl t else t)"

definition State :: "env \<Rightarrow> jsstring \<Rightarrow> options \<Rightarrow> state" where
  "State ev s opts =
     (let sch = (case o_schema opts of Some x \<Rightarrow> x | None \<Rightarrow> DEFAULT_FULL_SCHEMA (e_js ev)) in
      \<lparr>input = s, len = length s, filename = o_filename opts, json = o_json opts, legacy = o_legacy opts,
       implicitTypes = compiledImplicit sch, typeMap = compiledTypeMap sch, s_host = e_host ev, heap = [],
       position = 0, line = 0, lineStart = 0, lineIndent = 0, s_tag = None, anchor = None, s_kind = None,
       result = YUndef, version = None, checkLineBreaks = False, tagMap = [], anchorMap = [],
       documents = [], warnings = []\<rparr>)"

fun document_loop :: "nat \<Rightarrow> nat \<Rightarrow> state \<Rightarrow> state yres" where
  "document_loop 0 depth st = Inl Diverges"
| "document_loop (Suc fuel) depth st =
     (if int (position st) < int (len st) - 1
      then bind_r (readDocument depth st) (document_loop fuel depth) else Inr st)"

definition node_depth :: "state \<Rightarrow> nat" where
  "node_depth st = 2 * length (input st) + 2"

definition loadDocuments :: "env \<Rightarrow> jsstring \<Rightarrow> options \<Rightarrow> state yres" where
  "loadDocuments ev s opts =
     (let st0 = State ev (normalize_input s) opts; st1 = st0\<lparr>input := input st0 @ [0]\<rparr>;
          p = advance (\<lambda>c. c = 32) (input st1) 0; st2 = st1\<lparr>position := p, lineIndent := p\<rparr>
      in document_loop (length (input st2) + 1) (node_depth st2) st2)"

text \<open>
  The entry points return the documents with the store they live in.  \<open>loadAll\<close> calls its
  iterator on each document or, when it is not a function, returns them.
\<close>

definition load :: "env \<Rightarrow> jsstring \<Rightarrow> options \<Rightarrow> (yval \<times> store) yres" where
  "load ev s opts =
     bind_r (loadDocuments ev s opts)
       (\<lambda>st. case documents st of
               [] \<Rightarrow> Inr (YUndef, heap st)
             | [d] \<Rightarrow> Inr (d, heap st)
             | _ \<Rightarrow> Inl (YAMLException (jstr ''expected a single document in the stream, but found more'') None))"

datatype outcome = Returned "yval list" | Iterated "yval list"

definition loadAll :: "env \<Rightarrow> jsstring \<Rightarrow> bool \<Rightarrow> options \<Rightarrow> (outcome \<times> store) yres" where
  "loadAll ev s callback opts =
     bind_r (loadDocuments ev s opts)
       (\<lambda>st. Inr (if callback then Iterated (documents st) else Returned (documents st), heap st))"

definition safe_options :: "options \<Rightarrow> options" where
  "safe_options opts =
     opts\<lparr>o_schema := (case o_schema opts of Some x \<Rightarrow> Some x | None \<Rightarrow> Some DEFAULT_SAFE_SCHEMA)\<rparr>"

text \<open>Without a function the extended options are passed as the iterator, and no options.\<close>

definition safeLoadAll :: "env \<Rightarrow> jsstring \<Rightarrow> bool \<Rightarrow> options \<Rightarrow> (outcome \<times> store) yres" where
  "safeLoadAll ev s callback opts =
     (if callback then loadAll ev s True (safe_options opts) else loadAll ev s False no_options)"

definition safeLoad :: "env \<Rightarrow> jsstring \<Rightarrow> options \<Rightarrow> (yval \<times> store) yres" where
  "safeLoad ev s opts = load ev s (safe_options opts)"

end
