(* ===== verification/Yaml_Safety.thy ===== *)
theory Yaml_Safety
  imports Yaml_Load
begin

text \<open>
  The scanner of the YAML loader never leaves its input and none of its loops runs for ever.

  \<open>wp r Q\<close> says that a call ends, with a value in \<open>Q\<close> or an exception.  \<open>wf_state\<close> is the
  invariant of the scanner, \<open>ok st st'\<close> says that \<open>st'\<close> is a well-formed state of the same input
  at the same or a later position, \<open>adv\<close> that the position is later.  The rule \<open>scan_induct\<close> is
  the induction over the rest of the input by which every loop is proved.
\<close>

section \<open>Specifications\<close>

definition wp :: "'a yres \<Rightarrow> ('a \<Rightarrow> bool) \<Rightarrow> bool" where
  "wp r Q \<longleftrightarrow> r \<noteq> Inl Diverges \<and> (\<forall>x. r = Inr x \<longrightarrow> Q x)"

lemma wp_Inr [simp]: "wp (Inr x) Q \<longleftrightarrow> Q x"
  by (simp add: wp_def)

lemma wp_throwError [simp]: "wp (throwError st m) Q"
  by (simp add: wp_def throwError_def)

lemma wp_JsError [simp]: "wp (Inl (JsError m)) Q"
  by (simp add: wp_def)

lemma wp_bind: "wp (bind_r m f) Q \<longleftrightarrow> wp m (\<lambda>x. wp (f x) Q)"
  by (cases m) (auto simp: wp_def)

lemma wp_mono: "wp r P \<Longrightarrow> (\<And>x. P x \<Longrightarrow> Q x) \<Longrightarrow> wp r Q"
  by (auto simp: wp_def)

lemma wp_bindI: "wp m P \<Longrightarrow> (\<And>x. m = Inr x \<Longrightarrow> P x \<Longrightarrow> wp (f x) Q) \<Longrightarrow> wp (bind_r m f) Q"
  by (cases m) (auto simp: wp_def)

text \<open>As \<open>wp_bindI\<close>, for a call that returns a pair or a triple.\<close>

lemma wp_bind2I:
  "wp m (\<lambda>(x, y). P x y) \<Longrightarrow> (\<And>x y. m = Inr (x, y) \<Longrightarrow> P x y \<Longrightarrow> wp (f (x, y)) Q) \<Longrightarrow> wp (bind_r m f) Q"
  by (erule wp_bindI) auto

lemma wp_bind3I:
  "wp m (\<lambda>(x, y, z). P x y z) \<Longrightarrow> (\<And>x y z. m = Inr (x, y, z) \<Longrightarrow> P x y z \<Longrightarrow> wp (f (x, y, z)) Q) \<Longrightarrow>
   wp (bind_r m f) Q"
  by (erule wp_bindI) auto

lemma wp_if: "(c \<Longrightarrow> wp a Q) \<Longrightarrow> (\<not> c \<Longrightarrow> wp b Q) \<Longrightarrow> wp (if c then a else b) Q"
  by simp

lemma wp_let: "(\<And>y. y = x \<Longrightarrow> wp (f y) Q) \<Longrightarrow> wp (let y = x in f y) Q"
  by (simp add: Let_def)

text \<open>The types whose constructors end; those of the schemas do.\<close>

definition constructs :: "ytype \<Rightarrow> bool" where
  "constructs t \<longleftrightarrow> (\<forall>h v. construct t h v \<noteq> Inl Diverges)"

definition types_end :: "state \<Rightarrow> bool" where
  "types_end st \<longleftrightarrow>
     (\<forall>t \<in> set (implicitTypes st). constructs t) \<and>
     (\<forall>k g t. map_of (kind_map (typeMap st) k) g = Some t \<longrightarrow> constructs t)"

lemma types_end_update [simp]:
  "types_end (st\<lparr>s_tag := x0\<rparr>) = types_end st"
  "types_end (st\<lparr>anchor := x1\<rparr>) = types_end st"
  "types_end (st\<lparr>s_kind := x2\<rparr>) = types_end st"
  "types_end (st\<lparr>result := x3\<rparr>) = types_end st"
  "types_end (st\<lparr>heap := x4\<rparr>) = types_end st"
  "types_end (st\<lparr>line := x5\<rparr>) = types_end st"
  "types_end (st\<lparr>anchorMap := x6\<rparr>) = types_end st"
  "types_end (st\<lparr>warnings := x7\<rparr>) = types_end st"
  "types_end (st\<lparr>position := x8\<rparr>) = types_end st"
  "types_end (st\<lparr>lineStart := x9\<rparr>) = types_end st"
  "types_end (st\<lparr>lineIndent := x10\<rparr>) = types_end st"
  "types_end (st\<lparr>documents := x11\<rparr>) = types_end st"
  "types_end (st\<lparr>version := x12\<rparr>) = types_end st"
  "types_end (st\<lparr>tagMap := x13\<rparr>) = types_end st"
  "types_end (st\<lparr>checkLineBreaks := x14\<rparr>) = types_end st"
  by (simp_all add: types_end_def)

definition tagged :: "state \<Rightarrow> bool" where
  "tagged st \<longleftrightarrow> s_tag st \<noteq> None \<or> anchor st \<noteq> None"

definition wf_state :: "state \<Rightarrow> bool" where
  "wf_state st \<longleftrightarrow>
     length (input st) = len st + 1 \<and> input st ! len st = 0 \<and>
     (0 < len st \<longrightarrow> input st ! (len st - 1) = 10 \<or> input st ! (len st - 1) = 13) \<and>
     position st \<le> len st \<and> lineStart st + lineIndent st \<le> position st \<and> types_end st"

definition ok :: "state \<Rightarrow> state \<Rightarrow> bool" where
  "ok st st' \<longleftrightarrow>
     wf_state st' \<and> input st' = input st \<and> len st' = len st \<and> position st \<le> position st' \<and>
     (position st' = position st \<longrightarrow>
        lineStart st' = lineStart st \<and> lineIndent st' = lineIndent st \<and> (tagged st' \<longrightarrow> tagged st))"

lemma ok_refl: "wf_state st \<Longrightarrow> ok st st"
  by (simp add: ok_def)

lemma ok_trans: "ok a b \<Longrightarrow> ok b c \<Longrightarrow> ok a c"
  by (auto simp: ok_def)

lemma ok_wf: "ok a b \<Longrightarrow> wf_state b"
  by (simp add: ok_def)

text \<open>As \<open>ok\<close>, at a later position.\<close>

definition adv :: "state \<Rightarrow> state \<Rightarrow> bool" where
  "adv st st' \<longleftrightarrow> ok st st' \<and> position st < position st'"

lemma adv_ok: "adv a b \<Longrightarrow> ok a b"
  by (simp add: adv_def)

lemma adv_trans: "ok a b \<Longrightarrow> adv b c \<Longrightarrow> adv a c" "adv a b \<Longrightarrow> ok b c \<Longrightarrow> adv a c"
  by (auto simp: adv_def ok_def)

lemma scan_induct [consumes 1, case_names 1]:
  assumes "wf_state st" and "\<And>st. wf_state st \<Longrightarrow> (\<And>st'. adv st st' \<Longrightarrow> P st') \<Longrightarrow> P st"
  shows "P st"
  using assms(1)
proof (induction "len st - position st" arbitrary: st rule: less_induct)
  case less
  show ?case
  proof (rule assms(2) [OF less(2)])
    fix st'
    assume "adv st st'"
    then show "P st'"
      by (intro less(1)) (auto simp: adv_def ok_def wf_state_def)
  qed
qed

text \<open>States that differ in the fields the scanner's position does not depend on.\<close>

definition same_scan :: "state \<Rightarrow> state \<Rightarrow> bool" where
  "same_scan st st' \<longleftrightarrow>
     input st' = input st \<and> len st' = len st \<and> position st' = position st \<and>
     lineStart st' = lineStart st \<and> lineIndent st' = lineIndent st \<and> s_tag st' = s_tag st \<and>
     anchor st' = anchor st \<and> implicitTypes st' = implicitTypes st \<and> typeMap st' = typeMap st"

lemma same_scan_wf: "same_scan st st' \<Longrightarrow> wf_state st' \<longleftrightarrow> wf_state st"
  by (simp add: same_scan_def wf_state_def types_end_def)

lemma ok_same: "ok st a \<Longrightarrow> same_scan a b \<Longrightarrow> ok st b"
  using same_scan_wf [of a b] by (simp add: ok_def same_scan_def tagged_def)

lemma same_ok: "same_scan st a \<Longrightarrow> ok a b \<Longrightarrow> ok st b"
  by (auto simp: ok_def same_scan_def tagged_def)

lemma same_scan_trans: "same_scan a b \<Longrightarrow> same_scan b c \<Longrightarrow> same_scan a c"
  by (simp add: same_scan_def)

lemma code_at_nonzero:
  assumes "wf_state st" "i \<le> len st" "code_at st i \<noteq> Some 0"
  shows "i < len st"
  using assms by (cases "i = len st") (auto simp: wf_state_def code_at_def)

lemma ok_step:
  assumes "wf_state st" "here st \<noteq> Some 0"
  shows "ok st (st\<lparr>position := position st + 1\<rparr>)"
  using code_at_nonzero [of st "position st"] assms by (auto simp: ok_def wf_state_def)

lemma ok_move:
  assumes "wf_state st" "position st \<le> p" "p \<le> len st"
  shows "ok st (st\<lparr>position := p\<rparr>)"
  using assms by (auto simp: ok_def wf_state_def)

lemma seek_wp:
  assumes "length s = n + 1" "s ! n = 0" "i \<le> n" "p 0"
  shows "wp (seek p s i) (\<lambda>j. i \<le> j \<and> j \<le> n \<and> p (s ! j))"
proof -
  have "\<not> (\<forall>x \<in> set (drop i s). \<not> p x)"
  proof
    assume "\<forall>x \<in> set (drop i s). \<not> p x"
    moreover have "s ! n \<in> set (drop i s)"
      using assms(1,3) nth_mem [of "n - i" "drop i s"] by simp
    ultimately show False
      using assms(2,4) by simp
  qed
  then have "length (takeWhile (\<lambda>c. \<not> p c) (drop i s)) < length (drop i s)"
    by (metis (mono_tags, lifting) length_takeWhile_le nat_less_le takeWhile_eq_all_conv takeWhile_eq_take take_all_iff)
  then have "advance (\<lambda>c. \<not> p c) s i < length s"
    by (simp add: advance_def)
  then show ?thesis
    using assms(1) advance_char [of "\<lambda>c. \<not> p c" s i] advance_ge [of i "\<lambda>c. \<not> p c" s]
    by (auto simp: wp_def seek_def Let_def)
qed

lemma advance_len:
  assumes "wf_state st" "i \<le> len st" "\<not> p 0"
  shows "advance p (input st) i \<le> len st"
proof (rule ccontr)
  assume "\<not> ?thesis"
  then have "len st - i < length (takeWhile p (drop i (input st)))"
    using assms(2) by (simp add: advance_def)
  then have "p (drop i (input st) ! (len st - i))"
    by (metis nth_mem set_takeWhileD takeWhile_nth)
  then show False
    using assms by (simp add: wf_state_def)
qed

lemma scan_update [simp]:
  "wf_state (st\<lparr>s_kind := x0\<rparr>) = wf_state st" "ok a (st\<lparr>s_kind := x0\<rparr>) = ok a st"
  "wf_state (st\<lparr>result := x1\<rparr>) = wf_state st" "ok a (st\<lparr>result := x1\<rparr>) = ok a st"
  "wf_state (st\<lparr>heap := x2\<rparr>) = wf_state st" "ok a (st\<lparr>heap := x2\<rparr>) = ok a st"
  "wf_state (st\<lparr>line := x3\<rparr>) = wf_state st" "ok a (st\<lparr>line := x3\<rparr>) = ok a st"
  "wf_state (st\<lparr>anchorMap := x4\<rparr>) = wf_state st" "ok a (st\<lparr>anchorMap := x4\<rparr>) = ok a st"
  "wf_state (st\<lparr>warnings := x5\<rparr>) = wf_state st" "ok a (st\<lparr>warnings := x5\<rparr>) = ok a st"
  "wf_state (st\<lparr>documents := x6\<rparr>) = wf_state st" "ok a (st\<lparr>documents := x6\<rparr>) = ok a st"
  "wf_state (st\<lparr>version := x7\<rparr>) = wf_state st" "ok a (st\<lparr>version := x7\<rparr>) = ok a st"
  "wf_state (st\<lparr>tagMap := x8\<rparr>) = wf_state st" "ok a (st\<lparr>tagMap := x8\<rparr>) = ok a st"
  "wf_state (st\<lparr>checkLineBreaks := x9\<rparr>) = wf_state st" "ok a (st\<lparr>checkLineBreaks := x9\<rparr>) = ok a st"
  by (simp_all add: wf_state_def ok_def tagged_def)

lemma tag_update [simp]:
  "wf_state (st\<lparr>s_tag := t\<rparr>) = wf_state st" "adv a (st\<lparr>s_tag := t\<rparr>) = adv a st"
  "wf_state (st\<lparr>anchor := n\<rparr>) = wf_state st" "adv a (st\<lparr>anchor := n\<rparr>) = adv a st"
  by (auto simp: wf_state_def ok_def adv_def)

lemma code_at_update [simp]:
  "code_at (st\<lparr>s_tag := t\<rparr>) i = code_at st i" "code_at (st\<lparr>anchor := t2\<rparr>) i = code_at st i"
  "code_at (st\<lparr>s_kind := t3\<rparr>) i = code_at st i" "code_at (st\<lparr>result := t4\<rparr>) i = code_at st i"
  "code_at (st\<lparr>heap := t5\<rparr>) i = code_at st i" "code_at (st\<lparr>line := t6\<rparr>) i = code_at st i"
  "code_at (st\<lparr>position := t7\<rparr>) i = code_at st i" "code_at (st\<lparr>lineIndent := t8\<rparr>) i = code_at st i"
  "code_at (st\<lparr>anchorMap := t9\<rparr>) i = code_at st i"
  by (simp_all add: code_at_def)

lemma throwWarning_ok [simp]: "wf_state (throwWarning st m) = wf_state st" "ok a (throwWarning st m) = ok a st"
  by (simp_all add: throwWarning_def)

lemma append_result_ok [simp]:
  "wf_state (append_result st s) = wf_state st" "ok a (append_result st s) = ok a st"
  "code_at (append_result st s) i = code_at st i"
  by (simp_all add: append_result_def)

lemma writeFoldedLines_ok [simp]:
  "wf_state (writeFoldedLines st n) = wf_state st" "ok a (writeFoldedLines st n) = ok a st"
  "code_at (writeFoldedLines st n) i = code_at st i"
  by (simp_all add: writeFoldedLines_def)

lemma captureSegment_wp: "wp (captureSegment st a b chk) (\<lambda>st'. same_scan st st' \<and> line st' = line st)"
  by (auto simp: captureSegment_def Let_def same_scan_def append_result_def)

section \<open>White space\<close>

definition broke :: "state \<Rightarrow> state \<Rightarrow> bool" where
  "broke st st' \<longleftrightarrow>
     input st' = input st \<and> len st' = len st \<and> position st < position st' \<and> position st' \<le> len st \<and>
     lineStart st' = position st' \<and> lineIndent st' = lineIndent st \<and> implicitTypes st' = implicitTypes st \<and>
     typeMap st' = typeMap st"

lemma readLineBreak_wp:
  assumes "wf_state st"
  shows "wp (readLineBreak st) (broke st)"
proof -
  have a: "position st < len st" if "here st = Some 10 \<or> here st = Some 13"
    using code_at_nonzero [of st "position st"] assms that by (auto simp: wf_state_def)
  have b: "Suc (position st) < len st" if "here st = Some 13" "code_at st (Suc (position st)) = Some 10"
    using code_at_nonzero [of st "Suc (position st)"] assms that a by (auto simp: wf_state_def)
  show ?thesis
    using a b by (auto simp: readLineBreak_def wp_bind Let_def broke_def)
qed

lemma broke_indent:
  assumes "wf_state st" "broke st st'" "position st' \<le> p" "p \<le> len st"
  shows "adv st (st'\<lparr>lineIndent := p - position st', position := p\<rparr>)"
  using assms by (auto simp: adv_def ok_def wf_state_def broke_def types_end_def)

lemma skip_comment_wp:
  assumes "wf_state st"
  shows "wp (skip_comment allow st) (ok st)"
proof (cases "allow \<and> here st = Some 35")
  case True
  then have lt: "position st < len st"
    using code_at_nonzero [of st "position st"] assms by (auto simp: wf_state_def)
  have "wp (seek (\<lambda>c. c = 10 \<or> c = 13 \<or> c = 0) (input st) (position st + 1))
      (\<lambda>j. position st + 1 \<le> j \<and> j \<le> len st \<and> (input st ! j = 10 \<or> input st ! j = 13 \<or> input st ! j = 0))"
    by (rule seek_wp) (use assms lt in \<open>auto simp: wf_state_def\<close>)
  then show ?thesis
    unfolding skip_comment_def if_P [OF True]
    by (rule wp_bindI) (auto intro: ok_move assms)
next
  case False
  then show ?thesis
    by (simp only: skip_comment_def if_False wp_Inr ok_refl [OF assms])
qed

lemma advance_ok:
  assumes "wf_state st" "\<not> p 0"
  shows "ok st (st\<lparr>position := advance p (input st) (position st)\<rparr>)"
  using assms advance_len [of st "position st" p] advance_ge [of "position st" p "input st"]
  by (intro ok_move) (auto simp: wf_state_def)

lemma skip_loop_wp:
  "wf_state st \<Longrightarrow> wp (skip_loop allow st n) (\<lambda>(m, st'). ok st st' \<and> \<not> is_EOL (here st'))"
proof (induction st arbitrary: n rule: scan_induct)
  case (1 st)
  let ?st0 = "st\<lparr>position := advance (\<lambda>c. c = 9 \<or> c = 32) (input st) (position st)\<rparr>"
  have ok0: "ok st ?st0"
    by (rule advance_ok [OF 1(1)]) simp
  show ?case
  proof (subst skip_loop.simps, intro wp_if wp_bindI [OF skip_comment_wp [OF ok_wf [OF ok0]]] wp_let)
    fix st1
    assume ok1: "ok ?st0 st1" and "is_EOL (here st1)"
    note ok01 = ok_trans [OF ok0 ok1]
    show "wp (bind_r (readLineBreak st1) (\<lambda>st2. let p = advance (\<lambda>c. c = 32) (input st2) (position st2)
        in skip_loop allow (st2\<lparr>lineIndent := p - position st2, position := p\<rparr>) (n + 1)))
      (\<lambda>(m, st'). ok st st' \<and> \<not> is_EOL (here st'))"
    proof (intro wp_bindI [OF readLineBreak_wp [OF ok_wf [OF ok01]]] wp_let)
      fix st2 p
      assume br: "broke st1 st2" and p: "p = advance (\<lambda>c. c = 32) (input st2) (position st2)"
      have "p \<le> len st1"
        using advance_len [OF ok_wf [OF ok01], of "position st2" "\<lambda>c. c = 32"] br by (simp add: p broke_def)
      then have "adv st (st2\<lparr>lineIndent := p - position st2, position := p\<rparr>)"
        using broke_indent [OF ok_wf [OF ok01] br, of p] ok01 by (auto simp: p advance_ge intro: adv_trans)
      then show "wp (skip_loop allow (st2\<lparr>lineIndent := p - position st2, position := p\<rparr>) (n + 1))
          (\<lambda>(m, st'). ok st st' \<and> \<not> is_EOL (here st'))"
        by (intro wp_mono [OF 1(2)]) (auto intro: ok_trans adv_ok)
    qed
  qed (use 1(1) ok0 in \<open>auto intro: ok_refl ok_trans simp: is_EOL_def\<close>)
qed

lemma ok_progress: "ok a b \<Longrightarrow> P (here a) \<Longrightarrow> \<not> P (here b) \<Longrightarrow> position a < position b"
  by (rule ccontr) (simp add: ok_def code_at_def split: if_splits)

lemma skipSeparationSpace_wp:
  assumes "wf_state st"
  shows "wp (skipSeparationSpace st allow ind) (\<lambda>(m, st'). ok st st' \<and> \<not> is_EOL (here st'))"
  unfolding skipSeparationSpace_def using skip_loop_wp [OF assms] by (rule wp_bind2I) auto


section \<open>Scalars\<close>

lemma fold_break_wp:
  assumes "wf_state st"
  shows "wp (fold_break st ind a b) (ok st)"
  unfolding fold_break_def
proof (rule wp_bindI [OF captureSegment_wp])
  fix st1
  assume "same_scan st st1 \<and> line st1 = line st"
  then have "wf_state st1" "ok st st1"
    using assms same_scan_wf ok_same ok_refl by blast+
  then show "wp (bind_r (skipSeparationSpace st1 False ind) (\<lambda>(n, st2). Inr (writeFoldedLines st2 (int n)))) (ok st)"
    by (intro wp_bind2I [OF skipSeparationSpace_wp]) (auto intro: ok_trans)
qed

lemma capture_wp:
  assumes "wf_state st"
  shows "wp (captureSegment st a b chk) (\<lambda>st'. ok st st' \<and> here st' = here st \<and> position st' = position st)"
  using captureSegment_wp
  by (rule wp_mono) (use assms in \<open>auto intro: ok_same [OF ok_refl] simp: same_scan_def code_at_def\<close>)

lemma adv_step: "wf_state st \<Longrightarrow> here st \<noteq> Some 0 \<Longrightarrow> adv st (st\<lparr>position := position st + 1\<rparr>)"
  using ok_step by (simp add: adv_def)

lemma ok_adv_step: "ok a st \<Longrightarrow> here st \<noteq> Some 0 \<Longrightarrow> adv a (st\<lparr>position := position st + 1\<rparr>)"
  using adv_step adv_trans(1) ok_wf by blast

lemma adv_at: "ok a st \<Longrightarrow> here st \<noteq> Some 0 \<Longrightarrow> p = Suc (position st) \<Longrightarrow> adv a (st\<lparr>position := p\<rparr>)"
  using ok_adv_step by simp

lemma adv_at2:
  assumes "ok a st" "here st \<noteq> Some 0" "code_at st (Suc (position st)) \<noteq> Some 0" "p = Suc (Suc (position st))"
  shows "adv a (st\<lparr>position := p\<rparr>)"
proof -
  let ?st = "st\<lparr>position := Suc (position st)\<rparr>"
  have "adv a ?st"
    by (rule adv_at [OF assms(1,2) refl])
  from adv_at [OF adv_ok [OF this]] assms(3,4) show ?thesis
    by simp
qed

lemma wf_position: "wf_state st \<Longrightarrow> \<not> length (input st) \<le> position st"
  by (simp add: wf_state_def)

lemma ok_adv: "ok a b \<Longrightarrow> P (here a) \<Longrightarrow> \<not> P (here b) \<Longrightarrow> adv a b"
  using ok_progress by (auto simp: adv_def)

lemma fold_break_adv: "wf_state st \<Longrightarrow> is_EOL (here st) \<Longrightarrow> wp (fold_break st ind a b) (adv st)"
  using fold_break_wp [of st ind a b] fold_break_progress [of st ind a b] by (auto simp: wp_def adv_def)

lemmas quoted_intros = ok_refl adv_at adv_at2 adv_trans adv_ok

lemma adv_wp: "wp m (\<lambda>(r, s). adv st' s) \<Longrightarrow> ok st st' \<Longrightarrow> wp m (\<lambda>(r, s). adv st s)"
  by (erule wp_mono) (auto intro: adv_trans)

lemma single_loop_wp: "wf_state st \<Longrightarrow> wp (single_loop ind st a b) (\<lambda>(r, st'). adv st st')"
proof (induction st arbitrary: a b rule: scan_induct)
  case (1 st)
  have IH: "wp (single_loop ind st' a' b') (\<lambda>(r, s). adv st s)" if "adv st st'" for st' a' b'
    by (rule adv_wp [OF 1(2) [OF that] adv_ok [OF that]])
  show ?case
    by (subst single_loop.simps,
        intro wp_if wp_let wp_bindI [OF capture_wp [OF 1(1)]] wp_bindI [OF fold_break_adv [OF 1(1)]] IH)
      (use 1(1) in \<open>auto dest: wf_position ok_wf intro: quoted_intros\<close>)
qed


text \<open>The contract of the readers that say whether they found what they read.\<close>

definition reads :: "state \<Rightarrow> bool \<times> state \<Rightarrow> bool" where
  "reads st r \<longleftrightarrow> ok st (snd r) \<and> (fst r \<longrightarrow> adv st (snd r))"

lemma reads_simps [simp]:
  "reads st (True, st') \<longleftrightarrow> adv st st'" "reads st (False, st') \<longleftrightarrow> ok st st'"
  by (auto simp: reads_def adv_def)

lemma readSingleQuotedScalar_wp:
  assumes "wf_state st"
  shows "wp (readSingleQuotedScalar st ind) (reads st)"
proof -
  let ?st = "st\<lparr>s_kind := Some Scalar, result := YStr [], position := position st + 1\<rparr>"
  have "wp (single_loop ind ?st (position st + 1) (position st + 1)) (reads st)" if "here st = Some 39"
  proof -
    have "adv st ?st"
      using ok_adv_step [of st "st\<lparr>s_kind := Some Scalar, result := YStr []\<rparr>"] that assms by (simp add: ok_refl)
    then show ?thesis
      by (intro wp_mono [OF single_loop_wp]) (auto simp: reads_def adv_def intro: ok_trans ok_wf)
  qed
  then show ?thesis
    using assms by (simp add: readSingleQuotedScalar_def ok_refl)
qed

lemma fromHexCode_0: "fromHexCode (Some 0) < 0"
  by code_simp

lemma hex_loop_wp:
  "wf_state st \<Longrightarrow> here st \<noteq> Some 0 \<Longrightarrow> wp (hex_loop n st r) (\<lambda>(st', r'). ok st st' \<and> here st' \<noteq> Some 0)"
proof (induction n st r rule: hex_loop.induct)
  case (2 n st r)
  let ?st = "st\<lparr>position := position st + 1\<rparr>"
  have ok1: "ok st ?st"
    using ok_step 2(2,3) .
  have h: "here ?st \<noteq> Some 0" if "0 \<le> fromHexCode (here ?st)"
    using that fromHexCode_0 by (metis not_le)
  have "wp (hex_loop n ?st (shl r 4 + fromHexCode (here ?st))) (\<lambda>(st', r'). ok st st' \<and> here st' \<noteq> Some 0)"
    if "0 \<le> fromHexCode (here ?st)"
    using 2(1) [OF refl refl that ok_wf [OF ok1] h [OF that]] by (rule wp_mono) (auto intro: ok_trans [OF ok1])
  then show ?case
    by (simp add: Let_def)
qed (simp add: ok_refl)

lemma read_escape_wp:
  assumes "wf_state st" "here st \<noteq> Some 0"
  shows "wp (read_escape st ind) (adv st)"
proof -
  let ?st = "st\<lparr>position := position st + 1\<rparr>"
  have adv1: "adv st ?st" and wf1: "wf_state ?st"
    using adv_step [OF assms] ok_wf adv_ok by blast+
  have ne: "here ?st \<noteq> Some 0" if "escapedHexLen (here ?st) > 0 \<or> simple_escape (here ?st) \<noteq> []"
    using that by (auto simp: escapedHexLen_def simple_escape_def simpleEscapeSequence_def)
  show ?thesis
    unfolding read_escape_def
  proof (intro wp_let wp_if, goal_cases)
    case (1 st1 ch)
    then show ?case
      using adv1 wf1 by (intro wp_bind2I [OF skipSeparationSpace_wp]) (auto intro: adv_trans)
  next
    case (2 st1 ch)
    then show ?case
      using ne adv_at [of st "append_result ?st (simple_escape ch)"] adv1 by (simp add: adv_def)
  next
    case (3 st1 ch)
    then show ?case
      using adv1 wf1 ne
      by (intro wp_bind2I [OF hex_loop_wp]) (auto intro!: adv_at intro: ok_trans [OF adv_ok [OF adv1]])
  qed simp
qed

lemma double_loop_wp: "wf_state st \<Longrightarrow> wp (double_loop ind st a b) (\<lambda>(r, st'). adv st st')"
proof (induction st arbitrary: a b rule: scan_induct)
  case (1 st)
  have IH: "wp (double_loop ind st' a' b') (\<lambda>(r, s). adv st s)" if "adv st st'" for st' a' b'
    by (rule adv_wp [OF 1(2) [OF that] adv_ok [OF that]])
  show ?case
    by (subst double_loop.simps,
        intro wp_if wp_let wp_bindI [OF capture_wp [OF 1(1)]] wp_bindI [OF fold_break_adv [OF 1(1)]]
          wp_bindI [OF read_escape_wp] IH)
      (use 1(1) in \<open>auto dest: wf_position ok_wf intro: quoted_intros\<close>)
qed


lemma readDoubleQuotedScalar_wp:
  assumes "wf_state st"
  shows "wp (readDoubleQuotedScalar st ind) (reads st)"
proof -
  let ?st = "st\<lparr>s_kind := Some Scalar, result := YStr [], position := position st + 1\<rparr>"
  have "wp (double_loop ind ?st (position st + 1) (position st + 1)) (reads st)" if "here st = Some 34"
  proof -
    have "adv st ?st"
      using ok_adv_step [of st "st\<lparr>s_kind := Some Scalar, result := YStr []\<rparr>"] that assms by (simp add: ok_refl)
    then show ?thesis
      by (intro wp_mono [OF double_loop_wp]) (auto simp: reads_def adv_def intro: ok_trans ok_wf)
  qed
  then show ?thesis
    using assms by (simp add: readDoubleQuotedScalar_def ok_refl)
qed

lemma flush_pending_wp:
  "wp (flush_pending st a b pend l) (\<lambda>(st', a', b'). same_scan st st' \<and>
     (if pend then a' = position st \<and> b' = position st else a' = a \<and> b' = b))"
proof (cases pend)
  case True
  then show ?thesis
    unfolding flush_pending_def if_P [OF True]
    by (intro wp_bindI [OF captureSegment_wp]) (auto simp: same_scan_def writeFoldedLines_def append_result_def)
qed (simp add: flush_pending_def same_scan_def)

text \<open>
  The bounds of the segment stay in the input that has been read, and where no line break is
  pending the current line starts before the end of the segment: \<open>position\<close> can go back there.
\<close>

definition plain_inv :: "state \<Rightarrow> nat \<Rightarrow> bool \<Rightarrow> bool" where
  "plain_inv st ce pend \<longleftrightarrow>
     ce \<le> position st \<and> (if pend then \<not> is_EOL (here st) else lineStart st + lineIndent st \<le> ce)"

definition plain_post :: "state \<Rightarrow> nat \<Rightarrow> state \<Rightarrow> bool" where
  "plain_post st ce st' \<longleftrightarrow> wf_state st' \<and> input st' = input st \<and> len st' = len st \<and> ce \<le> position st'"

lemma plain_loop_wp:
  "wf_state st \<Longrightarrow> plain_inv st ce pend \<Longrightarrow>
   wp (plain_loop w ind st cs ce pend l) (\<lambda>(st', cs', ce'). plain_post st ce st')"
proof (induction st arbitrary: cs ce pend l rule: scan_induct)
  case (1 st)
  have IH: "wp (plain_loop w ind st' cs' ce' pend' l') (\<lambda>(s, _, _). plain_post st ce s)"
    if "adv st st'" "plain_inv st' ce' pend'" "ce \<le> ce'" for st' cs' ce' pend' l'
    using 1(2) [OF that(1,2)] by (rule wp_mono) (use that in \<open>auto simp: plain_post_def adv_def ok_def\<close>)
  show ?case
  proof (subst plain_loop.simps, intro wp_if, goal_cases)
    case 1
    then show ?case
      using \<open>wf_state st\<close> by (simp add: wf_state_def)
  next
    case eol: 4
    show ?case
    proof (intro wp_bind2I [OF skipSeparationSpace_wp [OF \<open>wf_state st\<close>]], simp only: prod.case, intro wp_if, goal_cases)
      case (1 n st1)
      then have "adv st st1"
        using eol by (intro ok_adv [of st st1 is_EOL]) auto
      then show ?case
        using 1 \<open>plain_inv st ce pend\<close> by (intro IH) (auto simp: plain_inv_def adv_def)
    next
      case (2 n st1)
      then show ?case
        using eol \<open>plain_inv st ce pend\<close> \<open>wf_state st\<close>
        by (auto simp: plain_post_def plain_inv_def wf_state_def ok_def split: if_splits)
    qed
  next
    case 5
    note wf = \<open>wf_state st\<close> and inv = \<open>plain_inv st ce pend\<close>
    show ?case
    proof (intro wp_bind3I [OF flush_pending_wp], simp only: prod.case, goal_cases)
      case (1 st1 cs1 ce1)
      then have s: "same_scan st st1" "ce \<le> ce1" "ce1 \<le> position st" "lineStart st + lineIndent st \<le> ce1"
        using inv wf by (auto simp: plain_inv_def wf_state_def split: if_splits)
      have h: "here st1 = here st"
        using s(1) by (simp add: same_scan_def code_at_def)
      have "adv st (st1\<lparr>position := position st1 + 1\<rparr>)"
        using ok_adv_step [OF ok_same [OF ok_refl [OF wf] s(1)]] 5 h by simp
      then show ?case
        using s by (intro IH) (auto simp: plain_inv_def same_scan_def)
    qed
  qed (use 1 in \<open>auto simp: plain_post_def plain_inv_def\<close>)
qed


lemma plain_first:
  assumes "wf_state st" "\<not> is_WS_OR_EOL (here st)"
  shows "wp (plain_loop w ind st (position st) (position st) False l)
    (\<lambda>(st', cs, ce). adv st st' \<or> (st', cs, ce) = (st, position st, position st))"
proof -
  let ?st = "st\<lparr>position := position st + 1\<rparr>"
  have e: "\<not> is_EOL (here st)" "\<not> is_WHITE_SPACE (here st)"
    using assms(2) by (auto simp: is_WS_OR_EOL_def is_EOL_def is_WHITE_SPACE_def)
  show ?thesis
  proof (subst plain_loop.simps, intro wp_if, goal_cases)
    case 5
    then have "adv st ?st"
      using adv_step [OF assms(1)] by simp
    then have "wp (plain_loop w ind ?st (position st) (position st + 1) False l)
        (\<lambda>(st', cs, ce). adv st st' \<or> (st', cs, ce) = (st, position st, position st))"
      using assms(1) by (intro wp_mono [OF plain_loop_wp])
        (auto simp: plain_inv_def plain_post_def adv_def ok_def wf_state_def)
    then show ?case
      using e by (simp add: flush_pending_def)
  qed (use assms(1) e in \<open>auto dest: wf_position\<close>)
qed

lemma readPlainScalar_wp:
  assumes "wf_state st"
  shows "wp (readPlainScalar st ind w) (reads st)"
  unfolding readPlainScalar_def
proof (intro wp_let wp_if, goal_cases)
  case (3 ch following)
  let ?st = "st\<lparr>s_kind := Some Scalar, result := YStr []\<rparr>"
  have "wp (plain_loop w ind ?st (position ?st) (position ?st) False 0)
      (\<lambda>(st', cs, ce). adv ?st st' \<or> (st', cs, ce) = (?st, position ?st, position ?st))"
    using 3 assms by (intro plain_first) (auto simp: plain_first_excluded_def)
  then have "wp (plain_loop w ind ?st (position st) (position st) False 0)
      (\<lambda>(st', cs, ce). adv st st' \<or> (st', cs, ce) = (?st, position st, position st))"
    unfolding wp_def by (auto simp: adv_def ok_def)
  then show ?case
  proof (rule wp_bind3I, simp only: prod.case, goal_cases)
    case (1 st1 cs ce)
    then consider "adv st st1" | "st1 = ?st" "cs = position st" "ce = position st"
      by auto
    then show ?case
    proof cases
      case 1
      show ?thesis
        by (intro wp_bindI [OF capture_wp [OF ok_wf [OF adv_ok [OF 1]]]] wp_if)
          (use 1 in \<open>auto intro: adv_trans ok_trans adv_ok\<close>)
    next
      case 2
      then show ?thesis
        using assms by (simp add: captureSegment_def ok_refl)
    qed
  qed
qed (use assms in \<open>simp_all add: ok_refl\<close>)

lemma header_loop_wp:
  "wf_state st \<Longrightarrow> here st \<noteq> Some 0 \<Longrightarrow> wp (header_loop ind st h) (\<lambda>(st', h'). adv st st')"
proof (induction st arbitrary: h rule: scan_induct)
  case (1 st)
  let ?st = "st\<lparr>position := position st + 1\<rparr>"
  have a: "adv st ?st"
    using adv_step 1(1,3) .
  have IH: "wp (header_loop ind ?st h') (\<lambda>(s, _). adv st s)" if "here ?st \<noteq> Some 0" for h'
    using 1(2) [OF a that] by (rule wp_mono) (use a in \<open>auto intro: adv_trans adv_ok\<close>)
  have d: "fromDecimalCode (Some 0) < 0"
    by code_simp
  show ?case
    by (subst header_loop.simps, simp only: Let_def 1(3) if_False, intro wp_if IH)
      (use a d in \<open>auto simp: not_le\<close>)
qed

lemma advance_next_ok:
  assumes "wf_state st" "here st \<noteq> Some 0" "\<not> p 0"
  shows "adv st (st\<lparr>position := advance p (input st) (position st + 1)\<rparr>)"
  using adv_trans(2) [OF adv_step advance_ok [of "st\<lparr>position := position st + 1\<rparr>" p], OF assms(1,2) _ assms(3)]
    ok_wf [OF ok_step [OF assms(1,2)]] by simp

lemma comment_wp:
  assumes "ok st st1" "here st1 = Some 35"
  shows "wp (bind_r (seek (\<lambda>c. c = 10 \<or> c = 13 \<or> c = 0) (input st1) (position st1 + 1))
    (\<lambda>p. Inr (st1\<lparr>position := p\<rparr>))) (ok st)"
proof -
  note wf = ok_wf [OF assms(1)]
  have "position st1 < len st1"
    using code_at_nonzero [of st1 "position st1"] wf assms(2) by (auto simp: wf_state_def)
  then have "wp (seek (\<lambda>c. c = 10 \<or> c = 13 \<or> c = 0) (input st1) (position st1 + 1))
      (\<lambda>j. position st1 + 1 \<le> j \<and> j \<le> len st1 \<and> (input st1 ! j = 10 \<or> input st1 ! j = 13 \<or> input st1 ! j = 0))"
    using wf by (intro seek_wp) (auto simp: wf_state_def)
  then show ?thesis
    by (rule wp_bindI) (auto intro!: ok_trans [OF assms(1)] ok_move wf)
qed

lemma header_comment_wp:
  assumes "wf_state st"
  shows "wp (header_comment st) (ok st)"
proof (cases "is_WHITE_SPACE (here st)")
  case True
  let ?st = "st\<lparr>position := advance (\<lambda>c. c = 9 \<or> c = 32) (input st) (position st + 1)\<rparr>"
  have "ok st ?st"
    using True by (intro adv_ok advance_next_ok assms) (auto simp: is_WHITE_SPACE_def)
  then show ?thesis
    unfolding header_comment_def if_P [OF True] Let_def by (intro wp_if comment_wp) simp_all
qed (simp add: header_comment_def ok_refl assms)

lemma indent_width_le:
  assumes "wf_state st" "i \<le> len st"
  shows "i + indent_width d t (input st) i \<le> len st"
  using advance_len [OF assms, of "\<lambda>c. c = 32"] advance_ge [of i "\<lambda>c. c = 32" "input st"]
  by (auto simp: indent_width_def Let_def)

lemma block_loop_wp: "wf_state st \<Longrightarrow> wp (block_loop f chomp st d t r e m) (ok st)"
proof (induction st arbitrary: d t r e m rule: scan_induct)
  case (1 st)
  have IH: "wp (block_loop f chomp st' d' t' r' e' m') (ok st)" if "adv st st'" for st' d' t' r' e' m'
    using 1(2) [OF that] by (rule wp_mono) (use that in \<open>auto intro: ok_trans adv_ok\<close>)
  show ?case
  proof (subst block_loop.simps, intro wp_if wp_bindI [OF readLineBreak_wp [OF 1(1)]] wp_let, goal_cases)
    case (2 st1 w st2 ch t')
    then have "adv st st2"
      using broke_indent [OF 1(1), of st1 "position st1 + w"] indent_width_le [OF 1(1), of "position st1" d t]
      by (simp add: broke_def)
    then show ?case
      by (rule IH)
  next
    case (3 st1 w st2 ch t')
    then show ?case
      using broke_indent [OF 1(1), of st1 "position st1 + w"] indent_width_le [OF 1(1), of "position st1" d t]
      by (simp add: broke_def adv_ok)
  next
    case (4 st1 w st2 ch t' st3 more)
    then have a: "adv st st3"
      using broke_indent [OF 1(1), of st1 "position st1 + w"] indent_width_le [OF 1(1), of "position st1" d t]
      by (simp add: broke_def adv_def)
    note wf3 = ok_wf [OF adv_ok [OF a]]
    have "wp (seek (\<lambda>c. c = 10 \<or> c = 13 \<or> c = 0) (input st3) (position st3))
        (\<lambda>j. position st3 \<le> j \<and> j \<le> len st3 \<and> (input st3 ! j = 10 \<or> input st3 ! j = 13 \<or> input st3 ! j = 0))"
      by (rule seek_wp) (use wf3 in \<open>auto simp: wf_state_def\<close>)
    then show ?case
    proof (rule wp_bindI, goal_cases)
      case (1 p)
      then have p: "adv st (st3\<lparr>position := p\<rparr>)"
        by (intro adv_trans(2) [OF a] ok_move wf3) auto
      show ?case
        by (intro wp_bindI [OF capture_wp [OF ok_wf [OF adv_ok [OF p]]]] IH) (use p in \<open>auto intro: adv_trans\<close>)
    qed
  qed (simp add: ok_refl 1(1))
qed

lemma readBlockScalar_wp:
  assumes "wf_state st"
  shows "wp (readBlockScalar st ind) (reads st)"
proof (cases "here st \<noteq> Some 124 \<and> here st \<noteq> Some 62")
  case False
  let ?st = "st\<lparr>s_kind := Some Scalar, result := YStr []\<rparr>"
  have 0: "wf_state ?st" "here ?st \<noteq> Some 0"
    using False assms by auto
  have a: "adv st s" if "adv ?st s" for s
    using that by (simp add: adv_def ok_def)
  show ?thesis
    unfolding readBlockScalar_def if_not_P [OF False]
    by (intro wp_bind2I [OF header_loop_wp [OF 0]], simp only: prod.case,
        intro wp_bindI [OF header_comment_wp] wp_bindI [OF block_loop_wp])
      (auto dest!: a intro: ok_wf adv_ok adv_trans)
qed (simp add: readBlockScalar_def ok_refl assms)


section \<open>Node properties\<close>

text \<open>The last character of the input is a line break, so that one look ahead stays inside.\<close>

lemma before_last:
  assumes "wf_state st" "here st \<noteq> Some 0" "\<not> is_EOL (here st)"
  shows "position st + 1 < len st"
proof -
  have lt: "position st < len st"
    using code_at_nonzero [of st "position st"] assms by (auto simp: wf_state_def)
  then have "here st = Some (uint (input st ! position st))"
    using assms(1) by (simp add: wf_state_def code_at_def)
  then have "position st \<noteq> len st - 1"
    using assms(1,3) lt by (auto simp: wf_state_def is_EOL_def)
  then show ?thesis
    using lt by simp
qed

lemma tag_loop_wp: "wf_state st \<Longrightarrow> wp (tag_loop st a n h) (\<lambda>(st', a', h'). ok st st')"
proof (induction st arbitrary: a n h rule: scan_induct)
  case (1 st)
  have IH: "wp (tag_loop (st\<lparr>position := position st + 1\<rparr>) a' n' h') (\<lambda>(s, _, _). ok st s)"
    if "here st \<noteq> Some 0" for a' n' h'
    using 1(2) [OF adv_step [OF 1(1) that]]
    by (rule wp_mono) (use ok_step [OF 1(1) that] in \<open>auto intro: ok_trans\<close>)
  show ?case
    by (subst tag_loop.simps, intro wp_if wp_let IH) (use 1(1) in \<open>auto simp: ok_refl dest: wf_position\<close>)
qed

lemma verbatim_tag_wp:
  assumes "wf_state st" "position st < len st"
  shows "wp (verbatim_tag st) (\<lambda>(st', name). adv st st')"
proof -
  have "wp (seek (\<lambda>c. c = 0 \<or> c = 62) (input st) (position st + 1))
      (\<lambda>j. position st + 1 \<le> j \<and> j \<le> len st \<and> (input st ! j = 0 \<or> input st ! j = 62))"
    by (rule seek_wp) (use assms in \<open>auto simp: wf_state_def\<close>)
  then show ?thesis
    unfolding verbatim_tag_def
    by (rule wp_bindI) (use assms in \<open>auto simp: Let_def adv_def intro!: ok_move\<close>)
qed

lemma readTagProperty_wp:
  assumes "wf_state st"
  shows "wp (readTagProperty st) (reads st)"
  unfolding readTagProperty_def
proof (intro wp_if wp_let, goal_cases)
  case (3 st1 verb named h st2)
  then have a: "adv st st1"
    using adv_step [OF assms] by simp
  have a2: "adv st st2"
  proof (cases "verb \<or> named")
    case True
    then have "here st1 \<noteq> Some 0"
      using 3 by auto
    then show ?thesis
      using 3(7) True ok_adv_step [OF adv_ok [OF a]] by simp
  qed (use a 3(7) in simp)
  have v: "position st2 < len st2" if verb
    using before_last [OF ok_wf [OF adv_ok [OF a]]] that 3(4,7) by (simp add: is_EOL_def)
  note wf2 = ok_wf [OF adv_ok [OF a2]]
  have "wp (if verb then bind_r (verbatim_tag st2) (\<lambda>(st2, tagName). Inr (st2, tagName, h))
      else bind_r (tag_loop st2 (position st2) named h)
             (\<lambda>(st2, start, handle).
                 let tagName = segment st2 start (position st2)
                 in if list_ex (\<lambda>c. is_FLOW_INDICATOR (Some (uint c))) tagName
                    then throwError st2 (jstr ''tag suffix cannot contain flow indicator characters'')
                    else Inr (st2, tagName, handle))) (\<lambda>(st', n', h'). adv st st')"
  proof (intro wp_if, goal_cases)
    case 1
    then show ?case
      by (intro wp_bind2I [OF verbatim_tag_wp [OF wf2 v]]) (auto intro: adv_trans(1) [OF adv_ok [OF a2]])
  next
    case 2
    then show ?case
      by (intro wp_bind3I [OF tag_loop_wp [OF wf2]]) (auto simp: Let_def intro: adv_trans(2) [OF a2])
  qed
  then show ?case
    by (rule wp_bind3I) auto
qed (simp_all add: ok_refl assms)

lemma name_wp:
  assumes "wf_state st" "here st \<noteq> Some 0"
  shows "wp (seek name_end (input st) (position st + 1)) (\<lambda>p. adv st (st\<lparr>position := p\<rparr>))"
proof -
  have "position st < len st"
    using code_at_nonzero [of st "position st"] assms by (auto simp: wf_state_def)
  then have "wp (seek name_end (input st) (position st + 1))
      (\<lambda>j. position st + 1 \<le> j \<and> j \<le> len st \<and> name_end (input st ! j))"
    using assms by (intro seek_wp) (auto simp: wf_state_def name_end_def)
  then show ?thesis
    by (rule wp_mono) (use assms in \<open>auto simp: adv_def intro!: ok_move\<close>)
qed

lemma readAnchorProperty_wp:
  assumes "wf_state st"
  shows "wp (readAnchorProperty st) (reads st)"
proof (cases "here st = Some 38")
  case True
  then show ?thesis
    unfolding readAnchorProperty_def Let_def
    by (intro wp_if wp_bindI [OF name_wp [OF assms]]) auto
qed (simp add: readAnchorProperty_def ok_refl assms)

lemma readAlias_wp:
  assumes "wf_state st"
  shows "wp (readAlias st) (reads st)"
proof (cases "here st = Some 42")
  case True
  then show ?thesis
    unfolding readAlias_def Let_def
    by (intro wp_if wp_bindI [OF name_wp [OF assms]] wp_bind2I [OF skipSeparationSpace_wp])
      (auto simp: adv_def ok_def)
qed (simp add: readAlias_def ok_refl assms)

end
