(* ===== verification/Yaml_Total.thy ===== *)
theory Yaml_Total
  imports Yaml_Safety
begin

text \<open>
  The loader ends on every input.  The contract of the reader of nodes is the locale
  \<open>node_reader\<close>: from a well-formed state, with a depth of at least \<open>need\<close>, it ends in a
  well-formed state at the same or a later position.  Inside the locale the readers of flow
  collections, block sequences and block mappings are shown to end, and with them \<open>compose_with\<close>
  at one more level of depth; \<open>composeNode\<close> is the instance.  Then come the documents, the entry
  points, and that the depth bound does not change a result.
\<close>

section \<open>Storing entries\<close>

lemma adv_same: "adv a b \<Longrightarrow> same_scan b c \<Longrightarrow> adv a c"
  using ok_same [of a b c] by (simp add: adv_def same_scan_def)

lemma adv_update [simp]:
  "adv a (st\<lparr>s_kind := k\<rparr>) = adv a st" "adv a (st\<lparr>result := r\<rparr>) = adv a st"
  by (simp_all add: adv_def)

lemma push_same [simp]:
  "wf_state (push st i v) = wf_state st" "ok a (push st i v) = ok a st" "adv a (push st i v) = adv a st"
  "code_at (push st i v) j = code_at st j" "position (push st i v) = position st"
  "lineIndent (push st i v) = lineIndent st" "line (push st i v) = line st"
  by (simp_all add: push_def adv_def)

lemma set_anchor_ok [simp]:
  "wf_state (set_anchor st) = wf_state st" "ok a (set_anchor st) = ok a st" "adv a (set_anchor st) = adv a st"
  by (simp_all add: set_anchor_def adv_def split: option.splits)

lemma alloc_anchored_same: "alloc_anchored st ob = (st1, a) \<Longrightarrow> same_scan st st1"
  by (auto simp: alloc_anchored_def same_scan_def Let_def split: option.splits)

lemma mergeMappings_wp: "wp (mergeMappings st a v ov) (\<lambda>(st', _). same_scan st st')"
  by (auto simp: mergeMappings_def same_scan_def split: prod.splits)

lemma same_scan_refl: "same_scan st st"
  by (simp add: same_scan_def)

lemma mergeAll_wp: "wp (mergeAll vs st a ov) (\<lambda>(st', _). same_scan st st')"
proof (induction vs st a ov rule: mergeAll.induct)
  case (2 v vs st a ov)
  show ?case
    unfolding mergeAll.simps
  proof (rule wp_bind2I [OF mergeMappings_wp], simp only: prod.case)
    fix st1 ov1
    assume m: "mergeMappings st a v ov = Inr (st1, ov1)" and s: "same_scan st st1"
    show "wp (mergeAll vs st1 a ov1) (\<lambda>(st', _). same_scan st st')"
      using 2 [OF m refl] by (rule wp_mono) (auto intro: same_scan_trans [OF s])
  qed
qed (simp add: same_scan_refl)

lemma storeMappingPair_wp: "wp (storeMappingPair st t ov kt k v sl sp) (\<lambda>(st', _, _). same_scan st st')"
proof -
  define st1 where "st1 = (case t of Some _ \<Rightarrow> st | None \<Rightarrow> st\<lparr>heap := heap st @ [YMap []]\<rparr>)"
  define a where "a = (case t of Some a \<Rightarrow> a | None \<Rightarrow> length (heap st))"
  have s: "same_scan st st1"
    by (simp add: st1_def same_scan_def split: option.splits)
  have e: "(case t of None \<Rightarrow> (st\<lparr>heap := heap st @ [YMap []]\<rparr>, length (heap st)) | Some a \<Rightarrow> (st, a)) = (st1, a)"
    by (simp add: st1_def a_def split: option.splits)
  have "wp (if isArray (heap st1) v then mergeAll (elements_of (heap st1) v) st1 a ov
      else mergeMappings st1 a v ov) (\<lambda>(st', _). same_scan st st')"
    by (intro wp_if wp_mono [OF mergeAll_wp] wp_mono [OF mergeMappings_wp]) (auto intro: same_scan_trans [OF s])
  then have m: "wp (bind_r (if isArray (heap st1) v then mergeAll (elements_of (heap st1) v) st1 a ov
      else mergeMappings st1 a v ov) (\<lambda>(st', ov). Inr (st', a, ov))) (\<lambda>(st', _, _). same_scan st st')"
    by (rule wp_bind2I) simp
  have "same_scan st (st1\<lparr>heap := h\<rparr>)" for h
    using s by (simp add: same_scan_def)
  then show ?thesis
    unfolding storeMappingPair_def Let_def e prod.case by (intro wp_if m) simp_all
qed

lemma storeMappingPair_ok: "wf_state st \<Longrightarrow> wp (storeMappingPair st t ov kt k v sl sp) (\<lambda>(st', _, _). ok st st')"
  by (rule wp_mono [OF storeMappingPair_wp]) (auto intro: ok_same ok_refl)

lemma store_explicit_wp:
  assumes "wf_state st"
  shows "wp (store_explicit st a v) (\<lambda>(st', v'). same_scan st st' \<and> mv_detected v' = mv_detected v)"
proof -
  have "wp (store_pair st a v x sl sp) (\<lambda>(st', v'). same_scan st st' \<and> mv_detected v' = mv_detected v)" for x sl sp
    unfolding store_pair_def by (rule wp_bind3I [OF storeMappingPair_wp]) simp
  then show ?thesis
    by (simp add: store_explicit_def same_scan_refl)
qed

lemma flow_store_wp:
  assumes "wf_state st"
  shows "wp (flow_store st m a p ov kt k v) (\<lambda>(st', _). ok st st')"
  unfolding flow_store_def
  by (intro wp_if wp_bind3I [OF storeMappingPair_ok [OF assms]]) (auto simp: ok_refl assms)

section \<open>The resolution of tags\<close>

lemma construct_node_wp:
  assumes "wf_state st" "constructs t"
  shows "wp (construct_node st t) (\<lambda>st'. same_scan st st')"
  using assms(2) unfolding construct_node_def constructs_def
  by (cases "construct t (heap st) (result st)") (auto simp: wp_def same_scan_def split: prod.splits)

lemma resolve_tag_wp:
  assumes "wf_state st"
  shows "wp (resolve_tag st) (ok st)"
proof (cases "s_tag st")
  case (Some tg)
  then have t: "ok st (s\<lparr>s_tag := g\<rparr>)" if "same_scan st s" for s g
    using that assms same_scan_wf [OF that] by (auto simp: ok_def same_scan_def tagged_def)
  have end1: "constructs x" if "find P (implicitTypes st) = Some x" for x P
    using that assms by (auto simp: wf_state_def types_end_def find_Some_iff)
  have end2: "constructs x" if "map_of (kind_map (typeMap st) k) g = Some x" for x k g
    using that assms by (auto simp: wf_state_def types_end_def)
  have "wp (resolve_implicit st) (ok st)"
    unfolding resolve_implicit_def
    by (auto split: option.split simp: ok_refl assms t intro!: wp_bindI [OF construct_node_wp [OF assms end1]])
  then show ?thesis
    using Some unfolding resolve_tag_def
    by (auto split: option.split simp: ok_refl assms
        intro!: wp_if wp_bindI [OF construct_node_wp [OF assms end2]] intro: ok_same [OF ok_refl [OF assms]])
qed (simp add: resolve_tag_def ok_refl assms)


section \<open>The readers of collections\<close>

text \<open>
  The depth that reading a node takes: a collection consumes a character before it reads an
  entry, except a block mapping, which reads its first key in flow context where it stands.
\<close>

definition room :: "state \<Rightarrow> nat" where
  "room st = len st - position st"

definition need :: "node_context \<Rightarrow> state \<Rightarrow> nat" where
  "need ctx st = 2 * room st + (if is_block ctx then 2 else 1)"

lemma room_ok: "ok st st' \<Longrightarrow> room st' \<le> room st"
  by (auto simp: room_def ok_def)

lemma room_adv: "adv st st' \<Longrightarrow> room st' + 1 \<le> room st"
  by (auto simp: room_def adv_def ok_def wf_state_def)

lemma need_simps: "need FLOW_IN st = 2 * room st + 1" "need FLOW_OUT st = 2 * room st + 1"
  "need BLOCK_IN st = 2 * room st + 2" "need BLOCK_OUT st = 2 * room st + 2"
  by (simp_all add: need_def is_block_def)

lemma reads_ok: "reads st (b, st') \<Longrightarrow> ok st st'"
  by (simp add: reads_def)

lemma ok_wf_step: "wf_state st \<Longrightarrow> here st \<noteq> Some 0 \<Longrightarrow> wf_state (st\<lparr>position := position st + 1\<rparr>)"
  using ok_step ok_wf by blast

lemma skip_step_wp:
  assumes "wf_state st" "here st \<noteq> Some 0"
  shows "wp (skipSeparationSpace (st\<lparr>position := position st + 1\<rparr>) c ind) (\<lambda>(n, st'). adv st st')"
  using skipSeparationSpace_wp [OF ok_wf_step [OF assms]]
  by (rule wp_mono) (auto intro: adv_trans(2) [OF adv_step [OF assms]])

lemma explicit_mark_wp: "wf_state st \<Longrightarrow> wp (explicit_mark st ind) (\<lambda>(b, st'). ok st st')"
  unfolding explicit_mark_def
  by (intro wp_if wp_bind2I [OF skip_step_wp]) (auto intro: adv_ok ok_refl)

definition key_post :: "state \<Rightarrow> key_outcome \<Rightarrow> bool" where
  "key_post st k = (case k of Break s \<Rightarrow> ok st s | Return s \<Rightarrow> adv st s | Entry s v \<Rightarrow> adv st s)"

lemma key_post_simps [simp]:
  "key_post st (Break s) = ok st s" "key_post st (Return s) = adv st s" "key_post st (Entry s v) = adv st s"
  by (simp_all add: key_post_def)

lemma implicit_key_wp:
  assumes "adv st0 st"
  shows "wp (implicit_key st a l t an v) (key_post st0)"
proof -
  let ?st1 = "st\<lparr>position := advance (\<lambda>c. c = 9 \<or> c = 32) (input st) (position st)\<rparr>"
  have a1: "adv st0 ?st1"
    by (rule adv_trans(2) [OF assms advance_ok]) (use assms in \<open>auto intro: ok_wf adv_ok\<close>)
  have a2: "adv st0 (?st1\<lparr>position := position ?st1 + 1\<rparr>)" if "here ?st1 = Some 58"
    using that by (intro ok_adv_step adv_ok [OF a1]) simp
  show ?thesis
    unfolding implicit_key_def Let_def
  proof (intro wp_if, goal_cases)
    case 2
    note ok2 = adv_ok [OF a2 [OF 2(2)]]
    show ?case
      by (rule wp_bind2I [OF store_explicit_wp [OF ok_wf [OF ok2]]])
        (use a2 [OF 2(2)] in \<open>auto intro: adv_same\<close>)
  qed (use a1 assms in auto)
qed

definition map_post :: "state \<Rightarrow> map_vars \<Rightarrow> key_outcome \<Rightarrow> bool" where
  "map_post st v0 k =
     (case k of Break s \<Rightarrow> ok st s | Return s \<Rightarrow> adv st s
      | Entry s v \<Rightarrow> ok st s \<and> (mv_detected v \<longrightarrow> mv_detected v0 \<or> adv st s))"

lemma reads_trans: "ok a b \<Longrightarrow> reads b r \<Longrightarrow> reads a r"
  by (auto simp: reads_def intro: ok_trans adv_trans)

lemma or_read_wp:
  assumes "wp (f st) (reads st)" "\<And>st'. ok st st' \<Longrightarrow> wp (g st') (reads st')"
  shows "wp (or_read f g st) (reads st)"
proof -
  have "wp (f st) (\<lambda>(b, st'). reads st (b, st'))"
    using assms(1) by (rule wp_mono) auto
  then show ?thesis
    unfolding or_read_def
  proof (rule wp_bind2I, simp only: prod.case, intro wp_if, goal_cases)
    case (2 b st')
    then have "ok st st'"
      by simp
    then show ?case
      using assms(2) [of st'] by (auto intro: wp_mono reads_trans)
  qed simp
qed

lemma no_read_wp: "wf_state st \<Longrightarrow> wp (no_read st) (reads st)"
  by (simp add: no_read_def ok_refl)

lemma read_alias_checked_wp:
  assumes "wf_state st"
  shows "wp (read_alias_checked st) (reads st)"
proof -
  have "wp (readAlias st) (\<lambda>(b, st'). reads st (b, st'))"
    using readAlias_wp [OF assms] by (rule wp_mono) auto
  then show ?thesis
    unfolding read_alias_checked_def by (rule wp_bind2I) simp
qed

lemma read_plain_tagged_wp:
  assumes "wf_state st"
  shows "wp (read_plain_tagged ind w st) (reads st)"
proof -
  have "wp (readPlainScalar st ind w) (\<lambda>(b, st'). reads st (b, st'))"
    using readPlainScalar_wp [OF assms] by (rule wp_mono) auto
  then show ?thesis
    unfolding read_plain_tagged_def
  proof (rule wp_bind2I, simp only: prod.case wp_Inr, goal_cases)
    case (1 b st')
    then show ?case
      by (cases b) simp_all
  qed
qed

lemma read_scalar_wp: "wf_state st \<Longrightarrow> wp (read_scalar bs ind w st) (reads st)"
  unfolding read_scalar_def
  by (cases bs) (auto intro!: or_read_wp no_read_wp readBlockScalar_wp readSingleQuotedScalar_wp
      readDoubleQuotedScalar_wp read_alias_checked_wp read_plain_tagged_wp intro: ok_wf)

lemma read_property_wp: "wf_state st \<Longrightarrow> wp (read_property st) (reads st)"
  using or_read_wp [of readTagProperty st readAnchorProperty] readTagProperty_wp readAnchorProperty_wp ok_wf
  unfolding or_read_def read_property_def by blast

lemma property_loop_wp:
  "wf_state st \<Longrightarrow> wp (property_loop st ind bs nl abc status) (\<lambda>(st', nl', abc', s'). ok st st' \<and> (abc' \<longrightarrow> abc \<or> bs))"
proof (induction st arbitrary: nl abc status rule: scan_induct)
  case (1 st)
  have IH: "wp (property_loop st' ind bs nl' abc' s') (\<lambda>(s, _, c, _). ok st s \<and> (c \<longrightarrow> abc \<or> bs))"
    if "adv st st'" "abc' \<longrightarrow> abc \<or> bs" for st' nl' abc' s'
    using 1(2) [OF that(1)] by (rule wp_mono) (use that in \<open>auto intro: ok_trans adv_ok\<close>)
  have "wp (read_property st) (\<lambda>(b, st'). reads st (b, st'))"
    using read_property_wp [OF 1(1)] by (rule wp_mono) auto
  then have "wp (bind_r (read_property st) (\<lambda>(found, st1).
      if \<not> found then Inr (st1, nl, abc, status)
      else bind_r (skipSeparationSpace st1 True (- 1)) (\<lambda>(breaks, st2).
        if breaks \<noteq> 0 then property_loop st2 ind bs True bs (indent_status (lineIndent st2) ind)
        else property_loop st2 ind bs nl False status))) (\<lambda>(s, _, c, _). ok st s \<and> (c \<longrightarrow> abc \<or> bs))"
  proof (rule wp_bind2I, simp only: prod.case, intro wp_if, goal_cases)
    case (2 b st1)
    then have a: "adv st st1"
      by simp
    show ?case
      by (rule wp_bind2I [OF skipSeparationSpace_wp [OF ok_wf [OF adv_ok [OF a]]]])
        (simp only: prod.case, intro wp_if IH, auto intro: adv_trans(2) [OF a])
  qed simp
  then show ?case
    by (subst property_loop.simps) (use 1(1) in \<open>auto dest: wf_position\<close>)
qed

lemma wp_bind4I:
  "wp m (\<lambda>(x, y, z, w). P x y z w) \<Longrightarrow> (\<And>x y z w. m = Inr (x, y, z, w) \<Longrightarrow> P x y z w \<Longrightarrow> wp (f (x, y, z, w)) Q) \<Longrightarrow>
   wp (bind_r m f) Q"
  by (erule wp_bindI) auto

lemma seek_node_wp: "wf_state st \<Longrightarrow> wp (seek_node st ind sk) (\<lambda>(st', _, _). ok st st')"
  unfolding seek_node_def by (intro wp_if wp_bind2I [OF skipSeparationSpace_wp]) (auto simp: ok_refl)

locale node_reader =
  fixes cn :: node_fun and d :: nat
  assumes node: "wf_state st \<Longrightarrow> need ctx st \<le> d \<Longrightarrow> wp (cn st ind ctx sk cp) (reads st)"
begin

lemma node_ok: "wf_state st \<Longrightarrow> need ctx st \<le> d \<Longrightarrow> wp (cn st ind ctx sk cp) (\<lambda>(b, st'). ok st st')"
  using node [of st ctx ind sk cp] by (rule wp_mono) (auto dest: reads_ok)

lemma flow_value_wp:
  assumes "wf_state st" "2 * room st \<le> d"
  shows "wp (flow_value cn st ind p l) (\<lambda>(st', _, _). ok st st')"
proof (cases "(p \<or> line st = l) \<and> here st = Some 58")
  case True
  then have "here st \<noteq> Some 0"
    by simp
  then show ?thesis
    unfolding flow_value_def if_P [OF True]
  proof (intro wp_bind2I [OF skip_step_wp [OF assms(1)]], simp_all only: prod.case)
    fix n st1
    assume a1: "adv st st1"
    have "need FLOW_IN st1 \<le> d"
      using room_adv [OF a1] assms(2) by (simp add: need_simps)
    then show "wp (bind_r (cn st1 ind FLOW_IN False True) (\<lambda>(_, st2). Inr (st2, True, result st2)))
        (\<lambda>(st', _, _). ok st st')"
      by (intro wp_bind2I [OF node_ok [OF ok_wf [OF adv_ok [OF a1]]]]) (auto intro: ok_trans adv_ok [OF a1])
  qed
qed (simp only: flow_value_def if_False wp_Inr prod.case ok_refl [OF assms(1)])

lemma flow_entry_wp:
  assumes "wf_state st" "2 * room st + 1 \<le> d"
  shows "wp (flow_entry cn st ind m a ov) (\<lambda>(st', _). ok st st')"
  unfolding flow_entry_def
proof (intro wp_bind2I [OF explicit_mark_wp [OF assms(1)]], simp only: prod.case)
  fix p st1
  assume 1: "ok st st1"
  have n: "need FLOW_IN st1 \<le> d"
    using room_ok [OF 1] assms(2) by (simp add: need_simps)
  have v: "wp (flow_value cn st3 ind p (line st1)) (\<lambda>(st', _, _). ok st3 st')" if "ok st st3" for st3
    using room_ok [OF that] assms(2) by (intro flow_value_wp ok_wf [OF that]) simp
  show "wp (bind_r (cn st1 ind FLOW_IN False True) (\<lambda>(_, st2).
      bind_r (skipSeparationSpace st2 True ind) (\<lambda>(_, st3).
      bind_r (flow_value cn st3 ind p (line st1)) (\<lambda>(st4, isPair, valueNode).
      bind_r (flow_store st4 m a isPair ov (s_tag st2) (result st2) valueNode) (\<lambda>(st5, ov1).
      bind_r (skipSeparationSpace st5 True ind) (\<lambda>(_, st6). Inr (st6, ov1))))))) (\<lambda>(st', _). ok st st')"
  proof (intro wp_bind2I [OF node_ok [OF ok_wf [OF 1] n]], simp only: prod.case)
    fix b st2
    assume "ok st1 st2"
    then have 2: "ok st st2"
      by (rule ok_trans [OF 1])
    show "wp (bind_r (skipSeparationSpace st2 True ind) (\<lambda>(_, st3).
      bind_r (flow_value cn st3 ind p (line st1)) (\<lambda>(st4, isPair, valueNode).
      bind_r (flow_store st4 m a isPair ov (s_tag st2) (result st2) valueNode) (\<lambda>(st5, ov1).
      bind_r (skipSeparationSpace st5 True ind) (\<lambda>(_, st6). Inr (st6, ov1)))))) (\<lambda>(st', _). ok st st')"
      by (intro wp_bind2I [OF skipSeparationSpace_wp [OF ok_wf [OF 2]]], simp only: prod.case,
          intro wp_bind3I [OF v], blast intro: ok_trans [OF 2], simp only: prod.case,
          intro wp_bind2I [OF flow_store_wp], blast intro: ok_wf, simp only: prod.case,
          intro wp_bind2I [OF skipSeparationSpace_wp], blast intro: ok_wf, simp)
        (blast intro: ok_trans 2)
  qed
qed

lemma flow_loop_wp:
  "wf_state st \<Longrightarrow> 2 * room st + 1 \<le> d \<Longrightarrow> room st + (if rn then 2 else 1) \<le> fuel \<Longrightarrow> tm \<noteq> 0 \<Longrightarrow>
   wp (flow_loop cn fuel ind tm m a st rn ov) (adv st)"
proof (induction fuel arbitrary: st rn ov)
  case (Suc fuel)
  have IH: "wp (flow_loop cn fuel ind tm m a st' rn' ov') (adv st)"
    if "ok st st'" "room st' + (if rn' then 2 else 1) \<le> fuel" for st' rn' ov'
  proof -
    have "wp (flow_loop cn fuel ind tm m a st' rn' ov') (adv st')"
      using room_ok [OF that(1)] Suc(3) by (intro Suc(1) ok_wf [OF that(1)] that(2) Suc(5)) simp
    then show ?thesis
      by (rule wp_mono) (rule adv_trans(1) [OF that(1)])
  qed
  show ?case
    unfolding flow_loop.simps
  proof (intro wp_if wp_bind2I [OF skipSeparationSpace_wp [OF Suc(2)]], goal_cases)
    case (2 n st1)
    then show ?case
    proof (simp only: prod.case, intro wp_if, goal_cases)
      case 1
      then show ?case
        using Suc(5) ok_adv_step [of st st1] by auto
    next
      case 3
      then have ok1: "ok st st1" and rn: "rn"
        by auto
      have r: "room st1 \<le> room st"
        by (rule room_ok [OF ok1])
      then have "2 * room st1 + 1 \<le> d"
        using Suc(3) by simp
      then show ?case
      proof (intro wp_bind2I [OF flow_entry_wp [OF ok_wf [OF ok1]]], simp_all only: prod.case, intro wp_if, goal_cases)
        case (1 st2 ov2)
        then have "ok st st2"
          by (blast intro: ok_trans [OF ok1])
        then have a: "adv st (st2\<lparr>position := position st2 + 1\<rparr>)"
          using 1 by (intro ok_adv_step) simp_all
        show ?case
          using room_adv [OF a] Suc(4) rn by (intro IH adv_ok [OF a]) simp
      next
        case (2 st2 ov2)
        then have "ok st st2"
          by (blast intro: ok_trans [OF ok1])
        then show ?case
          using room_ok [of st st2] Suc(4) rn by (intro IH) simp_all
      qed
    qed simp
  qed simp
qed (auto split: if_splits)

lemma readFlowCollection_wp:
  assumes "wf_state st" "2 * room st \<le> d"
  shows "wp (readFlowCollection cn st ind) (reads st)"
proof (cases "here st \<noteq> Some 91 \<and> here st \<noteq> Some 123")
  case False
  obtain st1 a where al: "alloc_anchored st (if here st = Some 123 then YMap [] else YArr []) = (st1, a)"
    by fastforce
  have s: "same_scan st st1"
    by (rule alloc_anchored_same [OF al])
  then have h: "here st1 = here st"
    by (simp add: same_scan_def code_at_def)
  have av: "adv st (st1\<lparr>position := position st1 + 1\<rparr>)"
    using ok_adv_step [OF ok_same [OF ok_refl [OF assms(1)] s]] False h by auto
  have "wp (flow_loop cn (flow_fuel st) ind (if here st = Some 123 then 125 else 93) (here st = Some 123) a
      (st1\<lparr>position := position st1 + 1\<rparr>) True []) (adv (st1\<lparr>position := position st1 + 1\<rparr>))"
    using room_adv [OF av] assms
    by (intro flow_loop_wp ok_wf [OF adv_ok [OF av]]) (auto simp: flow_fuel_def room_def wf_state_def)
  then show ?thesis
    unfolding readFlowCollection_def if_not_P [OF False] Let_def al prod.case
    by (rule wp_bindI) (auto intro: adv_trans(2) [OF av adv_ok])
qed (simp add: readFlowCollection_def ok_refl assms)


lemma seq_loop_wp:
  "wf_state st \<Longrightarrow> 2 * room st \<le> d \<Longrightarrow> room st + 1 \<le> fuel \<Longrightarrow>
   wp (seq_loop cn fuel ind a st det) (\<lambda>(b, st'). ok st st' \<and> (b \<longrightarrow> det \<or> adv st st'))"
proof (induction fuel arbitrary: st det)
  case (Suc fuel)
  have IH: "wp (seq_loop cn fuel ind a st' True) (\<lambda>(b, s). ok st s \<and> (b \<longrightarrow> det \<or> adv st s))" if "adv st st'" for st'
    by (rule wp_mono [OF Suc(1)])
      (use room_adv [OF that] Suc(3,4) that in \<open>auto intro: ok_wf adv_ok adv_trans ok_trans\<close>)
  show ?case
  proof (cases "here st \<noteq> Some 45 \<or> \<not> is_WS_OR_EOL (code_at st (position st + 1))")
    case False
    then have h: "here st \<noteq> Some 0"
      by auto
    show ?thesis
      unfolding seq_loop.simps if_not_P [OF False]
    proof (intro wp_bind2I [OF skip_step_wp [OF Suc(2) h]], simp_all only: prod.case, intro wp_if, goal_cases)
      case (1 n st1)
      then show ?case
        by (intro IH) simp
    next
      case (2 n st1)
      then have "need BLOCK_IN st1 \<le> d"
        using room_adv [of st st1] Suc(3) by (simp add: need_simps)
      then show ?case
      proof (intro wp_bind2I [OF node_ok], simp_all only: prod.case, goal_cases)
        case 1
        then show ?case
          using 2 by (auto intro: ok_wf adv_ok)
      next
        case (2 b st2)
        then have a2: "adv st (push st2 a (result st2))"
          using \<open>adv st st1\<close> by (auto intro: adv_trans)
        show ?case
        proof (intro wp_bind2I [OF skipSeparationSpace_wp [OF ok_wf [OF adv_ok [OF a2]]]], simp_all only: prod.case, goal_cases)
          case (1 n st3)
          then have "adv st st3"
            by (blast intro: adv_trans a2)
          then show ?case
            by (intro wp_if IH) (auto intro: adv_ok)
        qed
      qed
    qed
  qed (simp add: ok_refl Suc(2))
qed simp

lemma readBlockSequence_wp:
  assumes "wf_state st" "2 * room st \<le> d"
  shows "wp (readBlockSequence cn st ind) (reads st)"
proof -
  obtain st1 a where al: "alloc_anchored st (YArr []) = (st1, a)"
    by fastforce
  have s: "same_scan st st1"
    by (rule alloc_anchored_same [OF al])
  have ok1: "ok st st1"
    by (rule ok_same [OF ok_refl [OF assms(1)] s])
  have "wp (seq_loop cn (block_fuel st) ind a st1 False) (\<lambda>(b, st'). ok st1 st' \<and> (b \<longrightarrow> False \<or> adv st1 st'))"
    using room_ok [OF ok1] assms by (intro seq_loop_wp ok_wf [OF ok1]) (auto simp: block_fuel_def room_def wf_state_def)
  then show ?thesis
    unfolding readBlockSequence_def al Let_def prod.case
    by (rule wp_bind2I) (auto intro: ok_trans adv_trans ok1)
qed


lemma read_key_wp:
  assumes "wf_state st" "2 * room st + 1 \<le> d"
  shows "wp (read_key cn st fi a t an v) (key_post st)"
proof (cases "(here st = Some 63 \<or> here st = Some 58) \<and> is_WS_OR_EOL (code_at st (position st + 1))")
  case True
  then have h: "here st \<noteq> Some 0"
    by auto
  show ?thesis
    unfolding read_key_def if_P [OF True]
  proof (intro wp_if, goal_cases)
    case 1
    show ?case
    proof (rule wp_bind2I [OF store_explicit_wp [OF assms(1)]], simp only: prod.case wp_Inr key_post_simps, elim conjE)
      fix st1 v1
      assume s: "same_scan st st1"
      then have "here st1 = here st"
        by (simp add: same_scan_def code_at_def)
      then show "adv st (st1\<lparr>position := position st1 + 1\<rparr>)"
        using h by (intro ok_adv_step ok_same [OF ok_refl [OF assms(1)] s]) simp
    qed
  qed (use adv_step [OF assms(1) h] in simp_all)
next
  case False
  have "need FLOW_OUT st \<le> d"
    using assms(2) by (simp add: need_simps)
  note n = node [OF assms(1) this]
  have "wp (cn st fi FLOW_OUT False True) (\<lambda>(b, st'). reads st (b, st'))"
    using n by (rule wp_mono) auto
  then show ?thesis
    unfolding read_key_def if_not_P [OF False]
    by (rule wp_bind2I) (auto intro: implicit_key_wp split: if_splits simp del: reads_simps simp: reads_def)
qed

lemma read_value_wp:
  assumes "wf_state st" "2 * room st + 2 \<le> d"
  shows "wp (read_value cn st ind a l p v) (\<lambda>(st', v'). ok st st')"
proof (cases "line st = l \<or> ind < int (lineIndent st)")
  case True
  have n: "need BLOCK_OUT st \<le> d"
    using assms(2) by (simp add: need_simps)
  have sp: "wp (if b then Inr (s, v1) else store_pair s a v1 x sl sp) (\<lambda>(s', _). ok st s')"
    if "ok st s" for b s v1 x sl sp
    unfolding store_pair_def
    by (intro wp_if wp_bind3I [OF storeMappingPair_ok [OF ok_wf [OF that]]]) (auto intro: that ok_trans [OF that])
  show ?thesis
    unfolding read_value_def if_P [OF True]
    by (intro wp_bind2I [OF node_ok [OF assms(1) n]], simp only: prod.case, intro wp_let wp_bind2I [OF sp], assumption,
        simp only: prod.case, rule wp_bind2I [OF skipSeparationSpace_wp])
      (auto intro: ok_wf ok_trans)
qed (simp add: read_value_def ok_refl assms)

lemma map_loop_wp:
  "wf_state st \<Longrightarrow> 2 * room st + 1 \<le> d \<Longrightarrow> room st + 1 \<le> fuel \<Longrightarrow>
   wp (map_loop cn fuel ind fi a t an st v) (map_post st v)"
proof (induction fuel arbitrary: st v)
  case (Suc fuel)
  have IH: "wp (map_loop cn fuel ind fi a t an st' v') (map_post st v)" if "adv st st'" for st' v'
    by (rule wp_mono [OF Suc(1)])
      (use room_adv [OF that] Suc(3,4) that in
        \<open>auto simp: map_post_def intro: ok_wf adv_ok adv_trans ok_trans split: key_outcome.splits\<close>)
  show ?case
  proof (cases "here st = Some 0")
    case False
    show ?thesis
      unfolding map_loop.simps if_not_P [OF False]
    proof (rule wp_bindI [OF read_key_wp [OF Suc(2,3)]], goal_cases)
      case (1 k)
      show ?case
      proof (cases k)
        case (Entry st1 v1)
        then have a1: "adv st st1"
          using 1 by simp
        have "2 * room st1 + 2 \<le> d"
          using room_adv [OF a1] Suc(3) by simp
        from read_value_wp [OF ok_wf [OF adv_ok [OF a1]] this]
        show ?thesis
          unfolding Entry key_outcome.case
        proof (rule wp_bind2I, simp only: prod.case, goal_cases)
          case (1 st2 v2)
          then have "adv st st2"
            by (blast intro: adv_trans a1)
          then show ?case
            by (intro wp_if IH) (auto simp: map_post_def adv_ok)
        qed
      qed (use 1 in \<open>auto simp: map_post_def\<close>)
    qed
  qed (simp add: map_post_def ok_refl Suc(2))
qed simp

lemma readBlockMapping_wp:
  assumes "wf_state st" "2 * room st + 1 \<le> d"
  shows "wp (readBlockMapping cn st ind fi) (reads st)"
proof -
  obtain st1 a where al: "alloc_anchored st (YMap []) = (st1, a)"
    by fastforce
  have s: "same_scan st st1"
    by (rule alloc_anchored_same [OF al])
  have ok1: "ok st st1"
    by (rule ok_same [OF ok_refl [OF assms(1)] s])
  have "wp (map_loop cn (block_fuel st) ind fi a (s_tag st) (anchor st) st1 no_vars) (map_post st1 no_vars)"
    using room_ok [OF ok1] assms by (intro map_loop_wp ok_wf [OF ok1]) (auto simp: block_fuel_def room_def wf_state_def)
  then show ?thesis
    unfolding readBlockMapping_def al Let_def prod.case
  proof (rule wp_bindI, goal_cases)
    case (1 k)
    show ?case
    proof (cases k)
      case (Entry st2 v)
      then have ok2: "ok st st2" "mv_detected v \<longrightarrow> adv st st2"
        using 1 ok1 by (auto simp: map_post_def no_vars_def intro: ok_trans adv_trans)
      show ?thesis
        unfolding Entry key_outcome.case
        by (rule wp_bind2I [OF store_explicit_wp [OF ok_wf [OF ok2(1)]]])
          (use ok2 in \<open>auto intro: ok_same adv_same\<close>)
    qed (use 1 ok1 in \<open>auto simp: map_post_def intro: ok_trans adv_trans\<close>)
  qed
qed


lemma read_content_wp:
  assumes "wf_state st" "need ctx st \<le> Suc d" "abc \<longrightarrow> is_block ctx"
  shows "wp (read_content cn st ind ctx abc status) (reads st)"
proof -
  have r: "2 * room st \<le> d" "abc \<Longrightarrow> 2 * room st + 1 \<le> d"
    using assms(2,3) by (auto simp: need_def split: if_splits)
  have seq: "wp (readBlockSequence cn st' i) (reads st')" if "ok st st'" for st' i
    using room_ok [OF that] r(1) by (intro readBlockSequence_wp ok_wf [OF that]) simp
  have mp: "wp (readBlockMapping cn st' i fi) (reads st')" if "ok st st'" abc for st' i fi
    using room_ok [OF that(1)] r(2) [OF that(2)] by (intro readBlockMapping_wp ok_wf [OF that(1)]) simp
  have fl: "wp (readFlowCollection cn st' fi) (reads st')" if "ok st st'" for st' fi
    using room_ok [OF that] r(1) by (intro readFlowCollection_wp ok_wf [OF that]) simp
  note ok0 = ok_refl [OF assms(1)]
  have c: "wp (or_read (if abc then or_read (\<lambda>s. readBlockSequence cn s bi) (\<lambda>s. readBlockMapping cn s bi fi)
      else no_read) (\<lambda>s. readFlowCollection cn s fi) st) (\<lambda>(b, st'). reads st (b, st'))" for bi fi
    by (rule wp_mono [OF or_read_wp]) (auto intro!: or_read_wp seq mp fl no_read_wp assms(1) ok0)
  show ?thesis
    unfolding read_content_def Let_def
  proof (intro wp_if, goal_cases)
    case 1
    show ?case
    proof (rule wp_bind2I [OF c], simp only: prod.case, intro wp_if, goal_cases)
      case (2 b st1)
      then have ok1: "ok st st1"
        by (simp add: reads_def)
      have "wp (read_scalar bs fi w st1) (\<lambda>(b, st'). reads st1 (b, st'))" for bs fi w
        using read_scalar_wp [OF ok_wf [OF ok1]] by (rule wp_mono) auto
      then show ?case
        by (rule wp_bind2I) (auto simp: reads_def intro: ok_trans [OF ok1] adv_trans(1) [OF ok1])
    qed simp
  next
    case 2
    show ?case
      by (rule seq [OF ok0])
  qed (simp_all add: ok0)
qed

lemma compose_with_wp:
  assumes "wf_state st" "need ctx st \<le> Suc d"
  shows "wp (compose_with cn st ind ctx sk cp) (reads st)"
proof -
  define st0 where "st0 = st\<lparr>s_tag := None, anchor := None, s_kind := None, result := YNull\<rparr>"
  have wf0: "wf_state st0"
    using assms(1) by (simp add: st0_def)
  have tr: "reads st (tagged s \<or> b, s)" if "ok st0 s" "b \<longrightarrow> adv st0 s" for b s
    using that by (auto simp: reads_def adv_def ok_def st0_def tagged_def)
  have nd: "need ctx s \<le> Suc d" if "ok st0 s" for s
    using room_ok [OF that] assms(2) by (auto simp: need_def room_def st0_def)
  have p: "wp (if c then property_loop s ind (is_block ctx) nl (is_block ctx) z else Inr (s, nl, is_block ctx, z))
      (\<lambda>(s', nl', abc, z'). ok st0 s' \<and> (abc \<longrightarrow> is_block ctx))" if "ok st0 s" for c s nl z
    by (intro wp_if wp_mono [OF property_loop_wp [OF ok_wf [OF that]]]) (auto intro: ok_trans that)
  show ?thesis
    unfolding compose_with_def st0_def [symmetric]
  proof (rule wp_bind3I [OF seek_node_wp [OF wf0]], simp only: prod.case, rule wp_bind4I [OF p], assumption,
      simp only: prod.case, goal_cases)
    case (1 s1 nl1 z1 s2 nl2 abc z2)
    have "wp (if z2 = 1 \<or> ctx = BLOCK_OUT then read_content cn s2 ind ctx (abc \<and> (nl2 \<or> cp)) z2
        else Inr (False, s2)) (\<lambda>(b, s'). ok st0 s' \<and> (b \<longrightarrow> adv st0 s'))"
      by (intro wp_if wp_mono [OF read_content_wp])
        (use 1 nd in \<open>auto simp: reads_def intro: ok_wf ok_trans adv_trans\<close>)
    then show ?case
    proof (rule wp_bind2I, goal_cases)
      case (1 b s3)
      then have 3: "ok st0 s3" "b \<longrightarrow> adv st0 s3"
        by auto
      show ?case
        unfolding prod.case
      proof (rule wp_bindI [OF resolve_tag_wp [OF ok_wf [OF 3(1)]]], goal_cases)
        case (1 s4)
        then have "reads st (tagged s4 \<or> b, s4)"
          using 3 by (intro tr) (auto intro: ok_trans adv_trans)
        then show ?case
          by (simp add: tagged_def)
      qed
    qed
  qed
qed

end

lemma composeNode_wp: "wf_state st \<Longrightarrow> need ctx st \<le> d \<Longrightarrow> wp (composeNode d st ind ctx sk cp) (reads st)"
proof (induction d arbitrary: st ind ctx sk cp)
  case (Suc d)
  have "node_reader (composeNode d) d"
    by unfold_locales (rule Suc(1))
  from node_reader.compose_with_wp [OF this Suc(2,3)] show ?case
    by simp
qed (simp add: need_def split: if_splits)

interpretation composed: node_reader "composeNode d" d for d
  by unfold_locales (rule composeNode_wp)


section \<open>Documents\<close>

lemma args_loop_wp:
  "wf_state st \<Longrightarrow> wp (args_loop st args) (\<lambda>(st', _). ok st st' \<and> lineIndent st' = lineIndent st)"
proof (induction st arbitrary: args rule: scan_induct)
  case (1 st)
  note IH = 1(2)
  let ?st1 = "st\<lparr>position := advance (\<lambda>c. c = 9 \<or> c = 32) (input st) (position st)\<rparr>"
  have ok1: "ok st ?st1"
    by (rule advance_ok [OF 1(1)]) simp
  show ?case
  proof (subst args_loop.simps, unfold Let_def, intro wp_if, goal_cases)
    case 2
    then have "wp (bind_r (seek (\<lambda>c. c = 10 \<or> c = 13 \<or> c = 0) (input ?st1) (position ?st1 + 1))
        (\<lambda>p. Inr (?st1\<lparr>position := p\<rparr>))) (ok st)"
      by (intro comment_wp [OF ok1])
    then show ?case
      by (simp add: wp_bind)
  next
    case 4
    have "wp (seek word_end (input ?st1) (position ?st1))
        (\<lambda>j. position ?st1 \<le> j \<and> j \<le> len st \<and> word_end (input ?st1 ! j))"
      by (rule seek_wp) (use ok_wf [OF ok1] in \<open>auto simp: wf_state_def word_end_def\<close>)
    then show ?case
    proof (rule wp_bindI, goal_cases)
      case (1 p)
      then have "ok ?st1 (?st1\<lparr>position := p\<rparr>)"
        by (intro ok_move ok_wf [OF ok1]) simp_all
      then have "ok st (?st1\<lparr>position := p\<rparr>)"
        by (rule ok_trans [OF ok1])
      moreover have "position st < p"
        using args_progress [OF 4(1) refl, of p] 4(3) 1 by simp
      ultimately have "adv st (?st1\<lparr>position := p\<rparr>)"
        by (simp add: adv_def)
      from IH [OF this] show ?case
        by (rule wp_mono) (use \<open>ok st (?st1\<lparr>position := p\<rparr>)\<close> in \<open>auto intro: ok_trans\<close>)
    qed
  qed (use 1(1) ok1 in \<open>auto simp: ok_refl\<close>)
qed

lemma handle_directive_wp: "wp (handle_directive st n args) (same_scan st)"
  by (auto simp: handle_directive_def handleYamlDirective_def handleTagDirective_def throwWarning_def
      same_scan_def Let_def split: list.split option.split)

lemma directive_break_wp:
  assumes "wf_state st" "lineIndent st = 0"
  shows "wp (directive_break st) (ok st)"
proof (cases "here st \<noteq> Some 0")
  case True
  have "ok st st'" if "broke st st'" for st'
    using assms that by (auto simp: broke_def ok_def wf_state_def types_end_def)
  then show ?thesis
    unfolding directive_break_def if_P [OF True] by (intro wp_mono [OF readLineBreak_wp [OF assms(1)]])
qed (simp add: directive_break_def ok_refl assms)

lemma read_directive_wp:
  assumes "wf_state st" "here st \<noteq> Some 0" "lineIndent st = 0"
  shows "wp (read_directive st) (adv st)"
proof -
  have "position st < len st"
    using code_at_nonzero [of st "position st"] assms by (auto simp: wf_state_def)
  then have "wp (seek word_end (input st) (position st + 1))
      (\<lambda>j. position st + 1 \<le> j \<and> j \<le> len st \<and> word_end (input st ! j))"
    using assms(1) by (intro seek_wp) (auto simp: wf_state_def word_end_def)
  then show ?thesis
    unfolding read_directive_def Let_def
  proof (rule wp_bindI, intro wp_if, goal_cases)
    case (2 p)
    then have a: "adv st (st\<lparr>position := p\<rparr>)"
      using assms(1) by (auto simp: adv_def intro!: ok_move)
    have t: "adv st s" if "ok (st\<lparr>position := p\<rparr>) x" "ok x y" "same_scan y s" for x y s
      using adv_same [OF adv_trans(2) [OF adv_trans(2) [OF a that(1)] that(2)] that(3)] .
    show ?case
      by (intro wp_bind2I [OF args_loop_wp [OF ok_wf [OF adv_ok [OF a]]]], simp only: prod.case,
          intro wp_bindI [OF directive_break_wp] wp_mono [OF handle_directive_wp])
        (use assms(3) in \<open>auto intro: ok_wf t\<close>)
  qed simp
qed

lemma directive_loop_wp: "wf_state st \<Longrightarrow> wp (directive_loop st h) (\<lambda>(st', _). ok st st')"
proof (induction st arbitrary: h rule: scan_induct)
  case (1 st)
  have IH: "wp (directive_loop st' True) (\<lambda>(s, _). ok st s)" if "adv st st'" for st'
    using 1(2) [OF that] by (rule wp_mono) (use that in \<open>auto intro: ok_trans adv_ok\<close>)
  show ?case
  proof (subst directive_loop.simps, intro wp_if wp_bind2I [OF skipSeparationSpace_wp [OF 1(1)]], goal_cases)
    case (2 n st1)
    then have "ok st st1"
      by simp
    then show ?case
      unfolding prod.case
      by (intro wp_if wp_bindI [OF read_directive_wp] IH) (auto intro: ok_wf adv_trans)
  qed (simp add: ok_refl 1(1))
qed

lemma three_ahead:
  assumes "wf_state st" "code_at st (position st) \<noteq> Some 0" "code_at st (position st + 1) \<noteq> Some 0"
    "code_at st (position st + 2) \<noteq> Some 0"
  shows "adv st (st\<lparr>position := position st + 3\<rparr>)"
proof -
  have "position st < len st"
    using code_at_nonzero [of st "position st"] assms(1,2) by (auto simp: wf_state_def)
  then have "position st + 1 < len st"
    using code_at_nonzero [of st "position st + 1"] assms(1,3) by auto
  then have "position st + 2 < len st"
    using code_at_nonzero [of st "position st + 2"] assms(1,4) by auto
  then show ?thesis
    using assms(1) by (auto simp: adv_def intro!: ok_move)
qed

lemma skip_wp: "ok a st \<Longrightarrow> wp (bind_r (skipSeparationSpace st c i) (\<lambda>(_, st1). Inr st1)) (ok a)"
  by (rule wp_bind2I [OF skipSeparationSpace_wp]) (auto intro: ok_wf ok_trans)

lemma skip_adv_wp: "adv a st \<Longrightarrow> wp (bind_r (skipSeparationSpace st c i) (\<lambda>(_, st1). Inr st1)) (adv a)"
  by (rule wp_bind2I [OF skipSeparationSpace_wp]) (auto intro: ok_wf adv_ok adv_trans)

lemma document_start_wp:
  assumes "wf_state st"
  shows "wp (document_start st h) (\<lambda>st'. ok st st' \<and>
    (lineIndent st = 0 \<and> here st = Some 45 \<and> testDocumentSeparator st \<longrightarrow> adv st st'))"
  unfolding document_start_def
proof (intro wp_if, goal_cases)
  case 1
  then have "adv st (st\<lparr>position := position st + 3\<rparr>)"
    by (intro three_ahead assms) auto
  then show ?case
    by (intro wp_mono [OF skip_adv_wp]) (auto intro: adv_ok)
next
  case 3
  then show ?case
    by (auto simp: ok_refl assms testDocumentSeparator_def Let_def)
qed simp

lemma separator_codes:
  "testDocumentSeparator st \<Longrightarrow> here st = Some c \<Longrightarrow>
   code_at st (position st + 1) = Some c \<and> code_at st (position st + 2) = Some c"
  unfolding testDocumentSeparator_def Let_def by metis

lemma document_end_wp:
  assumes "wf_state st"
  shows "wp (document_end st) (\<lambda>st'. ok st st' \<and> (adv st st' \<or> len st \<le> position st' + 1 \<or>
    st' = st \<and> here st = Some 45 \<and> position st = lineStart st \<and> testDocumentSeparator st))"
  unfolding document_end_def
proof (intro wp_if, goal_cases)
  case 1
  then have "here st = Some 46" "code_at st (position st + 1) = Some 46" "code_at st (position st + 2) = Some 46"
    using separator_codes [of st 46] by blast+
  then have "adv st (st\<lparr>position := position st + 3\<rparr>)"
    by (intro three_ahead assms) simp_all
  then show ?case
    by (intro wp_mono [OF skip_adv_wp]) (auto intro: adv_ok)
next
  case 2
  then show ?case
    by (auto simp: ok_refl assms testDocumentSeparator_def Let_def)
qed (use assms in \<open>auto simp: ok_refl\<close>)


lemma unmoved_separator:
  assumes "ok st st2" and start: "lineIndent st2 = 0 \<and> here st2 = Some 45 \<and> testDocumentSeparator st2 \<longrightarrow> adv st2 st3"
    and "ok st2 st3" "ok st3 st6" "here st6 = Some 45" "position st6 = lineStart st6" "testDocumentSeparator st6"
  shows "adv st st6"
proof (cases "position st6 = position st2")
  case True
  have eq: "input st6 = input st2" "lineStart st6 = lineStart st2" "lineIndent st6 = lineIndent st2"
    using True ok_trans [OF assms(3,4)] by (simp_all add: ok_def)
  have "lineIndent st6 = 0"
    using ok_wf [OF assms(4)] assms(6) by (simp add: wf_state_def)
  moreover have "here st2 = here st6" "testDocumentSeparator st2 = testDocumentSeparator st6"
    using True eq by (simp_all add: code_at_def testDocumentSeparator_def Let_def)
  ultimately have "adv st2 st3"
    using start eq assms(5,7) by simp
  then show ?thesis
    using assms(1,4) by (blast intro: adv_trans)
next
  case False
  then have "adv st2 st6"
    using ok_trans [OF assms(3,4)] by (auto simp: adv_def ok_def)
  then show ?thesis
    using assms(1) by (blast intro: adv_trans)
qed

lemma readDocument_wp:
  assumes "wf_state st" "need BLOCK_OUT st \<le> depth"
  shows "wp (readDocument depth st) (\<lambda>st'. ok st st' \<and> (adv st st' \<or> len st \<le> position st' + 1))"
proof -
  let ?st = "st\<lparr>version := None, checkLineBreaks := legacy st, tagMap := [], anchorMap := []\<rparr>"
  have tr: "ok st s" if "ok ?st s" for s
    using that by (simp add: ok_def tagged_def)
  have wf0: "wf_state ?st"
    using assms(1) by simp
  show ?thesis
    unfolding readDocument_def
  proof (rule wp_bind2I [OF directive_loop_wp [OF wf0]], unfold prod.case, goal_cases)
    case (1 st1 h)
    then have ok1: "ok st st1"
      by (intro tr)
    show ?case
    proof (rule wp_bind2I [OF skipSeparationSpace_wp [OF ok_wf [OF ok1]]], unfold prod.case, goal_cases)
      case (1 n st2)
      then have ok2: "ok st st2"
        by (blast intro: ok_trans ok1)
      show ?case
      proof (rule wp_bindI [OF document_start_wp [OF ok_wf [OF ok2]]], elim conjE, goal_cases)
        case (1 st3)
        note ok3 = ok_trans [OF ok2 1(2)] and start = 1(3)
        have "need BLOCK_OUT st3 \<le> depth"
          using room_ok [OF ok3] assms(2) by (simp add: need_simps)
        from composed.node_ok [OF ok_wf [OF ok3] this] show ?case
        proof (rule wp_bind2I, unfold prod.case, goal_cases)
          case (1 b st4)
          note ok4 = ok_trans [OF ok3 1(2)]
          show ?case
          proof (rule wp_bind2I [OF skipSeparationSpace_wp [OF ok_wf [OF ok4]]], unfold prod.case Let_def, goal_cases)
            case (1 m st5)
            define st6 where "st6 = (if checkLineBreaks st5 \<and> non_ascii_line_break (segment st5 (position st) (position st5))
              then throwWarning st5 (jstr ''non-ASCII line breaks are interpreted as content'') else st5)
              \<lparr>documents := documents (if checkLineBreaks st5 \<and> non_ascii_line_break (segment st5 (position st) (position st5))
              then throwWarning st5 (jstr ''non-ASCII line breaks are interpreted as content'') else st5) @
              [result (if checkLineBreaks st5 \<and> non_ascii_line_break (segment st5 (position st) (position st5))
              then throwWarning st5 (jstr ''non-ASCII line breaks are interpreted as content'') else st5)]\<rparr>"
            have ok36: "ok st3 st6" and ok6: "ok st st6"
              using 1(2) \<open>ok st3 st4\<close> ok4 by (auto simp: st6_def intro: ok_trans)
            have "adv st st6" if "here st6 = Some 45" "position st6 = lineStart st6" "testDocumentSeparator st6"
              by (rule unmoved_separator [OF ok2 start \<open>ok st2 st3\<close> ok36 that])
            then show ?case
              unfolding st6_def [symmetric]
              by (intro wp_mono [OF document_end_wp [OF ok_wf [OF ok6]]])
                (use ok6 in \<open>auto intro: ok_trans adv_trans simp: ok_def\<close>)
          qed
        qed
      qed
    qed
  qed
qed


lemma document_loop_wp:
  "wf_state st \<Longrightarrow> need BLOCK_OUT st \<le> depth \<Longrightarrow> room st + 1 \<le> fuel \<Longrightarrow> wp (document_loop fuel depth st) (ok st)"
proof (induction fuel arbitrary: st)
  case (Suc fuel)
  show ?case
  proof (cases "int (position st) < int (len st) - 1")
    case True
    show ?thesis
      unfolding document_loop.simps if_P [OF True]
    proof (rule wp_bindI [OF readDocument_wp [OF Suc(2,3)]], goal_cases)
      case (1 st1)
      then have a: "adv st st1"
        using True by (auto simp: adv_def)
      have "wp (document_loop fuel depth st1) (ok st1)"
        using room_adv [OF a] Suc(3,4) by (intro Suc(1) ok_wf [OF adv_ok [OF a]]) (simp_all add: need_simps)
      then show ?case
        by (rule wp_mono) (rule ok_trans [OF adv_ok [OF a]])
    qed
  qed (simp add: ok_refl Suc(2))
qed simp

section \<open>Loading\<close>

definition schema_ends :: "schema \<Rightarrow> bool" where
  "schema_ends s \<longleftrightarrow> list_all constructs (flat implicit s @ flat explicit s)"

definition schema_of :: "env \<Rightarrow> options \<Rightarrow> schema" where
  "schema_of ev opts = (case o_schema opts of Some x \<Rightarrow> x | None \<Rightarrow> DEFAULT_FULL_SCHEMA (e_js ev))"

lemma compiled_types:
  "set (compiledImplicit s) \<subseteq> set (flat implicit s)" "set (compiledExplicit s) \<subseteq> set (flat explicit s)"
  by (auto simp: compiledImplicit_def compiledExplicit_def compileList_foldl add_type_keep_last dest: keep_last_subset)

lemma compiledTypeMap_from:
  assumes "map_of (kind_map (compiledTypeMap s) k) g = Some t"
  shows "t \<in> set (flat implicit s) \<union> set (flat explicit s)"
proof -
  have e: "map_of (kind_map \<lparr>tm_scalar = [], tm_sequence = [], tm_mapping = [], tm_fallback = []\<rparr> k) g = None"
    by (simp add: kind_map_def split: option.split ykind.split)
  define ts where "ts = compiledImplicit s @ compiledExplicit s"
  have "compiledTypeMap s = foldl collectType \<lparr>tm_scalar = [], tm_sequence = [], tm_mapping = [], tm_fallback = []\<rparr> ts"
    by (simp add: compiledTypeMap_def compileMap_def ts_def)
  with assms obtain P where "find P (rev ts) = Some t"
    by (auto simp: collect_foldl_lookup e split: option.splits)
  then have "t \<in> set (rev ts)"
    by (metis find_Some_iff nth_mem)
  then have "t \<in> set (compiledImplicit s) \<union> set (compiledExplicit s)"
    by (auto simp: ts_def)
  then show ?thesis
    using compiled_types by auto
qed

lemma State_types_end:
  assumes "schema_ends (schema_of ev opts)"
  shows "types_end (State ev s opts)"
  using assms compiled_types(1) [of "schema_of ev opts"] compiledTypeMap_from [of "schema_of ev opts"]
  by (auto simp: types_end_def State_def Let_def schema_of_def schema_ends_def list_all_iff)

lemma normalize_input_last:
  "normalize_input s \<noteq> [] \<Longrightarrow> last (normalize_input s) = 10 \<or> last (normalize_input s) = 13"
  by (cases s rule: rev_cases) (auto simp: normalize_input_def Let_def last_tl hd_append split: if_splits list.splits)

lemma initial_wf:
  assumes "types_end (State ev t opts)" "t \<noteq> [] \<Longrightarrow> last t = 10 \<or> last t = 13"
    and "p = advance (\<lambda>c. c = 32) (t @ [0]) 0"
  shows "wf_state ((State ev t opts)\<lparr>input := t @ [0], position := p, lineIndent := p\<rparr>)" (is "wf_state ?st")
proof -
  have "wf_state ((State ev t opts)\<lparr>input := t @ [0]\<rparr>)"
    using assms(1,2) by (auto simp: wf_state_def State_def Let_def nth_append last_conv_nth types_end_def)
  from advance_len [OF this, of 0 "\<lambda>c. c = 32"] this show ?thesis
    by (auto simp: assms(3) wf_state_def State_def Let_def types_end_def)
qed

lemma loadDocuments_wp:
  assumes "schema_ends (schema_of ev opts)"
  shows "wp (loadDocuments ev s opts) wf_state"
proof -
  define t where "t = normalize_input s"
  define p where "p = advance (\<lambda>c. c = 32) (t @ [0]) 0"
  define st where "st = (State ev t opts)\<lparr>input := t @ [0], position := p, lineIndent := p\<rparr>"
  have wf: "wf_state st"
    unfolding st_def using State_types_end [OF assms] normalize_input_last [of s]
    by (intro initial_wf) (auto simp: p_def t_def)
  have "wp (document_loop (length (input st) + 1) (node_depth st) st) (ok st)"
    using wf by (intro document_loop_wp) (auto simp: need_simps room_def node_depth_def wf_state_def)
  then have "wp (document_loop (length (input st) + 1) (node_depth st) st) wf_state"
    by (rule wp_mono) (rule ok_wf)
  moreover have "loadDocuments ev s opts = document_loop (length (input st) + 1) (node_depth st) st"
    by (simp add: loadDocuments_def Let_def st_def p_def t_def State_def)
  ultimately show ?thesis
    by simp
qed

lemma load_wp: "schema_ends (schema_of ev opts) \<Longrightarrow> wp (load ev s opts) (\<lambda>_. True)"
  unfolding load_def by (rule wp_bindI [OF loadDocuments_wp]) (auto simp: wp_def split: list.split)


text \<open>The constructors of the library's types end, whatever the compilers return.\<close>

lemma pairs_loop_ends: "pairs_loop ps st r \<noteq> Inl Diverges"
  by (induction ps st r rule: pairs_loop.induct) (simp_all add: Let_def split: prod.split list.split)

lemma constructors_end:
  "constructYamlTimestamp h v \<noteq> Inl Diverges" "constructYamlOmap h v \<noteq> Inl Diverges"
  "constructYamlPairs h v \<noteq> Inl Diverges" "constructYamlSet h v \<noteq> Inl Diverges"
  "constructJavascriptRegExp js h v \<noteq> Inl Diverges" "constructJavascriptFunction js h v \<noteq> Inl Diverges"
proof -
  show "constructYamlTimestamp h v \<noteq> Inl Diverges"
    by (simp add: constructYamlTimestamp_def Let_def split: yval.split option.split)
  show "constructYamlPairs h v \<noteq> Inl Diverges"
    using pairs_loop_ends [of "elements_of h v" h "[]"]
    by (cases "pairs_loop (elements_of h v) h []") (auto simp: constructYamlPairs_def split: prod.split)
  show "constructJavascriptRegExp js h v \<noteq> Inl Diverges"
    by (simp add: constructJavascriptRegExp_def Let_def split: yval.split option.split)
  show "constructJavascriptFunction js h v \<noteq> Inl Diverges"
    by (simp add: constructJavascriptFunction_def Let_def split: yval.split option.split prod.split)
qed (simp_all add: constructYamlOmap_def constructYamlSet_def)

lemmas library_type_defs =
  yaml_str_def yaml_seq_def yaml_map_def yaml_null_def yaml_bool_def yaml_int_def yaml_float_def yaml_timestamp_def
  yaml_merge_def yaml_binary_def yaml_omap_def yaml_pairs_def yaml_set_def yaml_js_undefined_def
  yaml_js_regexp_def yaml_js_function_def

lemma library_constructs:
  "constructs yaml_str" "constructs yaml_seq" "constructs yaml_map" "constructs yaml_null" "constructs yaml_bool"
  "constructs yaml_int" "constructs yaml_float" "constructs yaml_timestamp" "constructs yaml_merge"
  "constructs yaml_binary" "constructs yaml_omap" "constructs yaml_pairs" "constructs yaml_set"
  "constructs yaml_js_undefined" "constructs (yaml_js_regexp js)" "constructs (yaml_js_function js)"
  by (simp_all add: constructs_def Type_def library_type_defs of_scalar_def constructors_end split: yval.split)

lemma library_schemas_end: "schema_ends DEFAULT_SAFE_SCHEMA" "schema_ends (DEFAULT_FULL_SCHEMA js)"
  by (simp_all add: schema_ends_def DEFAULT_FULL_SCHEMA_def DEFAULT_SAFE_SCHEMA_def CORE_SCHEMA_def
      JSON_SCHEMA_def FAILSAFE_SCHEMA_def flat.simps library_constructs)


section \<open>The nesting bound\<close>

text \<open>\<open>le r r'\<close>: the second result is the first, unless the first ran out of its bound.\<close>

definition le :: "'a yres \<Rightarrow> 'a yres \<Rightarrow> bool" where
  "le r r' \<longleftrightarrow> r = Inl Diverges \<or> r' = r"

lemma le_refl: "le r r"
  by (simp add: le_def)

lemma le_Diverges: "le (Inl Diverges) r"
  by (simp add: le_def)

lemma le_bind: "le m m' \<Longrightarrow> (\<And>x. le (f x) (f' x)) \<Longrightarrow> le (bind_r m f) (bind_r m' f')"
  by (cases m) (auto simp: le_def)

lemma le_if: "(c \<Longrightarrow> le a a') \<Longrightarrow> (\<not> c \<Longrightarrow> le b b') \<Longrightarrow> le (if c then a else b) (if c then a' else b')"
  by simp

lemma le_prod: "(\<And>a b. le (f a b) (f' a b)) \<Longrightarrow> le (case p of (a, b) \<Rightarrow> f a b) (case p of (a, b) \<Rightarrow> f' a b)"
  by (cases p) simp

lemma le_let: "(\<And>x. le (f x) (f' x)) \<Longrightarrow> le (let x = t in f x) (let x = t in f' x)"
  by simp

lemma le_key:
  "(\<And>s. le (f s) (f' s)) \<Longrightarrow> (\<And>s. le (g s) (g' s)) \<Longrightarrow> (\<And>s v. le (h s v) (h' s v)) \<Longrightarrow>
   le (case k of Break s \<Rightarrow> f s | Return s \<Rightarrow> g s | Entry s v \<Rightarrow> h s v)
      (case k of Break s \<Rightarrow> f' s | Return s \<Rightarrow> g' s | Entry s v \<Rightarrow> h' s v)"
  by (cases k) simp_all

lemma le_if_at:
  "(c \<Longrightarrow> le (f s) (f' s)) \<Longrightarrow> (\<not> c \<Longrightarrow> le (g s) (g' s)) \<Longrightarrow> le ((if c then f else g) s) ((if c then f' else g') s)"
  by simp

lemmas le_intros = le_bind le_if le_prod le_let le_key le_refl

definition le_node :: "node_fun \<Rightarrow> node_fun \<Rightarrow> bool" where
  "le_node c c' \<longleftrightarrow> (\<forall>st i ctx sk cp. le (c st i ctx sk cp) (c' st i ctx sk cp))"

lemma le_nodeD: "le_node c c' \<Longrightarrow> le (c st i ctx sk cp) (c' st i ctx sk cp)"
  by (simp add: le_node_def)

lemma flow_entry_le:
  assumes "le_node c c'"
  shows "le (flow_entry c st i m a ov) (flow_entry c' st i m a ov)"
  unfolding flow_entry_def flow_value_def by (intro le_intros le_nodeD [OF assms])

lemma flow_loop_le:
  assumes "le_node c c'"
  shows "le (flow_loop c n i t m a st rn ov) (flow_loop c' n i t m a st rn ov)"
proof (induction n arbitrary: st rn ov)
  case (Suc n)
  show ?case
    unfolding flow_loop.simps by (intro le_intros flow_entry_le [OF assms] Suc)
qed (simp add: le_refl)

lemma seq_loop_le:
  assumes "le_node c c'"
  shows "le (seq_loop c n i a st det) (seq_loop c' n i a st det)"
proof (induction n arbitrary: st det)
  case (Suc n)
  show ?case
    unfolding seq_loop.simps by (intro le_intros le_nodeD [OF assms] Suc)
qed (simp add: le_refl)

lemma map_loop_le:
  assumes "le_node c c'"
  shows "le (map_loop c n i fi a t an st v) (map_loop c' n i fi a t an st v)"
proof (induction n arbitrary: st v)
  case (Suc n)
  show ?case
    unfolding map_loop.simps read_key_def read_value_def by (intro le_intros le_nodeD [OF assms] Suc)
qed (simp add: le_refl)

lemma collections_le:
  assumes "le_node c c'"
  shows "le (readFlowCollection c st i) (readFlowCollection c' st i)"
    "le (readBlockSequence c st i) (readBlockSequence c' st i)"
    "le (readBlockMapping c st i fi) (readBlockMapping c' st i fi)"
  unfolding readFlowCollection_def readBlockSequence_def readBlockMapping_def
  by (intro le_intros flow_loop_le [OF assms] seq_loop_le [OF assms] map_loop_le [OF assms])+

lemma or_read_le: "(\<And>s. le (f s) (f' s)) \<Longrightarrow> (\<And>s. le (g s) (g' s)) \<Longrightarrow> le (or_read f g st) (or_read f' g' st)"
  unfolding or_read_def by (intro le_intros)

lemma compose_with_le:
  assumes "le_node c c'"
  shows "le_node (compose_with c) (compose_with c')"
  unfolding le_node_def [of "compose_with c"] compose_with_def read_content_def
  by (intro allI le_intros or_read_le le_if_at collections_le [OF assms])

lemma composeNode_le: "le_node (composeNode d) (composeNode (Suc d))"
proof (induction d)
  case (Suc d)
  have "composeNode (Suc n) = compose_with (composeNode n)" for n
    by (intro ext) simp
  then show ?case
    using compose_with_le [OF Suc] by metis
qed (simp add: le_node_def le_Diverges)

lemma composeNode_stable:
  assumes "composeNode d st i ctx sk cp \<noteq> Inl Diverges" "d \<le> d'"
  shows "composeNode d' st i ctx sk cp = composeNode d st i ctx sk cp"
  using assms(2)
proof (induction d' rule: dec_induct)
  case (step n)
  then show ?case
    using le_nodeD [OF composeNode_le, of n st i ctx sk cp] assms(1) by (simp add: le_def del: composeNode.simps)
qed simp

section \<open>What the loader guarantees\<close>

text \<open>An environment and a state to apply the theorems to.\<close>

definition sample_env :: env where
  "sample_env = \<lparr>e_host = \<lparr>date_text = (\<lambda>_. []), buf_text = (\<lambda>_. [])\<rparr>,
     e_js = \<lparr>parse = (\<lambda>_. None), new_RegExp = (\<lambda>_ _. None), new_Function = (\<lambda>_ _. None)\<rparr>\<rparr>"

definition sample_state :: state where
  "sample_state = (State sample_env (jstr ''[a]'' @ [10]) no_options)\<lparr>input := (jstr ''[a]'' @ [10]) @ [0],
     position := 0, lineIndent := 0\<rparr>"

lemma sample_wf: "wf_state sample_state"
  unfolding sample_state_def
proof (rule initial_wf)
  show "types_end (State sample_env (jstr ''[a]'' @ [10]) no_options)"
    by (rule State_types_end) (simp add: schema_of_def no_options_def library_schemas_end)
  show "0 = advance (\<lambda>c. c = 32) ((jstr ''[a]'' @ [10]) @ [0]) 0"
    by (simp add: advance_def)
qed simp

lemma sample_room: "room sample_state = 4"
  by (simp add: room_def sample_state_def State_def Let_def)

text \<open>
  C3: loading ends on every text, with a document or an exception, whatever the options: none of
  the loader's loops runs for ever and none of the recursion bounds of the model is used up, if
  the constructors of the schema's types end (as those of the library's schemas do).
\<close>

theorem load_terminates:
  assumes "schema_ends (schema_of ev opts)"
  shows "load ev s opts \<noteq> Inl Diverges"
  using load_wp [OF assms] by (simp add: wp_def)

theorem load_terminates_witness:
  "load sample_env (jstr ''a: [b, {c: *d}'') (safe_options no_options) \<noteq> Inl Diverges"
proof (rule load_terminates)
  show "schema_ends (schema_of sample_env (safe_options no_options))"
    by (simp add: schema_of_def safe_options_def no_options_def library_schemas_end)
qed

text \<open>
  C22: reading a node never leaves the input: with a depth that covers the rest of the input it
  ends, keeps the invariant of the scanner (the position is in the input, behind the start of the
  current line and its indentation), never goes back, and moves forward when it reports a node.
\<close>

theorem composeNode_safe:
  assumes "wf_state st" "need ctx st \<le> d"
  shows "case composeNode d st ind ctx sk cp of
           Inl e \<Rightarrow> e \<noteq> Diverges
         | Inr (found, st') \<Rightarrow> wf_state st' \<and> input st' = input st \<and> position st \<le> position st' \<and>
             (found \<longrightarrow> position st < position st')"
  using composeNode_wp [OF assms, of ind sk cp]
  by (cases "composeNode d st ind ctx sk cp") (auto simp: wp_def reads_def adv_def ok_def)

theorem composeNode_safe_witness:
  "case composeNode 10 sample_state (- 1) BLOCK_OUT False True of
     Inl e \<Rightarrow> e \<noteq> Diverges
   | Inr (found, st') \<Rightarrow> wf_state st' \<and> input st' = input sample_state \<and> position sample_state \<le> position st' \<and>
       (found \<longrightarrow> position sample_state < position st')"
  by (rule composeNode_safe [OF sample_wf]) (simp add: need_simps sample_room)

text \<open>
  C23: every document that is read moves the loader forward: from a position before the last
  character, \<open>readDocument\<close> throws or ends at a later position, so that the loop over the
  documents of a stream ends.
\<close>

theorem readDocument_progress:
  assumes "wf_state st" "need BLOCK_OUT st \<le> depth" "position st + 1 < len st"
  shows "case readDocument depth st of Inl e \<Rightarrow> e \<noteq> Diverges | Inr st' \<Rightarrow> position st < position st' \<and> wf_state st'"
  using readDocument_wp [OF assms(1,2)] assms(3)
  by (cases "readDocument depth st") (auto simp: wp_def adv_def ok_def)

theorem readDocument_progress_witness:
  "case readDocument 10 sample_state of
     Inl e \<Rightarrow> e \<noteq> Diverges | Inr st' \<Rightarrow> position sample_state < position st' \<and> wf_state st'"
  by (rule readDocument_progress [OF sample_wf])
    (simp_all add: need_simps sample_room, simp add: sample_state_def State_def Let_def)



end
