(* ===== verification/Yaml_Print.thy ===== *)
theory Yaml_Print
  imports Yaml_Schema
begin

text \<open>
  The scalars of the YAML dumper: the choice between the five styles, and the text of a string in
  each of them (plain, single quoted, literal, folded, double quoted).  Character codes are
  \<open>jnum\<close> values, where reading past the end of a string is not a number.
\<close>

section \<open>Escapes\<close>

definition ESCAPE_SEQUENCES :: "int \<Rightarrow> jsstring option" where
  "ESCAPE_SEQUENCES c =
     map_of [(0, [92, 48]), (7, [92, 97]), (8, [92, 98]), (9, [92, 116]), (10, [92, 110]), (11, [92, 118]),
             (12, [92, 102]), (13, [92, 114]), (27, [92, 101]), (34, [92, 34]), (92, [92, 92]), (133, [92, 78]),
             (160, [92, 95]), (8232, [92, 76]), (8233, [92, 80])] c"

definition DEPRECATED_BOOLEANS_SYNTAX :: "jsstring list" where
  "DEPRECATED_BOOLEANS_SYNTAX =
     map jstr [''y'', ''Y'', ''yes'', ''Yes'', ''YES'', ''on'', ''On'', ''ON'', ''n'', ''N'', ''no'', ''No'',
               ''NO'', ''off'', ''Off'', ''OFF'']"

definition hex_escape :: "code_unit \<Rightarrow> nat \<Rightarrow> jsstring \<Rightarrow> jsstring" where
  "hex_escape handle len string = [92, handle] @ repeat [48] (int len - int (length string)) @ string"

definition encodeHex :: "int \<Rightarrow> jsstring yres" where
  "encodeHex character =
     (let string = toUpperCase (int_text 16 character) in
      if character \<le> 255 then Inr (hex_escape 120 2 string)
      else if character \<le> 65535 then Inr (hex_escape 117 4 string)
      else if character \<le> 4294967295 then Inr (hex_escape 85 8 string)
      else Inl (YAMLException (jstr ''code point within a string may not be greater than 0xFFFFFFFF'') None))"

definition isWhitespace :: "jnum \<Rightarrow> bool" where
  "isWhitespace c \<longleftrightarrow> c = Some 32 \<or> c = Some 9"

definition isPrintable :: "jnum \<Rightarrow> bool" where
  "isPrintable n =
     (case n of None \<Rightarrow> False
      | Some c \<Rightarrow> 32 \<le> c \<and> c \<le> 126 \<or> 161 \<le> c \<and> c \<le> 55295 \<and> c \<noteq> 8232 \<and> c \<noteq> 8233 \<or>
                  57344 \<le> c \<and> c \<le> 65533 \<and> c \<noteq> 65279 \<or> 65536 \<le> c \<and> c \<le> 1114111)"

definition isPlainSafe :: "jnum \<Rightarrow> bool" where
  "isPlainSafe c \<longleftrightarrow> isPrintable c \<and> c \<notin> Some ` {65279, 44, 91, 93, 123, 125, 58, 35}"

definition isPlainSafeFirst :: "jnum \<Rightarrow> bool" where
  "isPlainSafeFirst c \<longleftrightarrow>
     isPrintable c \<and> \<not> isWhitespace c \<and>
     c \<notin> Some ` {65279, 45, 63, 58, 44, 91, 93, 123, 125, 35, 38, 42, 33, 124, 62, 39, 34, 37, 64, 96}"

text \<open>One step of the loop of \<open>escapeString\<close>: the text of the next character or surrogate pair.\<close>

definition escape_char :: "code_unit \<Rightarrow> jsstring yres" where
  "escape_char c =
     (case ESCAPE_SEQUENCES (uint c) of
        Some e \<Rightarrow> Inr e
      | None \<Rightarrow> if isPrintable (Some (uint c)) then Inr [c] else encodeHex (uint c))"

definition is_pair :: "jsstring \<Rightarrow> bool" where
  "is_pair s =
     (case s of c # d # _ \<Rightarrow> 55296 \<le> c \<and> c \<le> 56319 \<and> 56320 \<le> d \<and> d \<le> 57343 | _ \<Rightarrow> False)"

fun escapeString :: "jsstring \<Rightarrow> jsstring yres" where
  "escapeString [] = Inr []"
| "escapeString (c # s) =
     (if is_pair (c # s) then
        bind_r (encodeHex ((uint c - 55296) * 1024 + uint (hd s) - 56320 + 65536))
          (\<lambda>e. bind_r (escapeString (tl s)) (\<lambda>r. Inr (e @ r)))
      else bind_r (escape_char c) (\<lambda>e. bind_r (escapeString s) (\<lambda>r. Inr (e @ r))))"

section \<open>The style of a scalar\<close>

datatype style = STYLE_PLAIN | STYLE_SINGLE | STYLE_LITERAL | STYLE_FOLDED | STYLE_DOUBLE

text \<open>\<open>/^\n* /\<close>\<close>

definition needIndentIndicator :: "jsstring \<Rightarrow> bool" where
  "needIndentIndicator s = (let t = dropWhile (\<lambda>c. c = 10) s in t \<noteq> [] \<and> hd t = 32)"

definition char_at :: "jsstring \<Rightarrow> int \<Rightarrow> code_unit option" where
  "char_at s i = (if 0 \<le> i \<and> i < int (length s) then Some (s ! nat i) else None)"

text \<open>The line that ends at \<open>i\<close> is longer than the width and does not start with a space.\<close>

definition foldable :: "jsstring \<Rightarrow> int \<Rightarrow> int \<Rightarrow> int \<Rightarrow> bool" where
  "foldable s i previousLineBreak lineWidth \<longleftrightarrow>
     lineWidth < i - previousLineBreak - 1 \<and> char_at s (previousLineBreak + 1) \<noteq> Some 32"

text \<open>The two loops; \<open>None\<close> is the early return of \<open>STYLE_DOUBLE\<close>.\<close>

fun single_line_loop :: "jsstring \<Rightarrow> bool \<Rightarrow> bool option" where
  "single_line_loop [] plain = Some plain"
| "single_line_loop (c # s) plain =
     (if \<not> isPrintable (Some (uint c)) then None
      else single_line_loop s (plain \<and> isPlainSafe (Some (uint c))))"

record style_vars =
  sv_plain :: bool
  sv_hasLineBreak :: bool
  sv_hasFoldableLine :: bool
  sv_previousLineBreak :: int

fun multi_line_loop :: "jsstring \<Rightarrow> int \<Rightarrow> jsstring \<Rightarrow> int \<Rightarrow> style_vars \<Rightarrow> style_vars option" where
  "multi_line_loop string lineWidth [] i v = Some v"
| "multi_line_loop string lineWidth (c # s) i v =
     (let plain' = (sv_plain v \<and> isPlainSafe (Some (uint c))) in
      if c = 10 then
        multi_line_loop string lineWidth s (i + 1)
          (if lineWidth \<noteq> - 1 then
             v\<lparr>sv_plain := plain', sv_hasLineBreak := True,
               sv_hasFoldableLine := (sv_hasFoldableLine v \<or> foldable string i (sv_previousLineBreak v) lineWidth),
               sv_previousLineBreak := i\<rparr>
           else v\<lparr>sv_plain := plain', sv_hasLineBreak := True\<rparr>)
      else if \<not> isPrintable (Some (uint c)) then None
      else multi_line_loop string lineWidth s (i + 1) (v\<lparr>sv_plain := plain'\<rparr>))"

definition scan_style :: "jsstring \<Rightarrow> bool \<Rightarrow> int \<Rightarrow> bool \<Rightarrow> style_vars option" where
  "scan_style string singleLineOnly lineWidth plain =
     (let v0 = \<lparr>sv_plain = plain, sv_hasLineBreak = False, sv_hasFoldableLine = False,
                sv_previousLineBreak = - 1\<rparr>
      in if singleLineOnly then
           map_option (\<lambda>p. v0\<lparr>sv_plain := p\<rparr>) (single_line_loop string plain)
         else
           map_option
             (\<lambda>v. v\<lparr>sv_hasFoldableLine :=
                      (sv_hasFoldableLine v \<or>
                       lineWidth \<noteq> - 1 \<and> foldable string (int (length string)) (sv_previousLineBreak v) lineWidth)\<rparr>)
             (multi_line_loop string lineWidth string 0 v0))"

definition chooseScalarStyle :: "jsstring \<Rightarrow> bool \<Rightarrow> int \<Rightarrow> int \<Rightarrow> (jsstring \<Rightarrow> bool) \<Rightarrow> style" where
  "chooseScalarStyle string singleLineOnly indentPerLevel lineWidth testAmbiguousType =
     (let plain = (isPlainSafeFirst (charCodeAt string 0) \<and>
                   \<not> isWhitespace (charCodeAt string (int (length string) - 1)))
      in case scan_style string singleLineOnly lineWidth plain of
           None \<Rightarrow> STYLE_DOUBLE
         | Some v \<Rightarrow>
             if \<not> sv_hasLineBreak v \<and> \<not> sv_hasFoldableLine v then
               (if sv_plain v \<and> \<not> testAmbiguousType string then STYLE_PLAIN else STYLE_SINGLE)
             else if 9 < indentPerLevel \<and> needIndentIndicator string then STYLE_DOUBLE
             else if sv_hasFoldableLine v then STYLE_FOLDED
             else STYLE_LITERAL)"

section \<open>Block scalars\<close>

function indentString :: "jsstring \<Rightarrow> int \<Rightarrow> jsstring" where
  "indentString string spaces =
     (if string = [] then []
      else
        let body = takeWhile (\<lambda>c. c \<noteq> 10) string; rest = dropWhile (\<lambda>c. c \<noteq> 10) string;
            line = (if rest = [] then body else body @ [10])
        in (if line \<noteq> [10] then repeat [32] spaces else []) @ line @ indentString (tl rest) spaces)"
  by pat_completeness auto

termination
proof (relation "measure (\<lambda>(s, _). length s)", goal_cases)
  case (2 s n body rest line)
  then show ?case
    using length_dropWhile_le [of "\<lambda>c. c \<noteq> 10" s] by (cases s) (auto simp: less_Suc_eq_le)
qed simp

declare indentString.simps [simp del]

definition blockHeader :: "jsstring \<Rightarrow> int \<Rightarrow> jsstring" where
  "blockHeader string indentPerLevel =
     (let indentIndicator = (if needIndentIndicator string then int_text 10 indentPerLevel else []);
          n = int (length string);
          clip = (char_at string (n - 1) = Some 10);
          keep = (clip \<and> (char_at string (n - 2) = Some 10 \<or> string = [10]));
          chomp = (if keep then [43] else if clip then [] else [45])
      in indentIndicator @ chomp @ [10])"

definition dropEndingNewline :: "jsstring \<Rightarrow> jsstring" where
  "dropEndingNewline string = (if string \<noteq> [] \<and> last string = 10 then butlast string else string)"

text \<open>
  The matches of \<open>/ [^ ]/g\<close>: every space with another character than a space behind it (a match
  ends at such a character, so that matches do not overlap).
\<close>

definition break_positions :: "jsstring \<Rightarrow> nat list" where
  "break_positions line =
     filter (\<lambda>i. line ! i = 32 \<and> line ! Suc i \<noteq> 32) [0..<length line - 1]"

fun fold_line_loop :: "jsstring \<Rightarrow> int \<Rightarrow> nat list \<Rightarrow> nat \<Rightarrow> nat \<Rightarrow> jsstring \<Rightarrow> nat \<times> nat \<times> jsstring" where
  "fold_line_loop line width [] start cur result = (start, cur, result)"
| "fold_line_loop line width (nxt # rest) start cur result =
     (if width < int nxt - int start then
        let stop = (if start < cur then cur else nxt)
        in fold_line_loop line width rest (stop + 1) nxt
             (result @ [10] @ str_slice line (int start) (int stop))
      else fold_line_loop line width rest start nxt result)"

definition foldLine :: "jsstring \<Rightarrow> int \<Rightarrow> jsstring" where
  "foldLine line width =
     (if line = [] \<or> hd line = 32 then line
      else
        let (start, cur, result) = fold_line_loop line width (break_positions line) 0 0 [];
            tail = (if width < int (length line) - int start \<and> start < cur
                    then str_slice line (int start) (int cur) @ [10] @ drop (cur + 1) line
                    else drop start line)
        in tl (result @ [10] @ tail))"

function fold_rest :: "jsstring \<Rightarrow> int \<Rightarrow> bool \<Rightarrow> jsstring" where
  "fold_rest string width prevMoreIndented =
     (let prefix = takeWhile (\<lambda>c. c = 10) string; rest = dropWhile (\<lambda>c. c = 10) string;
          line = takeWhile (\<lambda>c. c \<noteq> 10) rest; moreIndented = (line \<noteq> [] \<and> hd line = 32)
      in if prefix = [] then []
         else prefix @ (if \<not> prevMoreIndented \<and> \<not> moreIndented \<and> line \<noteq> [] then [10] else [])
              @ foldLine line width @ fold_rest (dropWhile (\<lambda>c. c \<noteq> 10) rest) width moreIndented)"
  by pat_completeness auto

termination
proof (relation "measure (\<lambda>(s, _). length s)", goal_cases)
  case (2 s w p prefix rest line more)
  then obtain c t where "s = c # t" "c = 10"
    by (cases s) (auto split: if_splits)
  then show ?case
    using 2 length_dropWhile_le [of "\<lambda>c. c \<noteq> 10" rest] length_dropWhile_le [of "\<lambda>c. c = 10" t]
    by (auto simp: less_Suc_eq_le)
qed simp

declare fold_rest.simps [simp del]

definition foldString :: "jsstring \<Rightarrow> int \<Rightarrow> jsstring" where
  "foldString string width =
     foldLine (takeWhile (\<lambda>c. c \<noteq> 10) string) width
     @ fold_rest (dropWhile (\<lambda>c. c \<noteq> 10) string) width (string \<noteq> [] \<and> (hd string = 10 \<or> hd string = 32))"

definition double_quotes :: "jsstring \<Rightarrow> jsstring" where
  "double_quotes string = concat (map (\<lambda>c. if c = 39 then [39, 39] else [c]) string)"

end
