(* ===== verification/Yaml_Dump.thy ===== *)
theory Yaml_Dump
  imports Yaml_Print
begin

text \<open>
  The nodes of the YAML dumper: the state, the collection of shared objects, the detection of a
  type, and the writers of flow and block collections.  As in the loader, \<open>writeNode\<close> and the
  writers call each other: the writers take the writer of nodes as an argument, and \<open>writeNode\<close>
  is defined by recursion on a bound of the nesting depth, whose exhaustion is \<open>Diverges\<close>.

  The objects to dump live in a store that dumping does not change.  Arrays and mappings have
  an identity, their index; dates, buffers and regular expressions are values here, so that
  each occurrence of one counts as an object of its own.
\<close>

section \<open>The state\<close>

datatype sort_keys = NoSort | SortTrue | SortFun "jsstring list \<Rightarrow> jsstring list" | SortOther

record dump_options =
  p_schema :: "schema option"
  p_indent :: int
  p_skipInvalid :: bool
  p_flowLevel :: "int option"
  p_styles :: "(jsstring \<times> jsstring) list option"
  p_sortKeys :: sort_keys
  p_lineWidth :: int
  p_noRefs :: bool
  p_noCompatMode :: bool
  p_condenseFlow :: bool

record dstate =
  d_indent :: int
  d_skipInvalid :: bool
  d_flowLevel :: int
  d_styleMap :: "(jsstring \<times> jsstring) list"
  d_sortKeys :: sort_keys
  d_lineWidth :: int
  d_noRefs :: bool
  d_noCompatMode :: bool
  d_condenseFlow :: bool
  d_implicitTypes :: "ytype list"
  d_explicitTypes :: "ytype list"
  d_tag :: "jsstring option"
  d_dump :: yval
  d_duplicates :: "yval list"
  d_usedDuplicates :: "bool list"
  d_store :: store

definition style_tag :: "jsstring \<Rightarrow> jsstring" where
  "style_tag tg = (if take 2 tg = jstr ''!!'' then yaml_tag '''' @ drop 2 tg else tg)"

definition compileStyleMap :: "schema \<Rightarrow> (jsstring \<times> jsstring) list option \<Rightarrow> (jsstring \<times> jsstring) list" where
  "compileStyleMap sch styles =
     (case styles of None \<Rightarrow> []
      | Some m \<Rightarrow>
          foldl (\<lambda>result key.
              let style = the (map_of m key); tg = style_tag key
              in case map_of (tm_fallback (compiledTypeMap sch)) tg of
                   None \<Rightarrow> put_prop result tg style
                 | Some t \<Rightarrow>
                     put_prop result tg
                       (case map_of (styleAliases t) style of None \<Rightarrow> style | Some s \<Rightarrow> s))
            [] (object_keys m))"

definition DumpState :: "js_host \<Rightarrow> store \<Rightarrow> dump_options \<Rightarrow> dstate" where
  "DumpState js h opts =
     (let sch = (case p_schema opts of Some s \<Rightarrow> s | None \<Rightarrow> DEFAULT_FULL_SCHEMA js) in
      \<lparr>d_indent = max 1 (if p_indent opts = 0 then 2 else p_indent opts),
       d_skipInvalid = p_skipInvalid opts,
       d_flowLevel = (case p_flowLevel opts of None \<Rightarrow> - 1 | Some l \<Rightarrow> l),
       d_styleMap = compileStyleMap sch (p_styles opts),
       d_sortKeys = p_sortKeys opts,
       d_lineWidth = (if p_lineWidth opts = 0 then 80 else p_lineWidth opts),
       d_noRefs = p_noRefs opts, d_noCompatMode = p_noCompatMode opts, d_condenseFlow = p_condenseFlow opts,
       d_implicitTypes = compiledImplicit sch, d_explicitTypes = compiledExplicit sch,
       d_tag = None, d_dump = YUndef, d_duplicates = [], d_usedDuplicates = [], d_store = h\<rparr>)"

definition generateNextLine :: "dstate \<Rightarrow> int \<Rightarrow> jsstring" where
  "generateNextLine st level = [10] @ repeat [32] (d_indent st * level)"

definition testImplicitResolving :: "dstate \<Rightarrow> jsstring \<Rightarrow> bool" where
  "testImplicitResolving st str = list_ex (\<lambda>t. resolve t (d_store st) (YStr str)) (d_implicitTypes st)"

text \<open>What the writers append: after a successful \<open>writeNode\<close> the dump is a string.\<close>

definition dump_text :: "dstate \<Rightarrow> jsstring" where
  "dump_text st = (case d_dump st of YStr s \<Rightarrow> s | _ \<Rightarrow> [])"

definition set_text :: "dstate \<Rightarrow> jsstring \<Rightarrow> dstate" where
  "set_text st s = st\<lparr>d_dump := YStr s\<rparr>"

section \<open>Scalars\<close>

definition scalar_text :: "dstate \<Rightarrow> jsstring \<Rightarrow> int \<Rightarrow> bool \<Rightarrow> jsstring yres" where
  "scalar_text st string level iskey =
     (if string = [] then Inr (jstr [CHR 0x27, CHR 0x27])
      else if \<not> d_noCompatMode st \<and> string \<in> set DEPRECATED_BOOLEANS_SYNTAX then Inr ([39] @ string @ [39])
      else
        let ind = d_indent st * max 1 level;
            lineWidth = (if d_lineWidth st = - 1 then - 1
                         else max (min (d_lineWidth st) 40) (d_lineWidth st - ind));
            singleLineOnly = (iskey \<or> - 1 < d_flowLevel st \<and> d_flowLevel st \<le> level)
        in case chooseScalarStyle string singleLineOnly (d_indent st) lineWidth (testImplicitResolving st) of
             STYLE_PLAIN \<Rightarrow> Inr string
           | STYLE_SINGLE \<Rightarrow> Inr ([39] @ double_quotes string @ [39])
           | STYLE_LITERAL \<Rightarrow>
               Inr ([124] @ blockHeader string (d_indent st) @ dropEndingNewline (indentString string ind))
           | STYLE_FOLDED \<Rightarrow>
               Inr ([62] @ blockHeader string (d_indent st)
                    @ dropEndingNewline (indentString (foldString string lineWidth) ind))
           | STYLE_DOUBLE \<Rightarrow> bind_r (escapeString string) (\<lambda>e. Inr ([34] @ e @ [34])))"

definition writeScalar :: "dstate \<Rightarrow> jsstring \<Rightarrow> int \<Rightarrow> bool \<Rightarrow> dstate yres" where
  "writeScalar st string level iskey =
     bind_r (scalar_text st string level iskey) (\<lambda>t. Inr (set_text st t))"

section \<open>Types\<close>

definition type_applies :: "ytype \<Rightarrow> yval \<Rightarrow> bool" where
  "type_applies t ob \<longleftrightarrow>
     (instanceOf t \<noteq> None \<or> predicate t \<noteq> None) \<and>
     (case instanceOf t of None \<Rightarrow> True | Some c \<Rightarrow> isObject ob \<and> c ob) \<and>
     (case predicate t of None \<Rightarrow> True | Some p \<Rightarrow> p ob)"

definition style_of :: "dstate \<Rightarrow> ytype \<Rightarrow> jsstring option" where
  "style_of st t =
     (case map_of (d_styleMap st) (tag t) of Some (c # s) \<Rightarrow> Some (c # s) | _ \<Rightarrow> defaultStyle t)"

definition style_name :: "jsstring option \<Rightarrow> jsstring" where
  "style_name s = (case s of None \<Rightarrow> jstr ''undefined'' | Some t \<Rightarrow> t)"

definition represent_with :: "dstate \<Rightarrow> ytype \<Rightarrow> yval \<Rightarrow> dstate yres" where
  "represent_with st t ob =
     (case represent t of
        NoRep \<Rightarrow> Inr st
      | RepFn f \<Rightarrow> Inr (set_text st (f ob (style_name (style_of st t))))
      | RepStyles m \<Rightarrow>
          (case map_of m (style_name (style_of st t)) of
             None \<Rightarrow> Inl (YAMLException (jstr ''!<'' @ tag t @ jstr ''> tag resolver accepts not '' @ [34]
                       @ style_name (style_of st t) @ [34] @ jstr '' style'') None)
           | Some f \<Rightarrow> Inr (set_text st (f ob))))"

definition detectType :: "dstate \<Rightarrow> yval \<Rightarrow> bool \<Rightarrow> (bool \<times> dstate) yres" where
  "detectType st ob expl =
     (case find (\<lambda>t. type_applies t ob) (if expl then d_explicitTypes st else d_implicitTypes st) of
        None \<Rightarrow> Inr (False, st)
      | Some t \<Rightarrow>
          bind_r (represent_with (st\<lparr>d_tag := Some (if expl then tag t else jstr ''?'')\<rparr>) t ob)
            (\<lambda>st1. Inr (True, st1)))"

section \<open>Shared objects\<close>

definition children :: "store \<Rightarrow> yval \<Rightarrow> yval list" where
  "children h v = (if isArray h v then (case v of YRef a \<Rightarrow> (case h ! a of YArr xs \<Rightarrow> xs | _ \<Rightarrow> []) | _ \<Rightarrow> [])
                   else map snd (own_props h v))"

fun index_in :: "yval \<Rightarrow> yval list \<Rightarrow> nat option" where
  "index_in v [] = None"
| "index_in v (x # xs) = (if x = v then Some 0 else map_option Suc (index_in v xs))"

lemma index_in_None: "index_in v xs = None \<longleftrightarrow> v \<notin> set xs"
  by (induction xs) auto

definition is_shared :: "store \<Rightarrow> yval \<Rightarrow> bool" where
  "is_shared h v = (case v of YRef a \<Rightarrow> a < length h | _ \<Rightarrow> False)"

text \<open>
  The calls of \<open>inspectNode\<close> in the order the code makes them, with the values still to be
  inspected in a list.  Only an array or a mapping can be found among the objects or has objects
  in it.
\<close>

function inspectNodes :: "store \<Rightarrow> yval list \<Rightarrow> yval list \<Rightarrow> nat list \<Rightarrow> yval list \<times> nat list" where
  "inspectNodes h [] objects duplicatesIndexes = (objects, duplicatesIndexes)"
| "inspectNodes h (v # rest) objects duplicatesIndexes =
     (if \<not> isObject v then inspectNodes h rest objects duplicatesIndexes
      else if \<not> is_shared h v then inspectNodes h rest (objects @ [v]) duplicatesIndexes
      else case index_in v objects of
             Some i \<Rightarrow>
               inspectNodes h rest objects
                 (if i \<in> set duplicatesIndexes then duplicatesIndexes else duplicatesIndexes @ [i])
           | None \<Rightarrow> inspectNodes h (children h v @ rest) (objects @ [v]) duplicatesIndexes)"
  by pat_completeness auto

termination
proof (relation "measures [\<lambda>(h, vs, os, ds). card ({a. a < length h \<and> YRef a \<notin> set os}), \<lambda>(h, vs, os, ds). length vs]",
    goal_cases)
  case (3 h v rest os ds)
  then have "{a. a < length h \<and> YRef a \<notin> set (os @ [v])} = {a. a < length h \<and> YRef a \<notin> set os}"
    by (auto simp: is_shared_def)
  then show ?case
    by simp
next
  case (4 h v rest os ds)
  then obtain a where "v = YRef a" "a < length h" "YRef a \<notin> set os"
    by (auto simp: is_shared_def index_in_None split: yval.splits)
  then have "{b. b < length h \<and> YRef b \<notin> set (os @ [v])} \<subset> {b. b < length h \<and> YRef b \<notin> set os}"
    by auto
  then have "card {b. b < length h \<and> YRef b \<notin> set (os @ [v])} < card {b. b < length h \<and> YRef b \<notin> set os}"
    by (intro psubset_card_mono) simp_all
  then show ?case
    by simp
qed auto

declare inspectNodes.simps [simp del]

definition getDuplicateReferences :: "yval \<Rightarrow> dstate \<Rightarrow> dstate" where
  "getDuplicateReferences ob st =
     (let (objects, dups) = inspectNodes (d_store st) [ob] [] []
      in st\<lparr>d_duplicates := d_duplicates st @ map (\<lambda>i. objects ! i) dups,
            d_usedDuplicates := replicate (length dups) False\<rparr>)"

section \<open>Collections\<close>

type_synonym write_fun = "dstate \<Rightarrow> int \<Rightarrow> yval \<Rightarrow> bool \<Rightarrow> bool \<Rightarrow> bool \<Rightarrow> (bool \<times> dstate) yres"

fun flow_items :: "write_fun \<Rightarrow> int \<Rightarrow> yval list \<Rightarrow> nat \<Rightarrow> dstate \<Rightarrow> jsstring \<Rightarrow> (dstate \<times> jsstring) yres" where
  "flow_items wn level [] i st r = Inr (st, r)"
| "flow_items wn level (v # vs) i st r =
     bind_r (wn st level v False False False)
       (\<lambda>(written, st1).
          flow_items wn level vs (i + 1) st1
            (if written then
               r @ (if i \<noteq> 0 then jstr '','' @ (if \<not> d_condenseFlow st1 then jstr '' '' else []) else [])
               @ dump_text st1
             else r))"

definition writeFlowSequence :: "write_fun \<Rightarrow> dstate \<Rightarrow> int \<Rightarrow> yval list \<Rightarrow> dstate yres" where
  "writeFlowSequence wn st level xs =
     bind_r (flow_items wn level xs 0 st [])
       (\<lambda>(st1, r). Inr (set_text (st1\<lparr>d_tag := d_tag st\<rparr>) ([91] @ r @ [93])))"

text \<open>The indicator before a nested dump: without a space when the dump starts with a line break.\<close>

definition indicator :: "string \<Rightarrow> jsstring \<Rightarrow> jsstring" where
  "indicator c t = jstr c @ (if t \<noteq> [] \<and> hd t = 10 then [] else jstr '' '')"

fun block_items :: "write_fun \<Rightarrow> int \<Rightarrow> bool \<Rightarrow> yval list \<Rightarrow> nat \<Rightarrow> dstate \<Rightarrow> jsstring \<Rightarrow> (dstate \<times> jsstring) yres" where
  "block_items wn level cmp [] i st r = Inr (st, r)"
| "block_items wn level cmp (v # vs) i st r =
     bind_r (wn st (level + 1) v True True False)
       (\<lambda>(written, st1).
          block_items wn level cmp vs (i + 1) st1
            (if written then
               r @ (if \<not> cmp \<or> i \<noteq> 0 then generateNextLine st1 level else [])
               @ indicator ''-'' (dump_text st1) @ dump_text st1
             else r))"

definition writeBlockSequence :: "write_fun \<Rightarrow> dstate \<Rightarrow> int \<Rightarrow> yval list \<Rightarrow> bool \<Rightarrow> dstate yres" where
  "writeBlockSequence wn st level xs cmp =
     bind_r (block_items wn level cmp xs 0 st [])
       (\<lambda>(st1, r). Inr (set_text (st1\<lparr>d_tag := d_tag st\<rparr>) (if r \<noteq> [] then r else jstr ''[]'')))"

definition flow_pair :: "write_fun \<Rightarrow> int \<Rightarrow> jsstring \<Rightarrow> yval \<Rightarrow> nat \<Rightarrow> dstate \<Rightarrow> (dstate \<times> jsstring) yres" where
  "flow_pair wn level key v i st =
     (let quote = (if d_condenseFlow st then [34] else []);
          b0 = quote @ (if i \<noteq> 0 then jstr '', '' else [])
      in bind_r (wn st level (YStr key) False False False)
           (\<lambda>(written, st1).
              if \<not> written then Inr (st1, [])
              else
                let b1 = b0 @ (if 1024 < length (dump_text st1) then jstr ''? '' else []) @ dump_text st1 @ quote
                         @ jstr '':'' @ (if d_condenseFlow st then [] else jstr '' '')
                in bind_r (wn st1 level v False False False)
                     (\<lambda>(written2, st2). Inr (st2, if written2 then b1 @ dump_text st2 else []))))"

fun flow_pairs :: "write_fun \<Rightarrow> int \<Rightarrow> props \<Rightarrow> nat \<Rightarrow> dstate \<Rightarrow> jsstring \<Rightarrow> (dstate \<times> jsstring) yres" where
  "flow_pairs wn level [] i st r = Inr (st, r)"
| "flow_pairs wn level ((key, v) # ps) i st r =
     bind_r (flow_pair wn level key v i st) (\<lambda>(st1, b). flow_pairs wn level ps (i + 1) st1 (r @ b))"

definition writeFlowMapping :: "write_fun \<Rightarrow> dstate \<Rightarrow> int \<Rightarrow> props \<Rightarrow> dstate yres" where
  "writeFlowMapping wn st level ps =
     bind_r (flow_pairs wn level ps 0 st [])
       (\<lambda>(st1, r). Inr (set_text (st1\<lparr>d_tag := d_tag st\<rparr>) ([123] @ r @ [125])))"

text \<open>The default order of \<open>Array.prototype.sort\<close> on strings: by code units.\<close>

fun str_le :: "jsstring \<Rightarrow> jsstring \<Rightarrow> bool" where
  "str_le [] t = True"
| "str_le (c # s) [] = False"
| "str_le (c # s) (d # t) \<longleftrightarrow> c < d \<or> c = d \<and> str_le s t"

fun insert_key :: "jsstring \<times> 'v \<Rightarrow> (jsstring \<times> 'v) list \<Rightarrow> (jsstring \<times> 'v) list" where
  "insert_key x [] = [x]"
| "insert_key x (y # ys) = (if str_le (fst x) (fst y) then x # y # ys else y # insert_key x ys)"

definition sorted_props :: "sort_keys \<Rightarrow> props \<Rightarrow> props yres" where
  "sorted_props sk ps =
     (case sk of
        NoSort \<Rightarrow> Inr ps
      | SortTrue \<Rightarrow> Inr (foldr insert_key ps [])
      | SortFun f \<Rightarrow>
          Inr (map (\<lambda>k. (k, case map_of ps k of None \<Rightarrow> YUndef | Some v \<Rightarrow> v)) (f (map fst ps)))
      | SortOther \<Rightarrow> Inl (YAMLException (jstr ''sortKeys must be a boolean or a function'') None))"

definition block_pair ::
  "write_fun \<Rightarrow> int \<Rightarrow> bool \<Rightarrow> jsstring \<Rightarrow> yval \<Rightarrow> nat \<Rightarrow> dstate \<Rightarrow> (dstate \<times> jsstring) yres" where
  "block_pair wn level cmp key v i st =
     (let b0 = (if \<not> cmp \<or> i \<noteq> 0 then generateNextLine st level else []) in
      bind_r (wn st (level + 1) (YStr key) True True True)
        (\<lambda>(written, st1).
           if \<not> written then Inr (st1, [])
           else
             let t = dump_text st1;
                 explicitPair = (d_tag st1 \<noteq> None \<and> d_tag st1 \<noteq> Some (jstr ''?'') \<or> 1024 < length t);
                 b1 = b0 @ (if explicitPair then indicator ''?'' t else []) @ t
                      @ (if explicitPair then generateNextLine st1 level else [])
             in bind_r (wn st1 (level + 1) v True explicitPair False)
                  (\<lambda>(written2, st2).
                     Inr (st2, if written2 then b1 @ indicator '':'' (dump_text st2) @ dump_text st2 else []))))"

fun block_pairs :: "write_fun \<Rightarrow> int \<Rightarrow> bool \<Rightarrow> props \<Rightarrow> nat \<Rightarrow> dstate \<Rightarrow> jsstring \<Rightarrow> (dstate \<times> jsstring) yres" where
  "block_pairs wn level cmp [] i st r = Inr (st, r)"
| "block_pairs wn level cmp ((key, v) # ps) i st r =
     bind_r (block_pair wn level cmp key v i st)
       (\<lambda>(st1, b). block_pairs wn level cmp ps (i + 1) st1 (r @ b))"

definition writeBlockMapping :: "write_fun \<Rightarrow> dstate \<Rightarrow> int \<Rightarrow> props \<Rightarrow> bool \<Rightarrow> dstate yres" where
  "writeBlockMapping wn st level ps cmp =
     bind_r (sorted_props (d_sortKeys st) ps)
       (\<lambda>sorted.
          bind_r (block_pairs wn level cmp sorted 0 st [])
            (\<lambda>(st1, r). Inr (set_text (st1\<lparr>d_tag := d_tag st\<rparr>) (if r \<noteq> [] then r else jstr ''{}''))))"

section \<open>Nodes\<close>

text \<open>\<open>Object.prototype.toString\<close> of the value to write.\<close>

datatype dump_class = CObject props | CArray "yval list" | CString jsstring | COther string

definition class_of :: "store \<Rightarrow> yval \<Rightarrow> dump_class" where
  "class_of h v =
     (case v of
        YStr s \<Rightarrow> CString s
      | YRef a \<Rightarrow> (case h ! a of YArr xs \<Rightarrow> CArray xs | YMap _ \<Rightarrow> CObject (own_props h v))
      | YUndef \<Rightarrow> COther ''[object Undefined]''
      | YNull \<Rightarrow> COther ''[object Null]''
      | YBool _ \<Rightarrow> COther ''[object Boolean]''
      | YNum _ \<Rightarrow> COther ''[object Number]''
      | YDate _ \<Rightarrow> COther ''[object Date]''
      | YBuf _ \<Rightarrow> COther ''[object Uint8Array]''
      | YRegExp _ _ \<Rightarrow> COther ''[object RegExp]''
      | YFun _ \<Rightarrow> COther ''[object Function]'')"

definition ref_name :: "nat \<Rightarrow> jsstring" where
  "ref_name i = jstr ''ref_'' @ int_text 10 (int i)"

definition add_anchor :: "nat option \<Rightarrow> jsstring \<Rightarrow> dstate \<Rightarrow> dstate" where
  "add_anchor dup sep st =
     (case dup of None \<Rightarrow> st | Some i \<Rightarrow> set_text st (jstr ''&'' @ ref_name i @ sep @ dump_text st))"

definition add_tag :: "dstate \<Rightarrow> dstate" where
  "add_tag st =
     (case d_tag st of
        None \<Rightarrow> st
      | Some t \<Rightarrow> if t = jstr ''?'' then st else set_text st (jstr ''!<'' @ t @ jstr ''> '' @ dump_text st))"

definition detect :: "dstate \<Rightarrow> yval \<Rightarrow> dstate yres" where
  "detect st ob =
     bind_r (detectType (st\<lparr>d_tag := None, d_dump := ob\<rparr>) ob False)
       (\<lambda>(found, st1). if found then Inr st1 else bind_r (detectType st1 ob True) (\<lambda>(_, st2). Inr st2))"

definition write_content ::
  "write_fun \<Rightarrow> dstate \<Rightarrow> int \<Rightarrow> dump_class \<Rightarrow> nat option \<Rightarrow> bool \<Rightarrow> bool \<Rightarrow> bool \<Rightarrow> (bool \<times> dstate) yres" where
  "write_content wn st level cls dup block cmp iskey =
     (case cls of
        CObject ps \<Rightarrow>
          if block \<and> ps \<noteq> [] then
            bind_r (writeBlockMapping wn st level ps cmp) (\<lambda>st1. Inr (True, add_tag (add_anchor dup [] st1)))
          else
            bind_r (writeFlowMapping wn st level ps) (\<lambda>st1. Inr (True, add_tag (add_anchor dup (jstr '' '') st1)))
      | CArray xs \<Rightarrow>
          if block \<and> xs \<noteq> [] then
            bind_r (writeBlockSequence wn st level xs cmp) (\<lambda>st1. Inr (True, add_tag (add_anchor dup [] st1)))
          else
            bind_r (writeFlowSequence wn st level xs) (\<lambda>st1. Inr (True, add_tag (add_anchor dup (jstr '' '') st1)))
      | CString s \<Rightarrow>
          if d_tag st \<noteq> Some (jstr ''?'') then
            bind_r (writeScalar st s level iskey) (\<lambda>st1. Inr (True, add_tag st1))
          else Inr (True, add_tag st)
      | COther c \<Rightarrow>
          if d_skipInvalid st then Inr (False, st)
          else Inl (YAMLException (jstr ''unacceptable kind of an object to dump '' @ jstr c) None))"

definition write_with :: "write_fun \<Rightarrow> write_fun" where
  "write_with wn st0 level ob block cmp iskey =
     bind_r (detect st0 ob)
       (\<lambda>st.
          let cls = class_of (d_store st) (d_dump st);
              block1 = (block \<and> (d_flowLevel st < 0 \<or> level < d_flowLevel st));
              dup = (case cls of CObject _ \<Rightarrow> index_in ob (d_duplicates st)
                     | CArray _ \<Rightarrow> index_in ob (d_duplicates st) | _ \<Rightarrow> None);
              cmp1 = (cmp \<and> \<not> (d_tag st \<noteq> None \<and> d_tag st \<noteq> Some (jstr ''?'') \<or> dup \<noteq> None \<or>
                                d_indent st \<noteq> 2 \<and> 0 < level))
          in case dup of
               None \<Rightarrow> write_content wn st level cls None block1 cmp1 iskey
             | Some i \<Rightarrow>
                 if d_usedDuplicates st ! i then Inr (True, set_text st (jstr ''*'' @ ref_name i))
                 else write_content wn (st\<lparr>d_usedDuplicates := (d_usedDuplicates st)[i := True]\<rparr>) level cls
                        (Some i) block1 cmp1 iskey)"

fun writeNode :: "nat \<Rightarrow> write_fun" where
  "writeNode 0 st level ob block cmp iskey = Inl Diverges"
| "writeNode (Suc depth) st level ob block cmp iskey =
     write_with (writeNode depth) st level ob block cmp iskey"

section \<open>Dumping\<close>

definition dump_depth :: "store \<Rightarrow> nat" where
  "dump_depth h = length h + 2"

definition dump :: "js_host \<Rightarrow> store \<Rightarrow> yval \<Rightarrow> dump_options \<Rightarrow> jsstring yres" where
  "dump js h v opts =
     (let st = DumpState js h opts;
          st1 = (if d_noRefs st then st else getDuplicateReferences v st)
      in bind_r (writeNode (dump_depth h) st1 0 v True True False)
           (\<lambda>(written, st2). Inr (if written then dump_text st2 @ [10] else [])))"

definition safeDump :: "js_host \<Rightarrow> store \<Rightarrow> yval \<Rightarrow> dump_options \<Rightarrow> jsstring yres" where
  "safeDump js h v opts =
     dump js h v (opts\<lparr>p_schema := (case p_schema opts of Some s \<Rightarrow> Some s | None \<Rightarrow> Some DEFAULT_SAFE_SCHEMA)\<rparr>)"

end
