(* ===== verification/Yaml_Trip.thy ===== *)
theory Yaml_Trip
  imports Yaml_Total Yaml_Dump
begin

text \<open>
  What the dumper writes for a string, the loader reads back: the quoted and the plain styles.
  \<open>ahead st xs\<close> says that \<open>xs\<close> is the rest of the input.
\<close>

section \<open>The text ahead\<close>

definition ahead :: "state \<Rightarrow> jsstring \<Rightarrow> bool" where
  "ahead st xs \<longleftrightarrow> drop (position st) (input st) = xs"

lemma ahead_code:
  assumes "ahead st xs" "k < length xs"
  shows "code_at st (position st + k) = Some (uint (xs ! k))"
  using assms by (auto simp: ahead_def code_at_def)

lemma ahead_Cons:
  assumes "ahead st (c # xs)"
  shows "here st = Some (uint c)" "\<not> length (input st) \<le> position st"
    "drop (Suc (position st)) (input st) = xs"
  using assms ahead_code [OF assms, of 0] by (auto simp: ahead_def drop_Suc simp flip: tl_drop)

lemma ahead_next: "ahead st (c # xs) \<Longrightarrow> ahead (st\<lparr>position := Suc (position st)\<rparr>) xs"
  using ahead_Cons(3) by (simp add: ahead_def)

lemma ahead_append: "ahead st (xs @ ys) \<Longrightarrow> ahead (st\<lparr>position := position st + length xs\<rparr>) ys"
  by (simp add: ahead_def add.commute [of "position st"] flip: drop_drop)

lemma ahead_update [simp]:
  "ahead (st\<lparr>result := r\<rparr>) xs = ahead st xs" "ahead (st\<lparr>s_kind := k\<rparr>) xs = ahead st xs"
  by (simp_all add: ahead_def)

lemma segment_nat: "a \<le> b \<Longrightarrow> segment st a b = take (b - a) (drop a (input st))"
  by (simp add: segment_def str_slice_def flip: of_nat_diff)

lemma segment_snoc:
  assumes "a \<le> position st" "ahead st (c # xs)"
  shows "segment st a (Suc (position st)) = segment st a (position st) @ [c]"
proof -
  have c: "input st ! position st = c" "position st < length (input st)"
    using assms(2) ahead_Cons(1,2) [OF assms(2)] by (auto simp: code_at_def ahead_def nth_via_drop)
  have "take (Suc (position st - a)) (drop a (input st)) = take (position st - a) (drop a (input st)) @ [c]"
    using assms(1) c by (subst take_Suc_conv_app_nth) auto
  then show ?thesis
    using assms(1) by (simp add: segment_nat Suc_diff_le)
qed

section \<open>Hexadecimal escapes\<close>

definition hex_val :: "code_unit \<Rightarrow> int" where
  "hex_val c = fromHexCode (Some (uint c))"

definition hex_digits :: "int \<Rightarrow> jsstring \<Rightarrow> int" where
  "hex_digits r ds = foldl (\<lambda>r c. r * 16 + hex_val c) r ds"

lemma hex_val_digit:
  assumes "0 \<le> k" "k < 16"
  shows "hex_val (upper (digit_char k)) = k"
proof -
  have "k \<in> set [0..15]"
    using assms by simp
  moreover have "\<forall>k \<in> set [0..15]. hex_val (upper (digit_char k)) = k"
    by code_simp
  ultimately show ?thesis
    by blast
qed

lemma hex_text:
  "0 \<le> v \<Longrightarrow> list_all (\<lambda>c. 0 \<le> hex_val c \<and> hex_val c < 16) (toUpperCase (radix_text 16 v)) \<and>
   hex_digits 0 (toUpperCase (radix_text 16 v)) = v"
proof (induction "16 :: int" v rule: radix_text.induct)
  case (1 v)
  show ?case
  proof (cases "v < 16")
    case True
    then show ?thesis
      using 1 by (simp add: radix_text.simps [of 16 v] toUpperCase_def hex_digits_def hex_val_digit)
  next
    case False
    have m: "0 \<le> v mod 16" "v mod 16 < 16"
      by simp_all
    have "list_all (\<lambda>c. 0 \<le> hex_val c \<and> hex_val c < 16) (toUpperCase (radix_text 16 (v div 16))) \<and>
        hex_digits 0 (toUpperCase (radix_text 16 (v div 16))) = v div 16"
      using 1 False by simp
    then show ?thesis
      using False m hex_val_digit [OF m]
      by (simp add: radix_text.simps [of 16 v] toUpperCase_def hex_digits_def)
  qed
qed

lemma radix_text_length: "0 \<le> v \<Longrightarrow> v < 16 ^ n \<Longrightarrow> 0 < n \<Longrightarrow> length (radix_text 16 v) \<le> n"
proof (induction n arbitrary: v)
  case (Suc n)
  show ?case
  proof (cases "v < 16")
    case False
    then have "0 < n"
      using Suc(3) by (cases n) auto
    moreover have "v div 16 < 16 ^ n"
      using Suc(3) by (simp add: div_less_iff_less_mult)
    ultimately show ?thesis
      using Suc(1) [of "v div 16"] Suc(2) False by (simp add: radix_text.simps [of 16 v])
  qed (simp add: radix_text.simps [of 16 v])
qed simp

lemma hex_val_zero: "hex_val 48 = 0"
  by code_simp

lemma hex_escape_digits:
  assumes "0 \<le> v" "v < 16 ^ n" "0 < n"
  obtains ds where "hex_escape h n (toUpperCase (int_text 16 v)) = 92 # h # ds" "length ds = n"
    "list_all (\<lambda>c. 0 \<le> hex_val c \<and> hex_val c < 16) ds" "hex_digits 0 ds = v"
proof
  define t where "t = toUpperCase (int_text 16 v)"
  define ds where "ds = replicate (n - length t) 48 @ t"
  have t: "t = toUpperCase (radix_text 16 v)"
    using assms by (simp add: t_def int_text_def)
  have len: "length t \<le> n"
    using radix_text_length [OF assms] by (simp add: t toUpperCase_def)
  have z: "hex_digits 0 (replicate k 48) = 0" for k
    by (induction k) (simp_all add: hex_digits_def hex_val_zero)
  show "hex_escape h n (toUpperCase (int_text 16 v)) = 92 # h # ds"
    using len by (simp add: hex_escape_def ds_def repeat_def t_def [symmetric] concat_replicate_single nat_diff_distrib)
  show "length ds = n"
    using len by (simp add: ds_def)
  show "list_all (\<lambda>c. 0 \<le> hex_val c \<and> hex_val c < 16) ds"
    using hex_text [OF assms(1)] by (auto simp: ds_def t hex_val_zero list_all_iff)
  show "hex_digits 0 ds = v"
    using hex_text [OF assms(1)] z [of "n - length t"] by (simp add: ds_def t hex_digits_def)
qed


lemma shl4: "0 \<le> r \<Longrightarrow> r < 2 ^ 27 \<Longrightarrow> shl r 4 = r * 16"
  by (simp add: shl_def push_bit_eq_mult)

lemma hex_digits_mono:
  "0 \<le> r \<Longrightarrow> list_all (\<lambda>c. 0 \<le> hex_val c) ds \<Longrightarrow> r \<le> hex_digits r ds"
proof (induction ds arbitrary: r)
  case (Cons c ds)
  have "r \<le> r * 16 + hex_val c"
    using Cons by simp
  also have "\<dots> \<le> hex_digits (r * 16 + hex_val c) ds"
    using Cons by simp
  finally show ?case
    by (simp add: hex_digits_def)
qed (simp add: hex_digits_def)

lemma hex_loop_reads:
  "ahead st (c # ds @ ys) \<Longrightarrow> list_all (\<lambda>c. 0 \<le> hex_val c \<and> hex_val c < 16) ds \<Longrightarrow> 0 \<le> r \<Longrightarrow>
   hex_digits r ds < 2 ^ 31 \<Longrightarrow>
   hex_loop (length ds) st r = Inr (st\<lparr>position := position st + length ds\<rparr>, hex_digits r ds)"
proof (induction ds arbitrary: st c r)
  case (Cons d ds)
  let ?st = "st\<lparr>position := Suc (position st)\<rparr>"
  have n: "ahead ?st (d # ds @ ys)"
    using ahead_next [OF Cons(2)] by simp
  have v: "fromHexCode (here ?st) = hex_val d"
    using ahead_Cons(1) [OF n] by (simp add: hex_val_def)
  have r: "hex_digits r (d # ds) = hex_digits (r * 16 + hex_val d) ds"
    by (simp add: hex_digits_def)
  have "r * 16 + hex_val d \<le> hex_digits (r * 16 + hex_val d) ds"
    using Cons(3,4) by (intro hex_digits_mono) (auto simp: list_all_iff)
  then have "r < 2 ^ 27"
    using Cons(3,5) r by simp
  then have "hex_loop (length (d # ds)) st r = hex_loop (length ds) ?st (r * 16 + hex_val d)"
    using Cons(3,4) v by (simp add: Let_def shl4)
  also have "\<dots> = Inr (?st\<lparr>position := position ?st + length ds\<rparr>, hex_digits (r * 16 + hex_val d) ds)"
    using Cons(3-5) r by (intro Cons(1) [OF n]) simp_all
  finally show ?case
    using r by simp
qed (simp add: hex_digits_def)

section \<open>Double quotes\<close>

lemma read_escape_simple:
  assumes "ahead st (92 # x # ys)" "simple_escape (Some (uint x)) = t" "t \<noteq> []" "\<not> is_EOL (Some (uint x))"
    "result st = YStr r"
  shows "read_escape st ind = Inr (st\<lparr>result := YStr (r @ t), position := position st + 2\<rparr>)"
  using ahead_Cons(1) [OF ahead_next [OF assms(1)]] assms(2-5)
  by (simp add: read_escape_def Let_def append_result_def)

lemma read_escape_hex:
  assumes "ahead st (92 # x # ds @ ys)" "escapedHexLen (Some (uint x)) = length ds" "ds \<noteq> []"
    "list_all (\<lambda>c. 0 \<le> hex_val c \<and> hex_val c < 16) ds" "hex_digits 0 ds = v" "v < 2 ^ 31" "result st = YStr r"
  shows "read_escape st ind =
    Inr (st\<lparr>result := YStr (r @ charFromCodepoint v), position := position st + (2 + length ds)\<rparr>)"
proof -
  let ?st = "st\<lparr>position := Suc (position st)\<rparr>"
  have n: "ahead ?st (x # ds @ ys)"
    by (rule ahead_next [OF assms(1)])
  have h: "here ?st = Some (uint x)"
    by (rule ahead_Cons(1) [OF n])
  have x: "\<not> is_EOL (Some (uint x))" "simple_escape (Some (uint x)) = []"
    using assms(2,3) by (auto simp: escapedHexLen_def is_EOL_def simple_escape_def simpleEscapeSequence_def split: if_splits)
  have "hex_loop (escapedHexLen (here ?st)) ?st 0 = Inr (?st\<lparr>position := position ?st + length ds\<rparr>, v)"
    using hex_loop_reads [OF n assms(4), of 0] assms(2,5,6) h by simp
  then show ?thesis
    using x h assms(2,3,7) by (simp add: read_escape_def Let_def append_result_def)
qed

lemma capture_pending:
  assumes "a \<le> position st" "segment st a (position st) = p" "list_all (\<lambda>c. c = 9 \<or> 32 \<le> c) p" "result st = YStr r"
  shows "captureSegment st a (position st) True = Inr (st\<lparr>result := YStr (r @ p)\<rparr>)"
proof (cases "a < position st")
  case True
  then show ?thesis
    using assms by (simp add: captureSegment_def append_result_def)
next
  case False
  then have "p = []"
    using assms(1,2) by (auto simp: segment_def str_slice_def)
  then show ?thesis
    using False assms(4) by (simp add: captureSegment_def)
qed

lemma double_loop_escape:
  assumes "ahead st (92 # ys)" "a \<le> position st" "segment st a (position st) = p"
    "list_all (\<lambda>c. c = 9 \<or> 32 \<le> c) p" "result st = YStr r"
    "read_escape (st\<lparr>result := YStr (r @ p)\<rparr>) ind = Inr st2"
  shows "double_loop ind st a b = double_loop ind st2 (position st2) (position st2)"
  using ahead_Cons(1,2) [OF assms(1)] capture_pending [OF assms(2-5)] assms(6)
  by (simp add: double_loop.simps [of ind st])

lemma double_loop_char:
  assumes "ahead st (c # ys)" "c \<noteq> 0" "c \<noteq> 34" "c \<noteq> 92" "c \<noteq> 10" "c \<noteq> 13" "lineStart st < position st"
  shows "double_loop ind st a b =
    double_loop ind (st\<lparr>position := Suc (position st)\<rparr>) a (Suc (position st))"
proof -
  have "uint c \<noteq> 0" "uint c \<noteq> 34" "uint c \<noteq> 92" "uint c \<noteq> 10" "uint c \<noteq> 13"
    using assms(2-6) by (simp_all add: unsigned_eq_0_iff uint_eq_numeral_iff)
  then show ?thesis
    using ahead_Cons(1,2) [OF assms(1)] assms(7) by (simp add: double_loop.simps [of ind st] is_EOL_def)
qed


text \<open>The escapes of a character, and how the loader reads each of them.\<close>

lemma escape_sequences_read:
  assumes "ESCAPE_SEQUENCES (uint c) = Some e"
  obtains x where "e = [92, x]" "simple_escape (Some (uint x)) = [c]" "\<not> is_EOL (Some (uint x))"
proof -
  have "e = [92, e ! 1] \<and> simple_escape (Some (uint (e ! 1))) = [c] \<and> \<not> is_EOL (Some (uint (e ! 1)))"
    using assms
    by (auto simp: ESCAPE_SEQUENCES_def simple_escape_def simpleEscapeSequence_def is_EOL_def uint_eq_numeral_iff
        unsigned_eq_0_iff split: if_splits)
  then show ?thesis
    using that by blast
qed

lemma printable_ge: "isPrintable (Some (uint c)) \<Longrightarrow> 32 \<le> (c :: code_unit)"
  by (auto simp: isPrintable_def word_le_def)

lemma ge_neq: "(32 :: code_unit) \<le> c \<Longrightarrow> c \<noteq> 0 \<and> c \<noteq> 10 \<and> c \<noteq> 13"
  by auto

lemma printable_char:
  assumes "isPrintable (Some (uint c))" "ESCAPE_SEQUENCES (uint c) = None"
  shows "c \<noteq> 0" "c \<noteq> 34" "c \<noteq> 92" "c \<noteq> 10" "c \<noteq> 13" "32 \<le> (c :: code_unit)"
proof -
  show ge: "32 \<le> c"
    by (rule printable_ge [OF assms(1)])
  show "c \<noteq> 0" "c \<noteq> 10" "c \<noteq> 13"
    using ge_neq [OF ge] by blast+
  show "c \<noteq> 34" "c \<noteq> 92"
    using assms(2) by (auto simp: ESCAPE_SEQUENCES_def)
qed

lemma encodeHex_unit:
  assumes "encodeHex (uint c) = Inr e"
  obtains x ds where "e = 92 # x # ds" "escapedHexLen (Some (uint x)) = length ds" "ds \<noteq> []"
    "list_all (\<lambda>c. 0 \<le> hex_val c \<and> hex_val c < 16) ds" "hex_digits 0 ds = uint (c :: code_unit)"
proof (cases "uint c \<le> 255")
  case True
  obtain ds where ds: "hex_escape 120 2 (toUpperCase (int_text 16 (uint c))) = 92 # 120 # ds" "length ds = 2"
    "list_all (\<lambda>c. 0 \<le> hex_val c \<and> hex_val c < 16) ds" "hex_digits 0 ds = uint c"
    using hex_escape_digits [of "uint c" 2 120] True by auto
  then show ?thesis
    using assms True by (intro that [of 120 ds]) (auto simp: encodeHex_def Let_def escapedHexLen_def)
next
  case False
  obtain ds where ds: "hex_escape 117 4 (toUpperCase (int_text 16 (uint c))) = 92 # 117 # ds" "length ds = 4"
    "list_all (\<lambda>c. 0 \<le> hex_val c \<and> hex_val c < 16) ds" "hex_digits 0 ds = uint c"
    using hex_escape_digits [of "uint c" 4 117] by auto
  moreover have "uint c \<le> 65535"
    using uint_code_unit_bounds [of c] by linarith
  ultimately show ?thesis
    using assms False by (intro that [of 117 ds]) (auto simp: encodeHex_def Let_def escapedHexLen_def)
qed

lemma encodeHex_pair:
  assumes "is_pair (c # d # s)" "encodeHex v = Inr e" "v = (uint c - 55296) * 1024 + uint d - 56320 + 65536"
  obtains ds where "e = 92 # 85 # ds" "length ds = 8"
    "list_all (\<lambda>c. 0 \<le> hex_val c \<and> hex_val c < 16) ds" "hex_digits 0 ds = v" "charFromCodepoint v = [c, d]" "v < 2 ^ 31"
proof -
  have b: "55296 \<le> uint c" "uint c \<le> 56319" "56320 \<le> uint d" "uint d \<le> 57343"
    using assms(1) by (simp_all add: is_pair_def word_le_def)
  then have v: "65536 \<le> v" "v \<le> 1114111"
    by (simp_all add: assms(3))
  obtain ds where ds: "hex_escape 85 8 (toUpperCase (int_text 16 v)) = 92 # 85 # ds" "length ds = 8"
    "list_all (\<lambda>c. 0 \<le> hex_val c \<and> hex_val c < 16) ds" "hex_digits 0 ds = v"
    using hex_escape_digits [of v 8 85] v by auto
  have w: "v - 65536 = (uint c - 55296) * 2 ^ 10 + (uint d - 56320)"
    using assms(3) by simp
  have i: "to_int32 (v - 65536) = v - 65536"
    using v by simp
  have "sar (v - 65536) 10 = uint c - 55296"
    unfolding sar_def i w using b by (intro int_div_pos_eq [where r = "uint d - 56320"]) simp_all
  moreover have "band (v - 65536) 1023 = uint d - 56320"
  proof -
    have "band (v - 65536) 1023 = (v - 65536) mod 2 ^ 10"
      using and_mask_mod [of "v - 65536" 10] by (simp add: band_def i)
    also have "\<dots> = uint d - 56320"
      unfolding w using b by (intro int_mod_pos_eq [where q = "uint c - 55296"]) simp_all
    finally show ?thesis .
  qed
  ultimately have "sar (v - 65536) 10 = uint c - 55296" "band (v - 65536) 1023 = uint d - 56320"
    by blast+
  then have "charFromCodepoint v = [c, d]"
    using v by (simp add: charFromCodepoint_def fromCharCode_def)
  then show ?thesis
    using ds v assms(2) by (intro that [of ds]) (auto simp: encodeHex_def Let_def)
qed


definition escapes :: "jsstring \<Rightarrow> jsstring \<Rightarrow> bool" where
  "escapes e t \<longleftrightarrow>
     e \<noteq> [] \<and> hd e = 92 \<and>
     (\<forall>st q rest ind. ahead st (e @ rest) \<longrightarrow> result st = YStr q \<longrightarrow>
        read_escape st ind = Inr (st\<lparr>result := YStr (q @ t), position := position st + length e\<rparr>))"

lemma escapesD:
  "escapes e t \<Longrightarrow> ahead st (e @ rest) \<Longrightarrow> result st = YStr q \<Longrightarrow>
   read_escape st ind = Inr (st\<lparr>result := YStr (q @ t), position := position st + length e\<rparr>)"
  by (auto simp: escapes_def)

lemma escapes_hex:
  assumes "escapedHexLen (Some (uint x)) = length ds" "ds \<noteq> []"
    "list_all (\<lambda>c. 0 \<le> hex_val c \<and> hex_val c < 16) ds" "hex_digits 0 ds = v" "v < 2 ^ 31" "charFromCodepoint v = t"
  shows "escapes (92 # x # ds) t"
  using read_escape_hex [OF _ assms(1-5)] assms(6) by (simp add: escapes_def)

lemma escapes_pair:
  assumes "is_pair (c # d # s)" "encodeHex ((uint c - 55296) * 1024 + uint d - 56320 + 65536) = Inr e"
  shows "escapes e [c, d]"
proof -
  from encodeHex_pair [OF assms refl] obtain ds where ds: "e = 92 # 85 # ds" "length ds = 8"
    "list_all (\<lambda>c. 0 \<le> hex_val c \<and> hex_val c < 16) ds"
    "hex_digits 0 ds = (uint c - 55296) * 1024 + uint d - 56320 + 65536"
    "charFromCodepoint ((uint c - 55296) * 1024 + uint d - 56320 + 65536) = [c, d]"
    "(uint c - 55296) * 1024 + uint d - 56320 + 65536 < 2 ^ 31" .
  show ?thesis
    unfolding ds(1) by (rule escapes_hex [OF _ _ ds(3,4,6,5)]) (use ds(2) in \<open>auto simp: escapedHexLen_def\<close>)
qed

lemma escapes_char:
  assumes "escape_char c = Inr e"
  shows "e = [c] \<and> isPrintable (Some (uint c)) \<and> ESCAPE_SEQUENCES (uint c) = None \<or> escapes e [c]"
proof (cases "ESCAPE_SEQUENCES (uint c)")
  case (Some e')
  from escape_sequences_read [OF Some] obtain x where x: "e' = [92, x]" "simple_escape (Some (uint x)) = [c]"
    "\<not> is_EOL (Some (uint x))" .
  have "e = [92, x]"
    using assms Some x(1) by (simp add: escape_char_def)
  then show ?thesis
    using read_escape_simple [OF _ x(2) _ x(3)] by (simp add: escapes_def)
next
  case None
  show ?thesis
  proof (cases "isPrintable (Some (uint c))")
    case False
    then have "encodeHex (uint c) = Inr e"
      using assms None by (simp add: escape_char_def)
    from encodeHex_unit [OF this] obtain x ds where ds: "e = 92 # x # ds" "escapedHexLen (Some (uint x)) = length ds"
      "ds \<noteq> []" "list_all (\<lambda>c. 0 \<le> hex_val c \<and> hex_val c < 16) ds" "hex_digits 0 ds = uint c" .
    have "uint c \<le> 65535"
      using uint_code_unit_bounds [of c] by linarith
    then have "escapes (92 # x # ds) [c]"
      by (intro escapes_hex [OF ds(2-5)]) (simp_all add: charFromCodepoint_def fromCharCode_def)
    then show ?thesis
      by (simp add: ds(1))
  qed (use assms None in \<open>simp add: escape_char_def\<close>)
qed

lemma double_loop_escaped:
  assumes "escapes e t" "ahead st (e @ ys)" "a \<le> position st" "segment st a (position st) = p"
    "list_all (\<lambda>c. c = 9 \<or> 32 \<le> c) p" "result st = YStr r" "st2 = st\<lparr>result := YStr (r @ p @ t), position := position st + length e\<rparr>"
  shows "double_loop ind st a b = double_loop ind st2 (position st2) (position st2)"
proof -
  obtain e' where e: "e = 92 # e'"
    using assms(1) by (cases e) (auto simp: escapes_def)
  have h: "ahead st (92 # e' @ ys)"
    using assms(2) by (simp add: e)
  have "read_escape (st\<lparr>result := YStr (r @ p)\<rparr>) ind = Inr st2"
    using escapesD [OF assms(1), of "st\<lparr>result := YStr (r @ p)\<rparr>" ys "r @ p"] assms(2,7) by simp
  from double_loop_escape [OF h assms(3-6) this] show ?thesis .
qed

lemma double_loop_reads:
  "escapeString s = Inr e \<Longrightarrow> ahead st (e @ 34 # rest) \<Longrightarrow> result st = YStr r \<Longrightarrow> a \<le> position st \<Longrightarrow>
   segment st a (position st) = p \<Longrightarrow> list_all (\<lambda>c. c = 9 \<or> 32 \<le> c) p \<Longrightarrow> lineStart st < position st \<Longrightarrow>
   double_loop ind st a b = Inr (True, st\<lparr>result := YStr (r @ p @ s), position := position st + length e + 1\<rparr>)"
proof (induction s arbitrary: e st r a p b rule: escapeString.induct)
  case 1
  then have "ahead st (34 # rest)"
    by simp
  then show ?case
    using ahead_Cons(1,2) [of st 34 rest] capture_pending [OF 1(4-6,3)] 1(1) by (simp add: double_loop.simps [of ind st])
next
  case (2 c s)
  note prems = 2(3-9)
  have esc: ?case if "escapes e1 t" "e = e1 @ e2" "c # s = t @ s'"
    and IH: "\<And>st r a p b. ahead st (e2 @ 34 # rest) \<Longrightarrow> result st = YStr r \<Longrightarrow> a \<le> position st \<Longrightarrow>
      segment st a (position st) = p \<Longrightarrow> list_all (\<lambda>c. c = 9 \<or> 32 \<le> c) p \<Longrightarrow> lineStart st < position st \<Longrightarrow>
      double_loop ind st a b = Inr (True, st\<lparr>result := YStr (r @ p @ s'), position := position st + length e2 + 1\<rparr>)"
    for e1 t e2 s'
  proof -
    define st2 where "st2 = st\<lparr>result := YStr (r @ p @ t), position := position st + length e1\<rparr>"
    have a1: "ahead st (e1 @ e2 @ 34 # rest)"
      using prems(2) that(2) by simp
    have a2: "ahead st2 (e2 @ 34 # rest)"
      using ahead_append [OF a1] by (simp add: st2_def ahead_def)
    have "double_loop ind st a b = double_loop ind st2 (position st2) (position st2)"
      by (rule double_loop_escaped [OF that(1) a1 prems(4,5,6,3) st2_def])
    also have "\<dots> = Inr (True, st2\<lparr>result := YStr ((r @ p @ t) @ [] @ s'), position := position st2 + length e2 + 1\<rparr>)"
      using prems(7) by (intro IH a2) (simp_all add: st2_def segment_nat)
    finally show ?thesis
      by (simp add: st2_def that(2,3))
  qed
  show ?case
  proof (cases "is_pair (c # s)")
    case True
    then obtain d s' where s: "s = d # s'"
      by (auto simp: is_pair_def split: list.splits)
    obtain e1 e2 where e: "encodeHex ((uint c - 55296) * 1024 + uint d - 56320 + 65536) = Inr e1"
      "escapeString s' = Inr e2" "e = e1 @ e2"
      using prems(1) True s by (auto simp: bind_r_Inr_iff)
    have "encodeHex ((uint c - 55296) * 1024 + uint (hd s) - 56320 + 65536) = Inr e1" "escapeString (tl s) = Inr e2"
      using e s by simp_all
    note IH = 2(1) [OF True this(1) this(2)]
    show ?thesis
    proof (rule esc [OF escapes_pair [OF True [unfolded s] e(1)] e(3)])
      show "c # s = [c, d] @ tl s"
        by (simp add: s)
    qed (rule IH)
  next
    case False
    obtain e1 e2 where e: "escape_char c = Inr e1" "escapeString s = Inr e2" "e = e1 @ e2"
      using prems(1) False by (auto simp: bind_r_Inr_iff)
    note IH = 2(2) [OF False e(1) e(2)]
    from escapes_char [OF e(1)] show ?thesis
    proof
      assume pr: "e1 = [c] \<and> isPrintable (Some (uint c)) \<and> ESCAPE_SEQUENCES (uint c) = None"
      then have c: "c \<noteq> 0" "c \<noteq> 34" "c \<noteq> 92" "c \<noteq> 10" "c \<noteq> 13" "32 \<le> c"
        using printable_char by blast+
      have h: "ahead st (c # e2 @ 34 # rest)"
        using prems(2) e(3) pr by simp
      let ?st = "st\<lparr>position := Suc (position st)\<rparr>"
      have sg: "segment ?st a (position ?st) = p @ [c]"
        using segment_snoc [OF prems(4) h] prems(5) by (simp add: segment_def)
      have "double_loop ind st a b = double_loop ind ?st a (Suc (position st))"
        by (rule double_loop_char [OF h c(1-5) prems(7)])
      also have "\<dots> = Inr (True, ?st\<lparr>result := YStr (r @ (p @ [c]) @ s), position := position ?st + length e2 + 1\<rparr>)"
        by (rule IH [OF ahead_next [OF h] _ _ sg]) (use prems c(6) in simp_all)
      finally show ?thesis
        using e(3) pr by simp
    next
      assume "escapes e1 [c]"
      then show ?thesis
        using e(3)
      proof (rule esc)
        show "c # s = [c] @ s"
          by simp
      qed (rule IH)
    qed
  qed
qed


lemma encodeHex_ok: "v \<le> 4294967295 \<Longrightarrow> \<exists>e. encodeHex v = Inr e"
  by (simp add: encodeHex_def Let_def)

lemma escapeString_total: "\<exists>e. escapeString s = Inr e"
proof (induction s rule: escapeString.induct)
  case (2 c s)
  show ?case
  proof (cases "is_pair (c # s)")
    case True
    have "(x - 55296) * 1024 + y - 56320 + 65536 \<le> 4294967295" if "x < 65536" "y < 65536" for x y :: int
      using that by presburger
    from this [of "uint c" "uint (hd s)"]
    have "\<exists>e. encodeHex ((uint c - 55296) * 1024 + uint (hd s) - 56320 + 65536) = Inr e"
      by (intro encodeHex_ok) simp
    then show ?thesis
      using 2(1) [OF True] True by (auto simp: bind_r_Inr_iff)
  next
    case False
    have "\<exists>e. escape_char c = Inr e"
      using encodeHex_ok [of "uint c"] uint_code_unit_bounds [of c] by (auto simp: escape_char_def split: option.split)
    then show ?thesis
      using 2(2) [OF False] False by (auto simp: bind_r_Inr_iff)
  qed
qed simp

definition read_as :: "state \<Rightarrow> jsstring \<Rightarrow> nat \<Rightarrow> state" where
  "read_as st s n = st\<lparr>s_kind := Some Scalar, result := YStr s, position := position st + n\<rparr>"

lemma double_quoted_read:
  assumes "escapeString s = Inr e" "ahead st (34 # e @ 34 # rest)" "lineStart st \<le> position st"
  shows "readDoubleQuotedScalar st ind = Inr (True, read_as st s (length e + 2))"
proof -
  let ?st = "st\<lparr>s_kind := Some Scalar, result := YStr [], position := position st + 1\<rparr>"
  have h: "ahead ?st (e @ 34 # rest)"
    using ahead_next [OF assms(2)] by (simp add: ahead_def)
  have "double_loop ind ?st (position ?st) (position ?st) =
      Inr (True, ?st\<lparr>result := YStr ([] @ [] @ s), position := position ?st + length e + 1\<rparr>)"
    by (rule double_loop_reads [OF assms(1) h]) (use assms(3) in \<open>simp_all add: segment_nat\<close>)
  then show ?thesis
    using ahead_Cons(1) [OF assms(2)] by (simp add: readDoubleQuotedScalar_def read_as_def)
qed

section \<open>Single quotes\<close>

lemma single_loop_char:
  assumes "ahead st (c # ys)" "32 \<le> c" "c \<noteq> 39" "lineStart st < position st"
  shows "single_loop ind st a b = single_loop ind (st\<lparr>position := Suc (position st)\<rparr>) a (Suc (position st))"
proof -
  have "c \<noteq> 0" "c \<noteq> 10" "c \<noteq> 13"
    using ge_neq [OF assms(2)] by blast+
  then have "uint c \<noteq> 0" "uint c \<noteq> 39" "uint c \<noteq> 10" "uint c \<noteq> 13"
    using assms(3) by (simp_all add: unsigned_eq_0_iff uint_eq_numeral_iff)
  then show ?thesis
    using ahead_Cons(1,2) [OF assms(1)] assms(4) by (simp add: single_loop.simps [of ind st] is_EOL_def)
qed

lemma single_loop_quote:
  assumes "ahead st (39 # ys)" "a \<le> position st" "segment st a (position st) = p"
    "list_all (\<lambda>c. c = 9 \<or> 32 \<le> c) p" "result st = YStr r"
  shows "single_loop ind st a b =
    (let st2 = st\<lparr>result := YStr (r @ p), position := Suc (position st)\<rparr> in
     if here st2 = Some 39
     then single_loop ind (st2\<lparr>position := position st2 + 1\<rparr>) (position st2) (position st2 + 1)
     else Inr (True, st2))"
  using ahead_Cons(1,2) [OF assms(1)] capture_pending [OF assms(2-5)] by (simp add: single_loop.simps [of ind st] Let_def)

lemma single_loop_reads:
  "list_all (\<lambda>c. 32 \<le> c) s \<Longrightarrow> ahead st (double_quotes s @ 39 # rest) \<Longrightarrow> rest = [] \<or> hd rest \<noteq> 39 \<Longrightarrow>
   result st = YStr r \<Longrightarrow> a \<le> position st \<Longrightarrow> segment st a (position st) = p \<Longrightarrow>
   list_all (\<lambda>c. c = 9 \<or> 32 \<le> c) p \<Longrightarrow> lineStart st < position st \<Longrightarrow>
   single_loop ind st a b =
     Inr (True, st\<lparr>result := YStr (r @ p @ s), position := position st + length (double_quotes s) + 1\<rparr>)"
proof (induction s arbitrary: st r a p b)
  case Nil
  have h: "ahead st (39 # rest)"
    using Nil(2) by (simp add: double_quotes_def)
  have "here (st\<lparr>position := Suc (position st)\<rparr>) \<noteq> Some 39"
    using Nil(3) ahead_next [OF h] ahead_Cons(1) [of "st\<lparr>position := Suc (position st)\<rparr>" "hd rest" "tl rest"]
    by (cases rest) (auto simp: uint_eq_numeral_iff, simp add: ahead_def code_at_def)
  then show ?case
    using single_loop_quote [OF h Nil(5-7,4)] by (simp add: Let_def double_quotes_def)
next
  case (Cons c s)
  show ?case
  proof (cases "c = 39")
    case True
    have h: "ahead st (39 # 39 # double_quotes s @ 39 # rest)"
      using Cons(3) True by (simp add: double_quotes_def)
    let ?st1 = "st\<lparr>result := YStr (r @ p), position := Suc (position st)\<rparr>"
    let ?st2 = "st\<lparr>result := YStr (r @ p), position := Suc (Suc (position st))\<rparr>"
    have h1: "ahead ?st1 (39 # double_quotes s @ 39 # rest)"
      using ahead_next [OF h] by (simp add: ahead_def)
    have sg: "segment ?st2 (Suc (position st)) (position ?st2) = [39]"
      using segment_snoc [OF _ h1, of "Suc (position st)"] by (simp add: segment_nat)
    have "single_loop ind st a b = single_loop ind ?st2 (Suc (position st)) (Suc (Suc (position st)))"
      using single_loop_quote [OF h Cons(6-8,5), of ind b] ahead_Cons(1) [OF h1] by (simp add: Let_def)
    also have "\<dots> = Inr (True, ?st2\<lparr>result := YStr ((r @ p) @ [39] @ s),
        position := position ?st2 + length (double_quotes s) + 1\<rparr>)"
      by (rule Cons(1) [OF _ _ Cons(4) _ _ sg])
        (use Cons(2,9) ahead_next [OF h1] in \<open>simp_all add: ahead_def\<close>)
    finally show ?thesis
      using True by (simp add: double_quotes_def)
  next
    case False
    have h: "ahead st (c # double_quotes s @ 39 # rest)"
      using Cons(3) False by (simp add: double_quotes_def)
    let ?st = "st\<lparr>position := Suc (position st)\<rparr>"
    have sg: "segment ?st a (position ?st) = p @ [c]"
      using segment_snoc [OF Cons(6) h] Cons(7) by (simp add: segment_def)
    have "single_loop ind st a b = single_loop ind ?st a (Suc (position st))"
      by (rule single_loop_char [OF h _ False Cons(9)]) (use Cons(2) in simp)
    also have "\<dots> = Inr (True, ?st\<lparr>result := YStr (r @ (p @ [c]) @ s),
        position := position ?st + length (double_quotes s) + 1\<rparr>)"
      by (rule Cons(1) [OF _ ahead_next [OF h] Cons(4) _ _ sg]) (use Cons(2,5,6,8,9) in simp_all)
    finally show ?thesis
      using False by (simp add: double_quotes_def)
  qed
qed

lemma single_quoted_read:
  assumes "list_all (\<lambda>c. 32 \<le> c) s" "ahead st (39 # double_quotes s @ 39 # rest)" "rest = [] \<or> hd rest \<noteq> 39"
    "lineStart st \<le> position st"
  shows "readSingleQuotedScalar st ind = Inr (True, read_as st s (length (double_quotes s) + 2))"
proof -
  let ?st = "st\<lparr>s_kind := Some Scalar, result := YStr [], position := position st + 1\<rparr>"
  have h: "ahead ?st (double_quotes s @ 39 # rest)"
    using ahead_next [OF assms(2)] by (simp add: ahead_def)
  have "single_loop ind ?st (position ?st) (position ?st) =
      Inr (True, ?st\<lparr>result := YStr ([] @ [] @ s), position := position ?st + length (double_quotes s) + 1\<rparr>)"
    by (rule single_loop_reads [OF assms(1) h assms(3)]) (use assms(4) in \<open>simp_all add: segment_nat\<close>)
  then show ?thesis
    using ahead_Cons(1) [OF assms(2)] by (simp add: readSingleQuotedScalar_def read_as_def)
qed


section \<open>Plain scalars\<close>

definition plain_safe :: "code_unit \<Rightarrow> bool" where
  "plain_safe c \<longleftrightarrow> isPlainSafe (Some (uint c))"

lemma plain_safe_char:
  assumes "plain_safe c"
  shows "32 \<le> c" "\<not> is_EOL (Some (uint c))" "uint c \<noteq> 0" "uint c \<noteq> 58" "uint c \<noteq> 35" "\<not> is_FLOW_INDICATOR (Some (uint c))"
proof -
  show ge: "32 \<le> c"
    using assms by (intro printable_ge) (simp add: plain_safe_def isPlainSafe_def)
  then have "32 \<le> uint c"
    by (simp add: word_le_def)
  then show "\<not> is_EOL (Some (uint c))" "uint c \<noteq> 0"
    by (auto simp: is_EOL_def)
  show "uint c \<noteq> 58" "uint c \<noteq> 35" "\<not> is_FLOW_INDICATOR (Some (uint c))"
    using assms by (auto simp: plain_safe_def isPlainSafe_def is_FLOW_INDICATOR_def)
qed

lemma plain_loop_char:
  assumes "ahead st (c # ys)" "plain_safe c" "lineStart st < position st \<or> \<not> testDocumentSeparator st"
  shows "plain_loop w ind st a b False l =
    plain_loop w ind (st\<lparr>position := Suc (position st)\<rparr>) a (if c = 32 then b else Suc (position st)) False l"
proof -
  note c = plain_safe_char [OF assms(2)]
  have "\<not> plain_stop w st"
    using ahead_Cons(1) [OF assms(1)] c(4-6) assms(3) by (auto simp: plain_stop_def Let_def)
  moreover have "is_WHITE_SPACE (Some (uint c)) \<longleftrightarrow> c = 32"
    using c(1) by (auto simp: is_WHITE_SPACE_def uint_eq_numeral_iff word_le_def)
  ultimately show ?thesis
    using ahead_Cons(1,2) [OF assms(1)] c(2,3) by (simp add: plain_loop.simps [of w ind st] flush_pending_def)
qed

lemma plain_loop_rest:
  "list_all plain_safe s \<Longrightarrow> s = [] \<and> b = position st \<or> s \<noteq> [] \<and> last s \<noteq> 32 \<Longrightarrow> ahead st (s @ rest) \<Longrightarrow> lineStart st < position st \<Longrightarrow>
   plain_loop w ind st a b False l =
   plain_loop w ind (st\<lparr>position := position st + length s\<rparr>) a (position st + length s) False l"
proof (induction s arbitrary: st b)
  case (Cons c s)
  let ?st = "st\<lparr>position := Suc (position st)\<rparr>"
  have h: "ahead st (c # s @ rest)"
    using Cons(4) by simp
  have "plain_loop w ind st a b False l = plain_loop w ind ?st a (if c = 32 then b else Suc (position st)) False l"
    using Cons(2,5) by (intro plain_loop_char [OF h]) simp_all
  also have "\<dots> = plain_loop w ind (?st\<lparr>position := position ?st + length s\<rparr>) a (position ?st + length s) False l"
    by (rule Cons(1)) (use Cons(2,3,5) ahead_next [OF h] in \<open>auto split: if_splits\<close>)
  finally show ?case
    by simp
qed auto

lemma printable_units:
  assumes "isPrintable (Some (uint c))"
  shows "\<not> control_unit c" "\<not> lead_unit c" "\<not> trail_unit c"
proof -
  have r: "32 \<le> uint c \<and> uint c \<le> 126 \<or> 161 \<le> uint c \<and> uint c \<le> 55295 \<or> 57344 \<le> uint c \<and> uint c \<le> 65533"
    using assms uint_code_unit_bounds [of c] by (auto simp: isPrintable_def)
  then show "\<not> control_unit c"
    by (auto simp: control_unit_def word_le_def word_uint_eq_iff)
  show "\<not> lead_unit c" "\<not> trail_unit c"
    using r by (auto simp: lead_unit_def trail_unit_def word_le_def)
qed

lemma plain_printable: "list_all plain_safe s \<Longrightarrow> \<not> non_printable b s"
proof (induction s arbitrary: b)
  case (Cons c s)
  then have "isPrintable (Some (uint c))"
    by (simp add: plain_safe_def isPlainSafe_def)
  from printable_units [OF this] show ?case
    using Cons by simp
qed simp


section \<open>White space\<close>

definition after_break :: "state \<Rightarrow> state" where
  "after_break st = st\<lparr>position := Suc (position st), line := Suc (line st), lineStart := Suc (position st), lineIndent := 0\<rparr>"

lemma after_break_order:
  "after_break st = st\<lparr>line := Suc (line st), lineStart := Suc (position st), lineIndent := 0, position := Suc (position st)\<rparr>"
  by (simp add: after_break_def)

lemma advance_none: "ahead st (c # xs) \<Longrightarrow> \<not> p c \<Longrightarrow> advance p (input st) (position st) = position st"
  by (simp add: advance_def ahead_def)

lemma skip_none:
  assumes "ahead st (c # xs)" "c \<notin> {9, 10, 13, 32, 35}"
  shows "skip_loop allow st n = Inr (n, st)"
proof -
  have a: "advance (\<lambda>c. c = 9 \<or> c = 32) (input st) (position st) = position st"
    by (rule advance_none [OF assms(1)]) (use assms(2) in auto)
  have c: "here st \<noteq> Some 35" "\<not> is_EOL (here st)"
    using ahead_Cons(1) [OF assms(1)] assms(2) by (auto simp: is_EOL_def uint_eq_numeral_iff)
  then show ?thesis
    by (subst skip_loop.simps) (simp add: a skip_comment_def)
qed

lemma skip_break:
  assumes "ahead st [10, 0]"
  shows "skip_loop allow st n = Inr (Suc n, after_break st)"
proof -
  have h: "here st = Some 10"
    using ahead_Cons(1) [OF assms] by simp
  have a: "advance (\<lambda>c. c = 9 \<or> c = 32) (input st) (position st) = position st"
    by (rule advance_none [OF assms]) simp
  have n: "ahead (after_break st) [0]"
    using ahead_next [OF assms] by (simp add: ahead_def after_break_def)
  have b: "advance (\<lambda>c. c = 32) (input st) (Suc (position st)) = Suc (position st)"
    using advance_none [OF n, of "\<lambda>c. c = 32"] by (simp add: after_break_def)
  have "skip_loop allow st n = skip_loop allow (after_break st) (n + 1)"
    by (subst skip_loop.simps) (simp add: h a b skip_comment_def readLineBreak_def is_EOL_def after_break_order Let_def)
  also have "\<dots> = Inr (n + 1, after_break st)"
    by (rule skip_none [OF n]) simp
  finally show ?thesis
    by simp
qed

lemma skipSeparationSpace_none:
  assumes "ahead st (c # xs)" "c \<notin> {9, 10, 13, 32, 35}"
  shows "skipSeparationSpace st allow ind = Inr (0, st)"
  by (simp add: skipSeparationSpace_def skip_none [OF assms])

lemma skipSeparationSpace_break:
  assumes "ahead st [10, 0]"
  shows "skipSeparationSpace st allow (- 1) = Inr (1, after_break st)"
  by (simp add: skipSeparationSpace_def skip_break [OF assms])

lemma after_break_ahead: "ahead st [10, 0] \<Longrightarrow> ahead (after_break st) [0]"
  using ahead_next [of st 10 "[0]"] by (simp add: ahead_def after_break_def)

text \<open>A plain scalar at the end of the input.\<close>

lemma plain_read_end:
  assumes "list_all plain_safe s" "s \<noteq> []" "last s \<noteq> 32" "\<not> plain_first_excluded (Some (uint (hd s)))"
    "uint (hd s) \<noteq> 63" "uint (hd s) \<noteq> 45" "ahead st (s @ [10, 0])" "lineStart st \<le> position st"
    "lineStart st < position st \<or> \<not> testDocumentSeparator st" "ind \<le> 0"
  shows "readPlainScalar st ind False = Inr (True, after_break (read_as st s (length s)))"
proof -
  obtain c s' where s: "s = c # s'"
    using assms(2) by (cases s) auto
  let ?st = "st\<lparr>s_kind := Some Scalar, result := YStr []\<rparr>"
  let ?st1 = "?st\<lparr>position := Suc (position st)\<rparr>"
  let ?st2 = "?st\<lparr>position := position st + length s\<rparr>"
  have h: "ahead ?st (c # s' @ [10, 0])"
    using assms(7) by (simp add: s)
  have c: "c \<noteq> 32"
    using assms(4) by (auto simp: s plain_first_excluded_def is_WS_OR_EOL_def)
  have sep: "lineStart ?st < position ?st \<or> \<not> testDocumentSeparator ?st"
    using assms(9) by (simp add: testDocumentSeparator_def Let_def)
  have "plain_loop False ind ?st (position st) (position st) False 0 =
      plain_loop False ind ?st1 (position st) (Suc (position st)) False 0"
    using plain_loop_char [OF h _ sep] assms(1) c by (simp add: s)
  also have "\<dots> = plain_loop False ind (?st1\<lparr>position := position ?st1 + length s'\<rparr>) (position st)
      (position ?st1 + length s') False 0"
    by (rule plain_loop_rest) (use assms(1,3,8) ahead_next [OF h] in \<open>auto simp: s split: if_splits\<close>)
  also have "\<dots> = plain_loop False ind ?st2 (position st) (position st + length s) False 0"
    by (simp add: s)
  also have "\<dots> = Inr (after_break ?st2, position st, position st + length s)"
  proof -
    have e: "ahead ?st2 [10, 0]"
      using ahead_append [of ?st s "[10, 0]"] assms(7) by simp
    have "lineStart st < position st + length s"
      using assms(8) by (simp add: s)
    then have ne: "\<not> plain_stop False ?st2"
      using ahead_Cons(1) [OF e] by (auto simp: plain_stop_def Let_def)
    have n: "ahead (after_break ?st2) [0]"
      by (rule after_break_ahead [OF e])
    have "plain_loop False ind ?st2 (position st) (position st + length s) False 0 =
        plain_loop False ind (after_break ?st2) (position st) (position st + length s) True (line ?st2)"
      using ahead_Cons(1,2) [OF e] ne skipSeparationSpace_break [OF e, of False] assms(10)
      by (subst plain_loop.simps) (simp add: is_EOL_def after_break_def)
    also have "\<dots> = Inr (after_break ?st2, position st, position st + length s)"
      using ahead_Cons(1,2) [OF n] by (subst plain_loop.simps) simp
    finally show ?thesis .
  qed
  finally have l: "plain_loop False ind ?st (position st) (position st) False 0 =
      Inr (after_break ?st2, position st, position st + length s)" .
  have "segment (after_break ?st2) (position st) (position st + length s) = s"
    using assms(7) by (simp add: segment_nat after_break_def ahead_def)
  then have "captureSegment (after_break ?st2) (position st) (position st + length s) False =
      Inr (after_break (read_as st s (length s)))"
    using plain_printable [OF assms(1), of False] assms(2)
    by (simp add: captureSegment_def append_result_def after_break_def read_as_def)
  then show ?thesis
    using l assms(2,4-6) ahead_Cons(1) [OF h] s
    by (simp add: readPlainScalar_def Let_def read_as_def after_break_def)
qed


section \<open>A scalar as a document\<close>

text \<open>The first character of a scalar's text in the plain and in the quoted styles.\<close>

definition starts_scalar :: "code_unit \<Rightarrow> bool" where
  "starts_scalar c \<longleftrightarrow> uint c \<notin> {0, 9, 10, 13, 32, 33, 35, 37, 38, 45, 58, 63, 91, 123}"

lemma starts_scalarD:
  assumes "starts_scalar c" "ahead st (c # xs)"
  shows "c \<notin> {9, 10, 13, 32, 35}" "here st \<noteq> Some 0" "here st \<noteq> Some 33" "here st \<noteq> Some 37" "here st \<noteq> Some 38"
    "here st \<noteq> Some 45" "here st \<noteq> Some 58" "here st \<noteq> Some 63" "here st \<noteq> Some 91" "here st \<noteq> Some 123"
proof -
  show "c \<notin> {9, 10, 13, 32, 35}"
    using assms(1) by (auto simp: starts_scalar_def)
qed (use assms(1) ahead_Cons(1) [OF assms(2)] in \<open>auto simp: starts_scalar_def\<close>)

lemma property_loop_none:
  assumes "here st \<noteq> Some 33" "here st \<noteq> Some 38" "\<not> length (input st) \<le> position st"
  shows "property_loop st ind bs nl abc z = Inr (st, nl, abc, z)"
  using assms by (subst property_loop.simps) (simp add: read_property_def readTagProperty_def readAnchorProperty_def)

definition reset :: "state \<Rightarrow> state" where
  "reset st = st\<lparr>s_tag := None, anchor := None, s_kind := None, result := YNull\<rparr>"

lemma reset_ahead [simp]: "ahead (reset st) xs = ahead st xs"
  by (simp add: reset_def ahead_def)

lemma compose_flow:
  assumes "ahead st (c # xs)" "starts_scalar c" "read_scalar False 0 False (reset st) = Inr (True, st1)"
    "anchor st1 = None" "resolve_tag st1 = Inr st1"
  shows "composeNode (Suc d) st 0 FLOW_OUT False True = Inr (True, st1)"
proof -
  have r: "ahead (reset st) (c # xs)"
    using assms(1) by simp
  note h = starts_scalarD [OF assms(2) r]
  have "property_loop (reset st) 0 False False False 1 = Inr (reset st, False, False, 1)"
    by (rule property_loop_none [OF h(3,5) ahead_Cons(2) [OF r]])
  moreover have "read_content (composeNode d) (reset st) 0 FLOW_OUT False 1 = Inr (True, st1)"
    using h(9,10) assms(3,4)
    by (simp add: read_content_def or_read_def no_read_def readFlowCollection_def is_block_def set_anchor_def)
  ultimately show ?thesis
    using assms(5) by (simp add: compose_with_def seek_node_def reset_def [symmetric] is_block_def)
qed

definition grown :: "state \<Rightarrow> state" where
  "grown st = (reset st)\<lparr>heap := (heap st @ [YArr []]) @ [YMap []]\<rparr>"

lemma grown_ahead [simp]: "ahead (grown st) xs = ahead st xs"
  by (simp add: grown_def reset_def ahead_def)

lemma implicit_key_none:
  assumes "ahead st [10, 0] \<or> ahead st [0]" "\<not> mv_detected v"
  shows "implicit_key st a l t an v = Inr (Return (st\<lparr>s_tag := t, anchor := an\<rparr>))"
proof -
  from assms(1) obtain c xs where h: "ahead st (c # xs)" "c = 10 \<or> c = 0"
    by blast
  have "advance (\<lambda>c. c = 9 \<or> c = 32) (input st) (position st) = position st"
    by (rule advance_none [OF h(1)]) (use h(2) in auto)
  moreover have "here st \<noteq> Some 58"
    using ahead_Cons(1) [OF h(1)] h(2) by auto
  ultimately show ?thesis
    using assms(2) by (simp add: implicit_key_def Let_def)
qed

lemma compose_block:
  assumes "ahead st (c # xs)" "starts_scalar c"
    "composeNode d (grown st) 0 FLOW_OUT False True = Inr (True, st1)" "ahead st1 [10, 0] \<or> ahead st1 [0]"
  shows "composeNode (Suc d) st (- 1) BLOCK_OUT False True = Inr (True, st1\<lparr>s_tag := None, anchor := None\<rparr>)"
proof -
  have r: "ahead (reset st) (c # xs)" and g: "ahead (grown st) (c # xs)"
    using assms(1) by simp_all
  note h = starts_scalarD [OF assms(2) r] and hg = starts_scalarD [OF assms(2) g]
  let ?st1 = "(reset st)\<lparr>heap := heap st @ [YArr []]\<rparr>"
  have p: "property_loop (reset st) (- 1) True False True 1 = Inr (reset st, False, True, 1)"
    by (rule property_loop_none [OF h(3,5) ahead_Cons(2) [OF r]])
  have s: "readBlockSequence (composeNode d) (reset st) i = Inr (False, ?st1)" for i
    using h(6) by (simp add: readBlockSequence_def alloc_anchored_def Let_def block_fuel_def reset_def)
  have k: "read_key (composeNode d) (grown st) 0 a None None no_vars =
      Inr (Return (st1\<lparr>s_tag := None, anchor := None\<rparr>))" for a
    using hg(7,8) assms(3) implicit_key_none [OF assms(4), of no_vars] by (simp add: read_key_def no_vars_def)
  have m: "readBlockMapping (composeNode d) ?st1 i 0 = Inr (True, st1\<lparr>s_tag := None, anchor := None\<rparr>)" for i
  proof -
    have al: "alloc_anchored ?st1 (YMap []) = (grown st, length (heap st @ [YArr []]))"
      by (simp add: alloc_anchored_def Let_def reset_def grown_def)
    have "map_loop (composeNode d) (block_fuel ?st1) i 0 (length (heap st @ [YArr []])) None None (grown st) no_vars =
        Inr (Return (st1\<lparr>s_tag := None, anchor := None\<rparr>))"
      using hg(2) k by (simp add: block_fuel_def)
    then show ?thesis
      unfolding readBlockMapping_def al Let_def by (simp add: reset_def)
  qed
  have "read_content (composeNode d) (reset st) (- 1) BLOCK_OUT True 1 = Inr (True, st1\<lparr>s_tag := None, anchor := None\<rparr>)"
    using s m by (simp add: read_content_def or_read_def is_block_def)
  then show ?thesis
    using p by (simp add: compose_with_def seek_node_def reset_def [symmetric] is_block_def resolve_tag_def)
qed

text \<open>A document of one node that ends with the input.\<close>

definition fresh :: "state \<Rightarrow> state" where
  "fresh st = st\<lparr>version := None, checkLineBreaks := legacy st, tagMap := [], anchorMap := []\<rparr>"

lemma fresh_ahead [simp]: "ahead (fresh st) xs = ahead st xs"
  by (simp add: fresh_def ahead_def)

lemma ahead_length: "ahead st (c # xs) \<Longrightarrow> length (input st) = position st + length (c # xs)"
  by (auto simp: ahead_def dest: arg_cong [where f = length])

lemma node_end:
  assumes "ahead st [10, 0] \<or> ahead st [0]"
  shows "\<exists>n st'. skipSeparationSpace st True (- 1) = Inr (n, st') \<and> ahead st' [0] \<and> len st' = len st \<and>
    result st' = result st \<and> heap st' = heap st \<and> documents st' = documents st \<and> input st' = input st"
  using assms
proof
  assume a: "ahead st [10, 0]"
  show ?thesis
    using skipSeparationSpace_break [OF a, of True] after_break_ahead [OF a] by (simp add: after_break_def)
next
  assume a: "ahead st [0]"
  show ?thesis
    using skipSeparationSpace_none [OF a, of True] a by simp
qed

lemma document_of_node:
  assumes "ahead st (c # xs)" "starts_scalar c" "lineIndent st = 0"
    and comp: "composeNode d (fresh st) (- 1) BLOCK_OUT False True = Inr (True, st2)"
    and st2: "ahead st2 [10, 0] \<or> ahead st2 [0]" "documents st2 = documents st" "len st2 = len st"
      "length (input st2) = len st + 1"
  shows "\<exists>st'. readDocument d st = Inr st' \<and> documents st' = documents st @ [result st2] \<and>
    heap st' = heap st2 \<and> len st' = len st \<and> len st \<le> position st'"
proof -
  have h: "ahead (fresh st) (c # xs)"
    using assms(1) by simp
  note c = starts_scalarD [OF assms(2) h]
  have sk: "skipSeparationSpace (fresh st) True (- 1) = Inr (0, fresh st)"
    by (rule skipSeparationSpace_none [OF h c(1)])
  have dl: "directive_loop (fresh st) False = Inr (fresh st, False)"
    using c(2,4) sk by (subst directive_loop.simps) simp
  have ds: "document_start (fresh st) False = Inr (fresh st)"
    using c(6) by (simp add: document_start_def)
  obtain n st3 where st3: "skipSeparationSpace st2 True (- 1) = Inr (n, st3)" "ahead st3 [0]" "len st3 = len st2"
    "result st3 = result st2" "heap st3 = heap st2" "documents st3 = documents st2" "input st3 = input st2"
    using node_end [OF st2(1)] by blast
  define st4 where "st4 = (if checkLineBreaks st3 \<and> non_ascii_line_break (segment st3 (position st) (position st3))
    then throwWarning st3 (jstr ''non-ASCII line breaks are interpreted as content'') else st3)"
  define st5 where "st5 = st4\<lparr>documents := documents st4 @ [result st4]\<rparr>"
  have st5: "ahead st5 [0]" "position st5 = len st" "len st5 = len st" "heap st5 = heap st2"
    "documents st5 = documents st @ [result st2]"
    using st3 st2 ahead_length [OF st3(2)] by (simp_all add: st5_def st4_def throwWarning_def ahead_def)
  have "here st5 = Some 0"
    using ahead_Cons(1) [OF st5(1)] by simp
  then have "document_end st5 = Inr st5"
    using st5 by (simp add: document_end_def testDocumentSeparator_def Let_def)
  moreover have "lineIndent (fresh st) = 0"
    using assms(3) by (simp add: fresh_def)
  ultimately have "readDocument d st = Inr st5"
    using dl sk ds comp st3(1) unfolding readDocument_def fresh_def [symmetric]
    by (simp add: Let_def st4_def [symmetric] st5_def [symmetric] del: composeNode.simps)
  then show ?thesis
    using st5 by simp
qed

lemma document_of_scalar:
  assumes "ahead st (t @ [10, 0])" "t = c # t'" "starts_scalar c" "lineIndent st = 0"
    "len st = position st + length t + 1"
    and rd: "\<And>s0. ahead s0 (t @ [10, 0]) \<Longrightarrow> position s0 = position st \<Longrightarrow> lineStart s0 = lineStart st \<Longrightarrow>
       implicitTypes s0 = implicitTypes st \<Longrightarrow> s_tag s0 = None \<Longrightarrow>
       \<exists>st1 k tg. read_scalar False 0 False s0 = Inr (True, st1) \<and> resolve_tag st1 = Inr st1 \<and>
         (st1 = (read_as s0 s (length t))\<lparr>s_kind := k, s_tag := tg\<rparr> \<or>
          st1 = (after_break (read_as s0 s (length t)))\<lparr>s_kind := k, s_tag := tg\<rparr>)"
  shows "\<exists>st'. readDocument (Suc (Suc d)) st = Inr st' \<and> documents st' = documents st @ [YStr s] \<and>
    heap st' = heap st @ [YArr [], YMap []] \<and> len st' = len st \<and> len st \<le> position st'"
proof -
  have h: "ahead (fresh st) (c # t' @ [10, 0])"
    using assms(1,2) by simp
  define s0 where "s0 = reset (grown (fresh st))"
  have s0: "ahead s0 (t @ [10, 0])" "position s0 = position st" "len s0 = len st" "documents s0 = documents st"
    "heap s0 = heap st @ [YArr [], YMap []]" "anchor s0 = None"
    using assms(1) by (simp_all add: s0_def grown_def reset_def fresh_def ahead_def)
  obtain st1 k tg where st1: "read_scalar False 0 False s0 = Inr (True, st1)" "resolve_tag st1 = Inr st1"
    "st1 = (read_as s0 s (length t))\<lparr>s_kind := k, s_tag := tg\<rparr> \<or>
     st1 = (after_break (read_as s0 s (length t)))\<lparr>s_kind := k, s_tag := tg\<rparr>"
    using rd [of s0] s0(1) by (auto simp: s0_def grown_def reset_def fresh_def)
  have e: "ahead (read_as s0 s (length t)) [10, 0]"
    using ahead_append [OF s0(1)] by (simp add: read_as_def ahead_def)
  have st1': "ahead st1 [10, 0] \<or> ahead st1 [0]" "anchor st1 = None" "documents st1 = documents st" "len st1 = len st"
    "input st1 = input s0" "result st1 = YStr s" "heap st1 = heap st @ [YArr [], YMap []]"
    using st1(3) e after_break_ahead [OF e] s0(3-6) by (auto simp: ahead_def read_as_def after_break_def)
  have fl: "composeNode (Suc d) (grown (fresh st)) 0 FLOW_OUT False True = Inr (True, st1)"
    using st1(1) by (intro compose_flow [OF _ assms(3) _ st1'(2) st1(2)]) (use h in \<open>simp_all add: s0_def\<close>)
  let ?st2 = "st1\<lparr>s_tag := None, anchor := None\<rparr>"
  have bl: "composeNode (Suc (Suc d)) (fresh st) (- 1) BLOCK_OUT False True = Inr (True, ?st2)"
    by (rule compose_block [OF h assms(3) fl st1'(1)])
  have "length (input s0) = len st + 1"
    using ahead_length [of s0 c "t' @ [10, 0]"] s0(1,2) assms(2,5) by simp
  then show ?thesis
    using document_of_node [OF _ assms(3,4) bl, of "t' @ [10, 0]"] assms(1,2) st1' by (simp add: ahead_def)
qed

text \<open>
  \<open>scalar_reads ev t s\<close>: the readers of flow scalars take the whole text \<open>t\<close> of a document for
  the string \<open>s\<close>.
\<close>

definition scalar_reads :: "ytype list \<Rightarrow> jsstring \<Rightarrow> jsstring \<Rightarrow> bool" where
  "scalar_reads ts t s \<longleftrightarrow>
     (\<forall>s0. ahead s0 (t @ [10, 0]) \<and> position s0 = 0 \<and> lineStart s0 = 0 \<and> implicitTypes s0 = ts \<and> s_tag s0 = None \<longrightarrow>
        (\<exists>st1 k tg. read_scalar False 0 False s0 = Inr (True, st1) \<and> resolve_tag st1 = Inr st1 \<and>
           (st1 = (read_as s0 s (length t))\<lparr>s_kind := k, s_tag := tg\<rparr> \<or>
            st1 = (after_break (read_as s0 s (length t)))\<lparr>s_kind := k, s_tag := tg\<rparr>)))"

lemma load_of_document:
  assumes "t = c # t'" "starts_scalar c" "c \<noteq> 0xFEFF"
    and doc: "\<And>st d. ahead st (t @ [10, 0]) \<Longrightarrow> position st = 0 \<Longrightarrow> lineStart st = 0 \<Longrightarrow> lineIndent st = 0 \<Longrightarrow>
      len st = length t + 1 \<Longrightarrow> implicitTypes st = compiledImplicit DEFAULT_SAFE_SCHEMA \<Longrightarrow> documents st = [] \<Longrightarrow>
      heap st = [] \<Longrightarrow> \<exists>st'. readDocument (Suc (Suc d)) st = Inr st' \<and> documents st' = [v] \<and> heap st' = h' \<and>
      len st' = len st \<and> len st \<le> position st'"
  shows "safeLoad ev (t @ [10]) no_options = Inr (v, h')"
proof -
  define st0 where "st0 = State ev (t @ [10]) (safe_options no_options)"
  define st where "st = st0\<lparr>input := t @ [10, 0], position := 0, lineIndent := 0\<rparr>"
  have st: "ahead st (t @ [10, 0])" "position st = 0" "lineStart st = 0" "lineIndent st = 0" "len st = length t + 1"
    "implicitTypes st = compiledImplicit DEFAULT_SAFE_SCHEMA" "documents st = []" "heap st = []"
    by (simp_all add: st_def st0_def State_def Let_def ahead_def safe_options_def no_options_def)
  have c: "c \<noteq> 32"
    using assms(2) by (auto simp: starts_scalar_def)
  have n: "normalize_input (t @ [10]) = t @ [10]"
    using assms(1,3) by (simp add: normalize_input_def)
  obtain st' where st': "readDocument (Suc (Suc (2 * length (input st)))) st = Inr st'" "documents st' = [v]"
    "heap st' = h'" "len st' = len st" "len st \<le> position st'"
    using doc [OF st] by blast
  have dl: "document_loop (length (input st) + 1) (node_depth st) st = Inr st'"
    using st' st(2,5) assms(1) by (simp add: node_depth_def st_def)
  have "advance (\<lambda>c. c = 32) (t @ [10, 0]) 0 = 0"
    using advance_none [OF st(1) [unfolded assms(1), simplified], of "\<lambda>c. c = 32"] c st(2) assms(1) by (simp add: st_def)
  then have "loadDocuments ev (t @ [10]) (safe_options no_options) = Inr st'"
    using dl unfolding loadDocuments_def n Let_def st0_def [symmetric]
    by (simp add: st_def st0_def State_def Let_def)
  then show ?thesis
    using st' by (simp add: safeLoad_def load_def)
qed

lemma load_scalar:
  assumes "t = c # t'" "starts_scalar c" "c \<noteq> 0xFEFF" "scalar_reads (compiledImplicit DEFAULT_SAFE_SCHEMA) t s"
  shows "safeLoad ev (t @ [10]) no_options = Inr (YStr s, [YArr [], YMap []])"
proof (rule load_of_document [OF assms(1-3)])
  fix st d
  assume st: "ahead st (t @ [10, 0])" "position st = 0" "lineStart st = 0" "lineIndent st = 0" "len st = length t + 1"
    "implicitTypes st = compiledImplicit DEFAULT_SAFE_SCHEMA" "documents st = []" "heap st = []"
  have "\<exists>st'. readDocument (Suc (Suc d)) st = Inr st' \<and> documents st' = documents st @ [YStr s] \<and>
    heap st' = heap st @ [YArr [], YMap []] \<and> len st' = len st \<and> len st \<le> position st'"
    by (rule document_of_scalar [OF st(1) assms(1,2) st(4)]) (use st assms(4) in \<open>auto simp: scalar_reads_def\<close>)
  then show "\<exists>st'. readDocument (Suc (Suc d)) st = Inr st' \<and> documents st' = [YStr s] \<and> heap st' = [YArr [], YMap []] \<and>
      len st' = len st \<and> len st \<le> position st'"
    using st(7,8) by simp
qed

lemma double_reads: "escapeString s = Inr e \<Longrightarrow> scalar_reads ts (34 # e @ [34]) s"
proof (unfold scalar_reads_def, intro allI impI)
  fix s0
  assume e: "escapeString s = Inr e"
    and h: "ahead s0 ((34 # e @ [34]) @ [10, 0]) \<and> position s0 = 0 \<and> lineStart s0 = 0 \<and> implicitTypes s0 = ts \<and> s_tag s0 = None"
  have h0: "ahead s0 (34 # e @ 34 # [10, 0])"
    using h by simp
  have "readDoubleQuotedScalar s0 0 = Inr (True, read_as s0 s (length e + 2))"
    by (rule double_quoted_read [OF e h0]) (use h in simp)
  then have "read_scalar False 0 False s0 = Inr (True, read_as s0 s (length e + 2))"
    using ahead_Cons(1) [OF h0] by (simp add: read_scalar_def or_read_def no_read_def readSingleQuotedScalar_def)
  moreover have "resolve_tag (read_as s0 s (length e + 2)) = Inr (read_as s0 s (length e + 2))"
    using h by (simp add: resolve_tag_def read_as_def)
  ultimately show "\<exists>st1 k tg. read_scalar False 0 False s0 = Inr (True, st1) \<and> resolve_tag st1 = Inr st1 \<and>
           (st1 = (read_as s0 s (length (34 # e @ [34])))\<lparr>s_kind := k, s_tag := tg\<rparr> \<or>
            st1 = (after_break (read_as s0 s (length (34 # e @ [34]))))\<lparr>s_kind := k, s_tag := tg\<rparr>)"
    using h by (intro exI [of _ "read_as s0 s (length e + 2)"] exI [of _ "Some Scalar"] exI [of _ None])
      (auto simp: read_as_def)
qed

lemma single_reads: "list_all (\<lambda>c. 32 \<le> c) s \<Longrightarrow> scalar_reads ts (39 # double_quotes s @ [39]) s"
proof (unfold scalar_reads_def, intro allI impI)
  fix s0
  let ?t = "39 # double_quotes s @ [39]" and ?st = "read_as s0 s (length (double_quotes s) + 2)"
  assume s: "list_all (\<lambda>c. 32 \<le> c) s"
    and h: "ahead s0 (?t @ [10, 0]) \<and> position s0 = 0 \<and> lineStart s0 = 0 \<and> implicitTypes s0 = ts \<and> s_tag s0 = None"
  have h0: "ahead s0 (39 # double_quotes s @ 39 # [10, 0])"
    using h by simp
  have "readSingleQuotedScalar s0 0 = Inr (True, ?st)"
    by (rule single_quoted_read [OF s h0]) (use h in simp_all)
  then have "read_scalar False 0 False s0 = Inr (True, ?st)"
    by (simp add: read_scalar_def or_read_def no_read_def)
  moreover have "resolve_tag ?st = Inr ?st"
    using h by (simp add: resolve_tag_def read_as_def)
  ultimately show "\<exists>st1 k tg. read_scalar False 0 False s0 = Inr (True, st1) \<and> resolve_tag st1 = Inr st1 \<and>
           (st1 = (read_as s0 s (length ?t))\<lparr>s_kind := k, s_tag := tg\<rparr> \<or>
            st1 = (after_break (read_as s0 s (length ?t)))\<lparr>s_kind := k, s_tag := tg\<rparr>)"
    using h by (intro exI [of _ ?st] exI [of _ "Some Scalar"] exI [of _ None]) (auto simp: read_as_def)
qed

lemma safe_types:
  "set (compiledImplicit DEFAULT_SAFE_SCHEMA) \<subseteq> {yaml_null, yaml_bool, yaml_int, yaml_float, yaml_timestamp, yaml_merge}"
  "set (compiledExplicit DEFAULT_SAFE_SCHEMA) \<subseteq>
     {yaml_str, yaml_seq, yaml_map, yaml_binary, yaml_omap, yaml_pairs, yaml_set}"
  using compiled_types [of DEFAULT_SAFE_SCHEMA]
  by (auto simp: DEFAULT_SAFE_SCHEMA_def CORE_SCHEMA_def JSON_SCHEMA_def FAILSAFE_SCHEMA_def flat.simps)

lemma implicit_store_free:
  assumes "t \<in> set (compiledImplicit DEFAULT_SAFE_SCHEMA)"
  shows "resolve t h (YStr s) = resolve t h' (YStr s)"
  using assms safe_types(1)
  by (auto simp: yaml_null_def yaml_bool_def yaml_int_def yaml_float_def yaml_timestamp_def yaml_merge_def Type_def
      on_scalar_def)

lemma no_string_type:
  assumes "t \<in> set (compiledImplicit DEFAULT_SAFE_SCHEMA) \<or> t \<in> set (compiledExplicit DEFAULT_SAFE_SCHEMA)"
  shows "\<not> type_applies t (YStr s)"
  using assms safe_types
  by (auto simp: yaml_null_def yaml_bool_def yaml_int_def yaml_float_def yaml_timestamp_def yaml_merge_def Type_def
      yaml_str_def yaml_seq_def yaml_map_def yaml_binary_def yaml_omap_def yaml_pairs_def yaml_set_def
      type_applies_def isNull_def isBoolean_def isInteger_def isFloat_def isBinary_def is_date_def isObject_def)

lemma dots_ahead:
  assumes "ahead st (s @ [10, 0])" "s \<noteq> []" "hd s \<noteq> 45" "testDocumentSeparator st" "list_all plain_safe s"
  shows "\<exists>r. s = [46, 46, 46] @ r \<and> (r = [] \<or> hd r = 32)"
proof -
  let ?at = "\<lambda>k. uint ((s @ [10, 0]) ! k)"
  have u: "uint x = 46 \<longleftrightarrow> x = 46" "uint x = 45 \<longleftrightarrow> x = 45" for x :: code_unit
    by (simp_all add: word_uint_eq_iff)
  have at: "code_at st (position st + k) = Some (?at k)" if "k < length s + 2" for k
    using ahead_code [OF assms(1)] that by simp
  have a0: "?at 0 = uint (hd s)"
    using assms(2) by (cases s) simp_all
  have t: "uint (hd s) = 46" "?at 1 = 46" "?at 2 = 46" 
    using assms(2,3,4) at [of 0] at [of 1] at [of 2] a0 u(2) [of "hd s"]
    by (auto simp: testDocumentSeparator_def Let_def neq_Nil_conv)
  have "length s \<noteq> 1" "length s \<noteq> 2"
    using t(2,3) by (auto simp: nth_append)
  then obtain x y z r where s: "s = x # y # z # r"
    using assms(2) by (metis One_nat_def Suc_1 length_Cons list.exhaust list.size(3))
  have "r = [] \<or> hd r = 32"
  proof (cases r)
    case (Cons g r')
    then have "is_WS_OR_EOL (Some (uint g)) \<or> uint g = 0"
      using assms(4) at [of 3] by (auto simp: s testDocumentSeparator_def Let_def numeral_3_eq_3 eval_nat_numeral)
    then show ?thesis
      using plain_safe_char(1-3) [of g] assms(5)
      by (auto simp: s Cons is_WS_OR_EOL_def is_EOL_def word_le_def word_uint_eq_iff)
  qed simp
  then show ?thesis
    using t by (simp add: s u)
qed

lemma plain_reads:
  assumes "list_all plain_safe s" "s \<noteq> []" "last s \<noteq> 32" "isPlainSafeFirst (Some (uint (hd s)))"
    "s \<noteq> jstr ''...''" "take 4 s \<noteq> jstr ''... ''" "list_all (\<lambda>t. \<not> resolve t h (YStr s)) (compiledImplicit DEFAULT_SAFE_SCHEMA)"
  shows "scalar_reads (compiledImplicit DEFAULT_SAFE_SCHEMA) s s"
proof (unfold scalar_reads_def, intro allI impI)
  fix s0
  assume h: "ahead s0 (s @ [10, 0]) \<and> position s0 = 0 \<and> lineStart s0 = 0 \<and>
    implicitTypes s0 = compiledImplicit DEFAULT_SAFE_SCHEMA \<and> s_tag s0 = None"
  obtain c s' where s: "s = c # s'"
    using assms(2) by (cases s) auto
  have hc: "ahead s0 (c # s' @ [10, 0])"
    using h by (simp add: s)
  have f: "uint c \<notin> {32, 9, 65279, 45, 63, 58, 44, 91, 93, 123, 125, 35, 38, 42, 33, 124, 62, 39, 34, 37, 64, 96}"
    using assms(4) by (auto simp: isPlainSafeFirst_def isWhitespace_def s)
  have p: "plain_safe c"
    using assms(1) by (simp add: s)
  have ex: "\<not> plain_first_excluded (Some (uint c))"
    using f plain_safe_char(2,3,6) [OF p] by (auto simp: plain_first_excluded_def is_WS_OR_EOL_def is_EOL_def)
  have sep: "\<not> testDocumentSeparator s0"
  proof
    assume sep: "testDocumentSeparator s0"
    have c45: "c \<noteq> 45"
      using f by auto
    obtain r where r: "s = [46, 46, 46] @ r" "r = [] \<or> hd r = 32"
      using dots_ahead [OF _ assms(2) _ sep assms(1)] h c45 by (auto simp: s)
    show False
      using r assms(5,6) by (cases r) (auto simp: jstr_def)
  qed
  let ?st = "after_break (read_as s0 s (length s))"
  have "readPlainScalar s0 0 False = Inr (True, ?st)"
    by (rule plain_read_end) (use assms(1-3) ex f h sep in \<open>auto simp: s\<close>)
  moreover have "s_tag ?st = None"
    using h by (simp add: after_break_def read_as_def)
  ultimately have "read_scalar False 0 False s0 = Inr (True, ?st\<lparr>s_tag := Some (jstr ''?'')\<rparr>)"
    using ahead_Cons(1) [OF hc] f
    by (simp add: read_scalar_def or_read_def no_read_def readSingleQuotedScalar_def readDoubleQuotedScalar_def
        read_alias_checked_def readAlias_def read_plain_tagged_def)
  moreover have "resolve_tag (?st\<lparr>s_tag := Some (jstr ''?'')\<rparr>) = Inr (?st\<lparr>s_tag := Some (jstr ''?'')\<rparr>)"
  proof -
    have "find (\<lambda>t. resolve t (heap s0) (YStr s)) (compiledImplicit DEFAULT_SAFE_SCHEMA) = None"
      using assms(7) implicit_store_free [of _ h s "heap s0"] by (auto simp: find_None_iff list_all_iff)
    then show ?thesis
      using h by (simp add: resolve_tag_def resolve_implicit_def after_break_def read_as_def jstr_def)
  qed
  ultimately show "\<exists>st1 k tg. read_scalar False 0 False s0 = Inr (True, st1) \<and> resolve_tag st1 = Inr st1 \<and>
           (st1 = (read_as s0 s (length s))\<lparr>s_kind := k, s_tag := tg\<rparr> \<or>
            st1 = (after_break (read_as s0 s (length s)))\<lparr>s_kind := k, s_tag := tg\<rparr>)"
    by (intro exI [of _ "?st\<lparr>s_tag := Some (jstr ''?'')\<rparr>"] exI [of _ "Some Scalar"] exI [of _ "Some (jstr ''?'')"])
      (auto simp: read_as_def after_break_def)
qed

section \<open>Strings through the dumper and the loader\<close>

lemma single_line_loop_Some:
  "single_line_loop s p = Some q \<Longrightarrow>
   list_all (\<lambda>c. isPrintable (Some (uint c))) s \<and> q = (p \<and> list_all plain_safe s)"
  by (induction s arbitrary: p) (auto simp: plain_safe_def split: if_splits)

lemma multi_line_loop_Some:
  "multi_line_loop t w s i v = Some v' \<Longrightarrow> 10 \<notin> set s \<Longrightarrow>
   list_all (\<lambda>c. isPrintable (Some (uint c))) s \<and> v' = v\<lparr>sv_plain := (sv_plain v \<and> list_all plain_safe s)\<rparr>"
proof (induction s arbitrary: i v)
  case (Cons c s)
  let ?v = "v\<lparr>sv_plain := (sv_plain v \<and> plain_safe c)\<rparr>"
  have c: "isPrintable (Some (uint c))" and r: "multi_line_loop t w s (i + 1) ?v = Some v'"
    using Cons(2,3) by (auto simp: plain_safe_def Let_def split: if_splits)
  show ?case
    using Cons(1) [OF r] Cons(3) c by simp
qed simp

text \<open>The text of a string with no line to break: never a block scalar.\<close>

lemma chooseScalarStyle_line:
  assumes "single \<or> 10 \<notin> set s \<and> (w = - 1 \<or> int (length s) \<le> w)"
  shows "chooseScalarStyle s single ind w amb = STYLE_DOUBLE \<or>
    list_all (\<lambda>c. isPrintable (Some (uint c))) s \<and>
    (chooseScalarStyle s single ind w amb = STYLE_SINGLE \<or>
     chooseScalarStyle s single ind w amb = STYLE_PLAIN \<and> list_all plain_safe s \<and> \<not> amb s \<and>
     isPlainSafeFirst (charCodeAt s 0) \<and> \<not> isWhitespace (charCodeAt s (int (length s) - 1)))"
proof -
  let ?p = "isPlainSafeFirst (charCodeAt s 0) \<and> \<not> isWhitespace (charCodeAt s (int (length s) - 1))"
  show ?thesis
  proof (cases "scan_style s single w ?p")
    case None
    then show ?thesis
      by (simp add: chooseScalarStyle_def Let_def)
  next
    case (Some v)
    then have "list_all (\<lambda>c. isPrintable (Some (uint c))) s" "\<not> sv_hasLineBreak v" "\<not> sv_hasFoldableLine v"
      "sv_plain v \<longleftrightarrow> ?p \<and> list_all plain_safe s"
      using assms
      by (auto simp: scan_style_def Let_def foldable_def split: if_splits
          dest!: single_line_loop_Some multi_line_loop_Some)
    then show ?thesis
      using Some by (auto simp: chooseScalarStyle_def Let_def)
  qed
qed

lemma dump_string:
  assumes "p_schema opts = None"
  shows "\<exists>st. d_store st = h \<and> d_implicitTypes st = compiledImplicit DEFAULT_SAFE_SCHEMA \<and>
    d_flowLevel st = (case p_flowLevel opts of None \<Rightarrow> - 1 | Some l \<Rightarrow> l) \<and>
    d_lineWidth st = (if p_lineWidth opts = 0 then 80 else p_lineWidth opts) \<and> 1 \<le> d_indent st \<and>
    safeDump js h (YStr s) opts = bind_r (scalar_text st s 0 False) (\<lambda>t. Inr (t @ [10]))"
proof -
  define st where "st = DumpState js h (opts\<lparr>p_schema := Some DEFAULT_SAFE_SCHEMA\<rparr>)"
  define st1 where "st1 = (if d_noRefs st then st else getDuplicateReferences (YStr s) st)"
  define st2 where "st2 = st1\<lparr>d_tag := None, d_dump := YStr s\<rparr>"
  have st2: "d_store st2 = h" "d_implicitTypes st2 = compiledImplicit DEFAULT_SAFE_SCHEMA"
    "d_explicitTypes st2 = compiledExplicit DEFAULT_SAFE_SCHEMA"
    "d_flowLevel st2 = (case p_flowLevel opts of None \<Rightarrow> - 1 | Some l \<Rightarrow> l)"
    "d_lineWidth st2 = (if p_lineWidth opts = 0 then 80 else p_lineWidth opts)" "1 \<le> d_indent st2"
    "d_tag st2 = None" "d_dump st2 = YStr s"
    by (simp_all add: st2_def st1_def st_def DumpState_def getDuplicateReferences_def Let_def inspectNodes.simps
        isObject_def)
  have "detectType st2 (YStr s) e = Inr (False, st2)" for e
  proof -
    have "find (\<lambda>t. type_applies t (YStr s)) (if e then d_explicitTypes st2 else d_implicitTypes st2) = None"
      using st2(2,3) no_string_type [of _ s] by (auto simp: find_None_iff)
    then show ?thesis
      by (simp add: detectType_def)
  qed
  then have "detect st1 (YStr s) = Inr st2"
    by (simp add: detect_def st2_def [symmetric])
  then have w: "writeNode (dump_depth h) st1 0 (YStr s) True True False =
      bind_r (scalar_text st2 s 0 False) (\<lambda>t. Inr (True, set_text st2 t))"
    using st2(7,8)
    by (cases "scalar_text st2 s 0 False")
      (simp_all add: dump_depth_def write_with_def class_of_def Let_def write_content_def writeScalar_def
        add_tag_def set_text_def)
  have "safeDump js h (YStr s) opts = bind_r (scalar_text st2 s 0 False) (\<lambda>t. Inr (t @ [10]))"
    unfolding safeDump_def dump_def Let_def assms option.case st_def [symmetric] st1_def [symmetric] w
    by (cases "scalar_text st2 s 0 False") (simp_all add: set_text_def dump_text_def)
  then show ?thesis
    using st2 by blast
qed

text \<open>The text of a string at the top level in each style, and the width its lines may have.\<close>

definition scalar_width :: "dstate \<Rightarrow> int" where
  "scalar_width st =
     (if d_lineWidth st = - 1 then - 1 else max (min (d_lineWidth st) 40) (d_lineWidth st - d_indent st))"

definition styled_text :: "dstate \<Rightarrow> jsstring \<Rightarrow> style \<Rightarrow> jsstring yres" where
  "styled_text st s y = (case y of
       STYLE_PLAIN \<Rightarrow> Inr s
     | STYLE_SINGLE \<Rightarrow> Inr (39 # double_quotes s @ [39])
     | STYLE_LITERAL \<Rightarrow> Inr ([124] @ blockHeader s (d_indent st) @ dropEndingNewline (indentString s (d_indent st)))
     | STYLE_FOLDED \<Rightarrow>
         Inr ([62] @ blockHeader s (d_indent st) @ dropEndingNewline (indentString (foldString s (scalar_width st)) (d_indent st)))
     | STYLE_DOUBLE \<Rightarrow> bind_r (escapeString s) (\<lambda>e. Inr (34 # e @ [34])))"

lemma scalar_text_style:
  assumes "s \<noteq> []" "\<not> (\<not> d_noCompatMode st \<and> s \<in> set DEPRECATED_BOOLEANS_SYNTAX)"
  shows "scalar_text st s 0 False =
    styled_text st s (chooseScalarStyle s (d_flowLevel st = 0) (d_indent st) (scalar_width st) (testImplicitResolving st))"
proof -
  have f: "(False \<or> - 1 < d_flowLevel st \<and> d_flowLevel st \<le> 0) = (d_flowLevel st = 0)" and i: "d_indent st * max 1 0 = d_indent st"
    by auto
  show ?thesis
    unfolding scalar_text_def Let_def i f scalar_width_def [symmetric] if_not_P [OF assms(1)] if_not_P [OF assms(2)]
      styled_text_def
    by (simp cong: style.case_cong)
qed

lemma scalar_text_reads:
  assumes "d_implicitTypes st = compiledImplicit DEFAULT_SAFE_SCHEMA"
    "d_flowLevel st = 0 \<or>
     10 \<notin> set s \<and> (d_lineWidth st = - 1 \<or> length s \<le> 40 \<and> 40 \<le> d_lineWidth st)"
    "s \<noteq> jstr ''...''" "take 4 s \<noteq> jstr ''... ''"
  shows "\<exists>c t'. scalar_text st s 0 False = Inr (c # t') \<and> starts_scalar c \<and> c \<noteq> 0xFEFF \<and>
    scalar_reads (compiledImplicit DEFAULT_SAFE_SCHEMA) (c # t') s"
proof -
  let ?ts = "compiledImplicit DEFAULT_SAFE_SCHEMA"
  have q: "starts_scalar 39" "starts_scalar 34"
    by (simp_all add: starts_scalar_def)
  show ?thesis
  proof (cases "s = [] \<or> \<not> d_noCompatMode st \<and> s \<in> set DEPRECATED_BOOLEANS_SYNTAX")
    case True
    have d: "double_quotes s = s" "list_all (\<lambda>c. 32 \<le> c) s"
      using True by (auto simp: DEPRECATED_BOOLEANS_SYNTAX_def double_quotes_def jstr_def)
    then have "scalar_text st s 0 False = Inr (39 # double_quotes s @ [39])"
      using True by (auto simp: scalar_text_def jstr_def)
    then show ?thesis
      using single_reads [OF d(2)] q(1) by (intro exI [of _ 39] exI [of _ "double_quotes s @ [39]"]) simp
  next
    case False
    define y where "y = chooseScalarStyle s (d_flowLevel st = 0) (d_indent st) (scalar_width st) (testImplicitResolving st)"
    have t: "scalar_text st s 0 False = styled_text st s y"
      unfolding y_def by (rule scalar_text_style) (use False in auto)
    have "d_flowLevel st = 0 \<or> 10 \<notin> set s \<and> (scalar_width st = - 1 \<or> int (length s) \<le> scalar_width st)"
      using assms(2) by (auto simp: scalar_width_def)
    from chooseScalarStyle_line [OF this, of "d_indent st" "testImplicitResolving st"]
    consider "y = STYLE_DOUBLE" | "list_all (\<lambda>c. isPrintable (Some (uint c))) s" "y = STYLE_SINGLE"
      | "y = STYLE_PLAIN" "list_all plain_safe s" "\<not> testImplicitResolving st s"
        "isPlainSafeFirst (charCodeAt s 0)" "\<not> isWhitespace (charCodeAt s (int (length s) - 1))"
      unfolding y_def [symmetric] by blast
    then show ?thesis
    proof cases
      case 1
      then show ?thesis
        using escapeString_total [of s] double_reads [of s] q(2) t
        by (auto simp: styled_text_def intro!: exI [of _ 34])
    next
      case 2
      then have "list_all (\<lambda>c. 32 \<le> c) s"
        using printable_ge by (auto simp: list_all_iff)
      then show ?thesis
        using 2(2) single_reads [of s] q(1) t by (intro exI [of _ 39] exI [of _ "double_quotes s @ [39]"]) (simp add: styled_text_def)
    next
      case 3
      obtain c s' where s: "s = c # s'"
        using False by (cases s) auto
      have f: "isPlainSafeFirst (Some (uint c))"
        using 3(4) by (simp add: charCodeAt_def s)
      have l: "last s \<noteq> 32"
        using 3(5) by (auto simp: charCodeAt_def isWhitespace_def last_conv_nth s nat_diff_distrib)
      have "scalar_reads ?ts s s"
        using 3(2,3) f l assms by (intro plain_reads [of s "d_store st"])
          (auto simp: s testImplicitResolving_def list_all_iff list_ex_iff)
      moreover have "starts_scalar c" "c \<noteq> 0xFEFF"
        using f by (auto simp: isPlainSafeFirst_def isPrintable_def isWhitespace_def starts_scalar_def)
      ultimately show ?thesis
        using t 3(1) by (simp add: s styled_text_def)
    qed
  qed
qed

section \<open>Quoted strings\<close>

definition sample_dump_options :: dump_options where
  "sample_dump_options =
     \<lparr>p_schema = None, p_indent = 0, p_skipInvalid = False, p_flowLevel = None, p_styles = None, p_sortKeys = NoSort,
      p_lineWidth = 0, p_noRefs = False, p_noCompatMode = False, p_condenseFlow = False\<rparr>"

text \<open>
  C25: Every string, with any control characters, surrogates (paired or not) and line breaks, has an
  escaped form, and the loader reads that form between double quotes back to the same string, at
  any position of any input and with any indentation, and stops right after the closing quote.
\<close>

theorem double_quoted_round_trip:
  "\<exists>e. escapeString s = Inr e \<and>
     (\<forall>st rest ind. ahead st ([34] @ e @ [34] @ rest) \<longrightarrow> lineStart st \<le> position st \<longrightarrow>
        readDoubleQuotedScalar st ind =
        Inr (True, st\<lparr>s_kind := Some Scalar, result := YStr s, position := position st + length e + 2\<rparr>))"
proof -
  obtain e where e: "escapeString s = Inr e"
    using escapeString_total by blast
  then show ?thesis
    using double_quoted_read [OF e] by (auto simp: read_as_def add.assoc)
qed

theorem double_quoted_round_trip_witness:
  "escapeString [10, 0xDC00] = Inr [92, 110, 92, 117, 68, 67, 48, 48] \<and>
   readDoubleQuotedScalar (State sample_env [34, 92, 110, 92, 117, 68, 67, 48, 48, 34, 32] no_options) 0 =
     Inr (True, (State sample_env [34, 92, 110, 92, 117, 68, 67, 48, 48, 34, 32] no_options)
            \<lparr>s_kind := Some Scalar, result := YStr [10, 0xDC00], position := 10\<rparr>)"
proof -
  have e: "escapeString [10, 0xDC00] = Inr [92, 110, 92, 117, 68, 67, 48, 48]"
    by code_simp
  let ?st = "State sample_env [34, 92, 110, 92, 117, 68, 67, 48, 48, 34, 32] no_options"
  have "ahead ?st ([34] @ [92, 110, 92, 117, 68, 67, 48, 48] @ [34] @ [32])" "lineStart ?st \<le> position ?st"
    "position ?st = 0"
    by (simp_all add: ahead_def State_def Let_def)
  moreover have "ahead st ([34] @ [92, 110, 92, 117, 68, 67, 48, 48] @ [34] @ rest) \<longrightarrow> lineStart st \<le> position st \<longrightarrow>
      readDoubleQuotedScalar st ind =
      Inr (True, st\<lparr>s_kind := Some Scalar, result := YStr [10, 0xDC00], position := position st + 8 + 2\<rparr>)" for st rest ind
    using double_quoted_round_trip [of "[10, 0xDC00]"] unfolding e by auto
  ultimately show ?thesis
    unfolding e by (auto simp del: append.simps)
qed

end
