(* ===== verification/Yaml_Block.thy ===== *)
theory Yaml_Block
  imports Yaml_Trip
begin

text \<open>Literal block scalars: what the dumper writes for a string of several lines is read back.\<close>

section \<open>Reading one line\<close>

text \<open>The states that differ in the place and the result only.\<close>

definition core :: "state \<Rightarrow> state" where
  "core st = st\<lparr>position := 0, line := 0, lineStart := 0, lineIndent := 0, result := YUndef\<rparr>"

lemma core_update [simp]:
  "core (st\<lparr>position := p\<rparr>) = core st" "core (st\<lparr>line := l\<rparr>) = core st" "core (st\<lparr>lineStart := s\<rparr>) = core st"
  "core (st\<lparr>lineIndent := i\<rparr>) = core st" "core (st\<lparr>result := r\<rparr>) = core st" "core (append_result st t) = core st"
  by (simp_all add: core_def append_result_def)

lemma ahead_move: "ahead st (xs @ ys) \<Longrightarrow> input st' = input st \<Longrightarrow> position st' = position st + length xs \<Longrightarrow> ahead st' ys"
  by (simp add: ahead_def add.commute [of "position st"] flip: drop_drop)

lemma readLineBreak_LF:
  assumes "ahead st (10 # xs)"
  shows "readLineBreak st = Inr (st\<lparr>position := Suc (position st), line := line st + 1, lineStart := Suc (position st)\<rparr>)"
  using ahead_Cons(1) [OF assms] by (simp add: readLineBreak_def)

lemma advance_run:
  assumes "ahead st (replicate n 32 @ c # xs)" "c \<noteq> 32"
  shows "advance (\<lambda>c. c = 32) (input st) (position st) = position st + n"
proof -
  have "takeWhile (\<lambda>c. c = 32) (replicate n 32 @ c # xs) = replicate n (32 :: code_unit)"
    using assms(2) by (induction n) simp_all
  then show ?thesis
    using assms(1) by (simp add: advance_def ahead_def)
qed

lemma block_step:
  assumes "here st \<noteq> Some 0" "readLineBreak st = Inr st1" "indent_width det ti (input st1) (position st1) = w"
    "st2 = st1\<lparr>lineIndent := w, position := position st1 + w\<rparr>" "ti' = (if \<not> det \<and> ti < int w then int w else ti)"
    "st3 = append_result st2 (newlines (if did then 1 + e else e))"
  shows "block_loop False ch st det ti did e m =
    (if is_EOL (here st2) then block_loop False ch st2 det ti' did (Suc e) m
     else if int w < ti' then Inr (append_result st2 (block_tail ch did e))
     else
       bind_r (seek (\<lambda>c. c = 10 \<or> c = 13 \<or> c = 0) (input st3) (position st3))
         (\<lambda>p. bind_r (captureSegment (st3\<lparr>position := p\<rparr>) (position st3) p False)
            (\<lambda>st4. block_loop False ch st4 True ti' True 0 m)))"
proof -
  have "block_loop False ch st det ti did e m =
    (let w = indent_width det ti (input st1) (position st1);
         st2 = st1\<lparr>lineIndent := w, position := position st1 + w\<rparr>; c = here st2;
         textIndent = (if \<not> det \<and> ti < int w then int w else ti)
     in if is_EOL c then block_loop False ch st2 det textIndent did (e + 1) m
        else if int w < textIndent then Inr (append_result st2 (block_tail ch did e))
        else
          let st3 = append_result st2 (block_separator False (is_WHITE_SPACE c) m did e)
          in bind_r (seek (\<lambda>c. c = 10 \<or> c = 13 \<or> c = 0) (input st3) (position st3))
               (\<lambda>p. bind_r (captureSegment (st3\<lparr>position := p\<rparr>) (position st3) p False)
                  (\<lambda>st4. block_loop False ch st4 True textIndent True 0 m)))"
    using assms(1,2) by (subst block_loop.simps) (simp add: Let_def)
  then show ?thesis
    unfolding assms(3) Let_def assms(4) [symmetric] assms(5) [symmetric] assms(6) by (simp add: block_separator_def)
qed

text \<open>An empty line.\<close>

lemma block_empty:
  assumes "ahead st (10 # 10 # xs)" "0 \<le> ti"
  shows "\<exists>st'. block_loop False ch st det ti did e m = block_loop False ch st' det ti did (Suc e) m \<and>
    ahead st' (10 # xs) \<and> core st' = core st \<and> result st' = result st"
proof -
  define st1 where "st1 = st\<lparr>position := Suc (position st), line := line st + 1, lineStart := Suc (position st)\<rparr>"
  have a1: "ahead st1 (10 # xs)"
    using ahead_next [OF assms(1)] by (simp add: st1_def ahead_def)
  have "advance (\<lambda>c. c = 32) (input st1) (position st1) = position st1"
    by (rule advance_none [OF a1]) simp
  then have w: "indent_width det ti (input st1) (position st1) = 0"
    by (simp add: indent_width_def)
  let ?st2 = "st1\<lparr>lineIndent := 0, position := position st1 + 0\<rparr>"
  have a2: "ahead ?st2 (10 # xs)"
    using a1 by (simp add: ahead_def)
  have rb: "readLineBreak st = Inr st1"
    unfolding st1_def by (rule readLineBreak_LF [OF assms(1)])
  have "ti = (if \<not> det \<and> ti < int 0 then int 0 else ti)"
    using assms(2) by simp
  from block_step [OF _ rb w refl this] have "block_loop False ch st det ti did e m = block_loop False ch ?st2 det ti did (Suc e) m"
    using ahead_Cons(1) [OF assms(1)] ahead_Cons(1) [OF a2] by (simp add: is_EOL_def)
  then show ?thesis
    using a2 by (intro exI [of _ ?st2]) (simp add: st1_def)
qed

text \<open>A line with content.\<close>

lemma printable_text: "list_all (\<lambda>c. isPrintable (Some (uint c))) s \<Longrightarrow> \<not> non_printable b s"
proof (induction s arbitrary: b)
  case (Cons c s)
  then show ?case
    using printable_units [of c] by simp
qed simp

lemma block_content:
  assumes "ahead st (10 # replicate ind 32 @ l @ 10 # xs)" "l \<noteq> []" "list_all (\<lambda>c. isPrintable (Some (uint c))) l"
    "0 < ind" "det \<and> ti = int ind \<or> \<not> det \<and> ti < int ind \<and> hd l \<noteq> 32" "result st = YStr r"
  shows "\<exists>st'. block_loop False ch st det ti did e False = block_loop False ch st' True (int ind) True 0 False \<and>
    ahead st' (10 # xs) \<and> core st' = core st \<and> result st' = YStr (r @ newlines (if did then 1 + e else e) @ l)"
proof -
  obtain c l' where l: "l = c # l'"
    using assms(2) by (cases l) auto
  define st1 where "st1 = st\<lparr>position := Suc (position st), line := line st + 1, lineStart := Suc (position st)\<rparr>"
  have a1: "ahead st1 (replicate ind 32 @ l @ 10 # xs)"
    using ahead_next [OF assms(1)] by (simp add: st1_def ahead_def)
  have rb: "readLineBreak st = Inr st1"
    unfolding st1_def by (rule readLineBreak_LF [OF assms(1)])
  have w: "indent_width det ti (input st1) (position st1) = ind"
  proof (cases "det")
    case True
    have "ind \<le> length (takeWhile (\<lambda>c. c = 32) (replicate ind 32 @ l @ 10 # xs))"
      by (simp add: takeWhile_append)
    then show ?thesis
      using True assms(5) a1 by (simp add: indent_width_def advance_def ahead_def Let_def)
  next
    case False
    then have "advance (\<lambda>c. c = 32) (input st1) (position st1) = position st1 + ind"
      using advance_run [of st1 ind c "l' @ 10 # xs"] a1 assms(5) by (simp add: l)
    then show ?thesis
      using False by (simp add: indent_width_def)
  qed
  define st2 where "st2 = st1\<lparr>lineIndent := ind, position := position st1 + ind\<rparr>"
  have a2: "ahead st2 (l @ 10 # xs)"
    by (rule ahead_move [OF a1]) (simp_all add: st2_def)
  have nc: "\<not> is_EOL (Some (uint c))"
    using assms(3) by (auto simp: l is_EOL_def isPrintable_def)
  define st3 where "st3 = append_result st2 (newlines (if did then 1 + e else e))"
  have a3: "ahead st3 (l @ 10 # xs)" and r3: "result st3 = YStr (r @ newlines (if did then 1 + e else e))"
    using a2 assms(6) by (simp_all add: st3_def append_result_def ahead_def st2_def st1_def)
  have seek: "seek (\<lambda>c. c = 10 \<or> c = 13 \<or> c = 0) (input st3) (position st3) = Inr (position st3 + length l)"
  proof -
    have "c \<noteq> 10 \<and> c \<noteq> 13 \<and> c \<noteq> 0" if "c \<in> set l" for c
      using assms(3) that printable_ge [of c] ge_neq [of c] by (auto simp: list_all_iff)
    then have "takeWhile (\<lambda>c. \<not> (c = 10 \<or> c = 13 \<or> c = 0)) (l @ 10 # xs) = l"
      by (simp add: takeWhile_append)
    moreover have "length (input st3) = position st3 + length (l @ 10 # xs)"
      using a3 by (auto simp: ahead_def dest: arg_cong [where f = length])
    ultimately show ?thesis
      using a3 by (simp add: seek_def advance_def ahead_def Let_def)
  qed
  define st4 where "st4 = append_result (st3\<lparr>position := position st3 + length l\<rparr>) l"
  have cap: "captureSegment (st3\<lparr>position := position st3 + length l\<rparr>) (position st3) (position st3 + length l) False = Inr st4"
    using a3 printable_text [OF assms(3), of False] assms(2)
    by (simp add: captureSegment_def segment_nat ahead_def st4_def)
  have a4: "ahead st4 (10 # xs)"
    by (rule ahead_move [OF a3]) (simp_all add: st4_def append_result_def)
  have "block_loop False ch st det ti did e False = block_loop False ch st4 True (int ind) True 0 False"
  proof -
    have "ti' = (if \<not> det \<and> ti < int ind then int ind else ti)" if "ti' = int ind" for ti'
      using assms(5) that by auto
    from block_step [OF _ rb w st2_def this [OF refl] st3_def] show ?thesis
      using ahead_Cons(1) [OF assms(1)] ahead_Cons(1) [OF a2 [unfolded l, simplified]] nc seek cap by simp
  qed
  then show ?thesis
    using a4 r3 by (intro exI [of _ st4]) (simp add: st4_def st3_def st2_def st1_def append_result_def)
qed

text \<open>The end of the input behind the last line break.\<close>

lemma block_end:
  assumes "ahead st [10, 0]" "result st = YStr r" "0 < ti \<or> \<not> did \<and> ti = 0"
  shows "\<exists>st'. block_loop False ch st det ti did e m = Inr st' \<and> ahead st' [0] \<and> core st' = core st \<and>
    result st' = YStr (r @ (if 0 < ti then block_tail ch did e else newlines e))"
proof -
  define st1 where "st1 = st\<lparr>position := Suc (position st), line := line st + 1, lineStart := Suc (position st)\<rparr>"
  have rb: "readLineBreak st = Inr st1"
    unfolding st1_def by (rule readLineBreak_LF [OF assms(1)])
  have a1: "ahead st1 [0]"
    using ahead_next [OF assms(1)] by (simp add: st1_def ahead_def)
  have "advance (\<lambda>c. c = 32) (input st1) (position st1) = position st1"
    by (rule advance_none [OF a1]) simp
  then have w: "indent_width det ti (input st1) (position st1) = 0"
    by (simp add: indent_width_def)
  define st2 where "st2 = st1\<lparr>lineIndent := 0, position := position st1 + 0\<rparr>"
  have a2: "ahead st2 [0]" "result st2 = YStr r" "core st2 = core st"
    using a1 assms(2) by (simp_all add: ahead_def st2_def st1_def)
  have ti: "ti = (if \<not> det \<and> ti < int 0 then int 0 else ti)"
    using assms(3) by auto
  define st3 where "st3 = append_result st2 (newlines (if did then 1 + e else e))"
  note step = block_step [OF _ rb w st2_def ti st3_def, of ch m]
  have h: "here st \<noteq> Some 0" "\<not> is_EOL (here st2)"
    using ahead_Cons(1) [OF assms(1)] ahead_Cons(1) [OF a2(1)] by (simp_all add: is_EOL_def)
  show ?thesis
  proof (cases "0 < ti")
    case True
    then show ?thesis
      using step h a2 by (intro exI [of _ "append_result st2 (block_tail ch did e)"])
        (simp add: append_result_def ahead_def)
  next
    case False
    have a3: "ahead st3 [0]" "result st3 = YStr (r @ newlines e)" "core st3 = core st"
      using a2 False assms(3) by (simp_all add: st3_def append_result_def ahead_def)
    have "length (input st3) = Suc (position st3)"
      using a3(1) by (auto simp: ahead_def dest: arg_cong [where f = length])
    then have "seek (\<lambda>c. c = 10 \<or> c = 13 \<or> c = 0) (input st3) (position st3) = Inr (position st3)"
      using advance_none [OF a3(1), of "\<lambda>c. \<not> (c = 10 \<or> c = 13 \<or> c = 0)"] by (simp add: seek_def Let_def)
    moreover have "block_loop False ch (st3\<lparr>position := position st3\<rparr>) True ti True 0 m = Inr (st3\<lparr>position := position st3\<rparr>)"
      using ahead_Cons(1) [OF a3(1)] by (subst block_loop.simps) simp
    ultimately have "block_loop False ch st det ti did e m = Inr st3"
      using step h False assms(3) by (simp add: captureSegment_def)
    then show ?thesis
      using a3 False by (intro exI [of _ st3]) simp
  qed
qed

section \<open>Reading the lines\<close>

definition rendered :: "nat \<Rightarrow> jsstring list \<Rightarrow> jsstring" where
  "rendered ind ls = concat (map (\<lambda>l. 10 # (if l = [] then [] else replicate ind 32 @ l)) ls)"

lemma rendered_simps [simp]:
  "rendered ind [] = []"
  "rendered ind (l # ls) = 10 # (if l = [] then [] else replicate ind 32 @ l) @ rendered ind ls"
  by (simp_all add: rendered_def)

lemma rendered_Cons10: "\<exists>xs. rendered ind ls @ [10, 0] = 10 # xs"
  by (cases ls) simp_all

text \<open>The lines as they come out of the reader.\<close>

fun gather :: "bool \<Rightarrow> nat \<Rightarrow> jsstring \<Rightarrow> jsstring list \<Rightarrow> bool \<times> nat \<times> jsstring" where
  "gather did e r [] = (did, e, r)"
| "gather did e r (l # ls) =
     (if l = [] then gather did (Suc e) r ls
      else gather True 0 (r @ newlines (if did then 1 + e else e) @ l) ls)"

lemma block_lines:
  assumes "ahead st (rendered ind ls @ [10, 0])" "result st = YStr r" "0 < ind"
    "list_all (list_all (\<lambda>c. isPrintable (Some (uint c)))) ls"
    "did \<and> det \<and> ti = int ind \<or> \<not> did \<and> \<not> det \<and> ti = 0 \<and> (\<forall>l ls'. dropWhile ((=) []) ls = l # ls' \<longrightarrow> hd l \<noteq> 32)"
    "gather did e r ls = (did', e', r')"
  shows "\<exists>st'. block_loop False ch st det ti did e False = Inr st' \<and> ahead st' [0] \<and> core st' = core st \<and>
    result st' = YStr (r' @ (if did' then block_tail ch did' e' else newlines e'))"
  using assms
proof (induction ls arbitrary: st r did det ti e)
  case Nil
  then show ?case
    using block_end [of st r ti did ch det e False] by auto
next
  case (Cons l ls)
  obtain xs where xs: "rendered ind ls @ [10, 0] = 10 # xs"
    using rendered_Cons10 by blast
  show ?case
  proof (cases "l = []")
    case True
    have a: "ahead st (10 # 10 # xs)"
      using Cons(2) True xs by simp
    have "0 \<le> ti"
      using Cons(6) by auto
    from block_empty [OF a this, of ch det did e False]
    obtain st' where st': "block_loop False ch st det ti did e False = block_loop False ch st' det ti did (Suc e) False"
      "ahead st' (10 # xs)" "core st' = core st" "result st' = result st"
      by blast
    have "\<exists>st''. block_loop False ch st' det ti did (Suc e) False = Inr st'' \<and> ahead st'' [0] \<and> core st'' = core st' \<and>
        result st'' = YStr (r' @ (if did' then block_tail ch did' e' else newlines e'))"
      by (rule Cons(1)) (use Cons(3-7) True st' xs in auto)
    then show ?thesis
      using st' by simp
  next
    case False
    have a: "ahead st (10 # replicate ind 32 @ l @ 10 # xs)"
      using Cons(2) False xs by simp
    have d: "det \<and> ti = int ind \<or> \<not> det \<and> ti < int ind \<and> hd l \<noteq> 32"
      using Cons(4,6) False by auto
    have "list_all (\<lambda>c. isPrintable (Some (uint c))) l"
      using Cons(5) by simp
    from block_content [OF a False this Cons(4) d Cons(3), of ch did e]
    obtain st' where st': "block_loop False ch st det ti did e False = block_loop False ch st' True (int ind) True 0 False"
      "ahead st' (10 # xs)" "core st' = core st" "result st' = YStr (r @ newlines (if did then 1 + e else e) @ l)"
      by blast
    have "\<exists>st''. block_loop False ch st' True (int ind) True 0 False = Inr st'' \<and> ahead st'' [0] \<and> core st'' = core st' \<and>
        result st'' = YStr (r' @ (if did' then block_tail ch did' e' else newlines e'))"
      by (rule Cons(1)) (use Cons(4-7) False st' xs in auto)
    then show ?thesis
      using st' by simp
  qed
qed

section \<open>The lines of a string\<close>

fun split_lines :: "jsstring \<Rightarrow> jsstring list" where
  "split_lines [] = [[]]"
| "split_lines (c # s) =
     (if c = 10 then [] # split_lines s else (c # hd (split_lines s)) # tl (split_lines s))"

lemma split_lines_ne [simp]: "split_lines s \<noteq> []"
  by (cases s) simp_all

lemma split_lines_join: "concat (map ((#) 10) (split_lines s)) = 10 # s"
proof (induction s)
  case (Cons c s)
  then show ?case
    by (cases "split_lines s") simp_all
qed simp

lemma split_lines_plain: "10 \<notin> set s \<Longrightarrow> split_lines s = [s]"
  by (induction s) auto

lemma split_lines_append: "10 \<notin> set b \<Longrightarrow> split_lines (b @ 10 # t) = b # split_lines t"
  by (induction b) auto

lemma split_lines_set: "l \<in> set (split_lines s) \<Longrightarrow> set l \<subseteq> set s - {10}"
proof (induction s arbitrary: l)
  case (Cons c s)
  obtain x xs where x: "split_lines s = x # xs"
    by (cases "split_lines s") simp_all
  then show ?case
    using Cons(1) [of x] Cons(1) [of l] Cons(2) by (auto split: if_splits)
qed simp

lemma split_lines_last:
  assumes "s \<noteq> []"
  shows "last (split_lines s) = [] \<longleftrightarrow> last s = 10"
proof -
  obtain ys y where y: "split_lines s = ys @ [y]"
    by (cases "split_lines s" rule: rev_cases) simp_all
  have "concat (map ((#) 10) ys) @ 10 # y = 10 # s"
    using split_lines_join [of s] by (simp add: y)
  from arg_cong [OF this, of last] have l: "last s = (if y = [] then 10 else last y)"
    using assms by auto
  have "y \<noteq> [] \<Longrightarrow> last y \<in> set s - {10}"
    using y by (intro subsetD [OF split_lines_set last_in_set]) simp_all
  then show ?thesis
    using l y by auto
qed

lemma indentString_rendered: "rendered (nat n) (split_lines s) = 10 # indentString s n"
proof (induction s n rule: indentString.induct)
  case (1 s n)
  have rep: "repeat [32] n = replicate (nat n) (32 :: code_unit)"
    by (simp add: repeat_def concat_replicate_trivial) 
  show ?case
  proof (cases "s = []")
    case False
    define b r where "b = takeWhile (\<lambda>c. c \<noteq> 10) s" and "r = dropWhile (\<lambda>c. c \<noteq> 10) s"
    have s: "s = b @ r" "10 \<notin> set b"
      by (auto simp: b_def r_def dest: set_takeWhileD)
    show ?thesis
    proof (cases r)
      case Nil
      then have "split_lines s = [s]" "b = s"
        using s split_lines_plain [of s] by simp_all
      then show ?thesis
        using False Nil rep s(2) by (subst indentString.simps) (auto simp: b_def [symmetric] r_def [symmetric] Let_def indentString.simps [of "[]"])
    next
      case (Cons x t)
      then have x: "x = 10"
        using hd_dropWhile [of "\<lambda>c. c \<noteq> 10" s] by (auto simp: r_def)
      have "rendered (nat n) (split_lines t) = 10 # indentString t n"
        using 1 [OF False refl refl] Cons by (simp add: b_def r_def)
      moreover have "indentString s n = (if b = [] then [] else repeat [32] n) @ b @ 10 # indentString t n"
        by (subst indentString.simps) (simp add: False b_def [symmetric] r_def [symmetric] Let_def Cons x)
      ultimately show ?thesis
        using split_lines_append [OF s(2), of t] s(1) by (simp add: Cons x rep)
    qed
  qed (simp add: indentString.simps)
qed

text \<open>The text of the scalar behind its header, with the line break that ends the dump.\<close>

definition content_lines :: "jsstring \<Rightarrow> jsstring list" where
  "content_lines s = (if last s = 10 then butlast (split_lines s) else split_lines s)"

lemma rendered_append: "rendered ind (xs @ ys) = rendered ind xs @ rendered ind ys"
  by (simp add: rendered_def)

lemma block_text:
  assumes "s \<noteq> []"
  shows "10 # dropEndingNewline (indentString s n) @ [10] = rendered (nat n) (content_lines s) @ [10]"
    "10 # s = concat (map ((#) 10) (content_lines s)) @ (if last s = 10 then [10] else [])"
proof -
  obtain ys y where y: "split_lines s = ys @ [y]"
    by (cases "split_lines s" rule: rev_cases) simp_all
  have yl: "y = [] \<longleftrightarrow> last s = 10"
    using split_lines_last [OF assms] y by simp
  have c: "content_lines s = (if y = [] then ys else ys @ [y])"
    by (simp add: content_lines_def y yl)
  note r = indentString_rendered [of n s, unfolded y rendered_append, simplified]
  have ne: "indentString s n \<noteq> []"
  proof
    assume "indentString s n = []"
    then have "ys = []" "y = []"
      using r by (cases ys; simp split: if_splits)+
    then show False
      using y split_lines_join [of s] assms by simp
  qed
  show "10 # dropEndingNewline (indentString s n) @ [10] = rendered (nat n) (content_lines s) @ [10]"
  proof (cases "y = []")
    case True
    then have "last (indentString s n) = 10" "10 # indentString s n = rendered (nat n) ys @ [10]"
      using r ne by (auto dest: arg_cong [where f = last])
    moreover from this have "butlast (indentString s n) @ [10] = indentString s n"
      using append_butlast_last_id [OF ne] by simp
    ultimately show ?thesis
      using True ne unfolding c dropEndingNewline_def by (simp del: append_same_eq)
  next
    case False
    have "last y \<noteq> 10"
      using split_lines_set [of y s] y False last_in_set by fastforce
    then have "last (indentString s n) \<noteq> 10"
      using r ne False by (auto dest: arg_cong [where f = last])
    then show ?thesis
      using False r by (simp add: c dropEndingNewline_def rendered_append)
  qed
  show "10 # s = concat (map ((#) 10) (content_lines s)) @ (if last s = 10 then [10] else [])"
    using split_lines_join [of s] by (auto simp: c y yl [symmetric])
qed

section \<open>Chomping\<close>

lemma newlines_simps [simp]: "newlines 0 = []" "newlines (Suc n) = 10 # newlines n"
  by (simp_all add: newlines_def repeat_def nat_add_distrib)

lemma newlines_snoc: "newlines n @ 10 # xs = 10 # newlines n @ xs"
  by (induction n) simp_all

lemma last_newlines: "last (r @ newlines (Suc n)) = 10"
proof -
  have "newlines (Suc n) = newlines n @ [10]"
    using newlines_snoc [of n "[]"] by simp
  then show ?thesis
    by (simp del: newlines_simps)
qed

lemma gather_did:
  "gather True e r ls = (d, e', r') \<Longrightarrow> d \<and> r' @ newlines e' = r @ newlines e @ concat (map ((#) 10) ls)"
proof (induction ls arbitrary: e r)
  case (Cons l ls)
  then show ?case
    by (cases "l = []") (fastforce simp: newlines_snoc)+
qed simp

lemma gather_new:
  "gather False e [] ls = (d, e', r') \<Longrightarrow>
   (if d then 10 # r' @ newlines e' = newlines e @ concat (map ((#) 10) ls)
    else r' = [] \<and> newlines e' = newlines e @ concat (map ((#) 10) ls))"
proof (induction ls arbitrary: e)
  case (Cons l ls)
  show ?case
  proof (cases "l = []")
    case True
    then show ?thesis
      using Cons(1) [of "Suc e"] Cons(2) by (simp add: newlines_snoc)
  next
    case False
    then show ?thesis
      using gather_did [of 0 "newlines e @ l" ls d e' r'] Cons(2) by (simp add: newlines_snoc)
  qed
qed auto

definition chomping_of :: "jsstring \<Rightarrow> chomping" where
  "chomping_of s =
     (if last s \<noteq> 10 then Strip
      else if s = [10] \<or> char_at s (int (length s) - 2) = Some 10 then Keep else Clip)"

lemma chomping_restores:
  assumes "s \<noteq> []" "gather False 0 [] (content_lines s) = (d, e, r)"
  shows "r @ (if d then block_tail (chomping_of s) d e else newlines e) = s"
proof -
  have s: "10 # s = concat (map ((#) 10) (content_lines s)) @ (if last s = 10 then [10] else [])"
    by (rule block_text(2) [OF assms(1)])
  note g = gather_new [OF assms(2)]
  show ?thesis
  proof (cases d)
    case True
    then have s': "s = r @ newlines e @ (if last s = 10 then [10] else [])"
      using g s by (cases "concat (map ((#) 10) (content_lines s))") auto
    show ?thesis
    proof (cases "last s = 10")
      case False
      then have "e = 0"
        using s' last_newlines [of r "e - 1"] by (cases e) auto
      then show ?thesis
        using s' False True by (simp add: chomping_of_def block_tail_def)
    next
      case last: True
      have k: "s = r @ newlines (Suc e)"
        using s' last newlines_snoc [of e "[]"] by simp
      show ?thesis
      proof (cases "chomping_of s = Keep")
        case True
        then show ?thesis
          using k \<open>d\<close> by (simp add: block_tail_def)
      next
        case False
        have "e = 0"
        proof (rule ccontr)
          assume "e \<noteq> 0"
          then obtain e' where "e = Suc e'"
            by (cases e) auto
          then have "s = (r @ newlines e') @ [10, 10]"
            using k newlines_snoc [of e' "[10]"] newlines_snoc [of e' "[]"] by simp
          then obtain q where q: "s = q @ [10, 10]" ..
          then have "char_at s (int (length s) - 2) = Some 10"
            by (simp add: char_at_def)
          then show False
            using False last by (simp add: chomping_of_def)
        qed
        then show ?thesis
          using k False last \<open>d\<close> by (auto simp: chomping_of_def block_tail_def split: if_splits)
      qed
    qed
  next
    case False
    then have n: "10 # s = newlines e @ (if last s = 10 then [10] else [])" "r = []"
      using g s by auto
    have "last s = 10"
    proof (rule ccontr)
      assume "last s \<noteq> 10"
      moreover from this obtain e' where "s = newlines (Suc e')"
        using n(1) assms(1) by (cases e; cases "e - 1") auto
      ultimately show False
        using last_newlines [of "[]" e'] by simp
    qed
    then show ?thesis
      using n False newlines_snoc [of e "[]"] by simp
  qed
qed

section \<open>The header\<close>

lemma block_header_text:
  assumes "s \<noteq> []" "\<not> needIndentIndicator s"
  shows "blockHeader s n = (case chomping_of s of Clip \<Rightarrow> [] | Strip \<Rightarrow> [45] | Keep \<Rightarrow> [43]) @ [10]"
  using assms by (auto simp: blockHeader_def chomping_of_def Let_def char_at_def last_conv_nth nat_diff_distrib)

lemma header_end:
  assumes "ahead st (c # 10 # xs)" "c \<noteq> 0"
  shows "header_loop n st h = Inr (st\<lparr>position := position st + 1\<rparr>, h)"
proof -
  have "here (st\<lparr>position := position st + 1\<rparr>) = Some 10"
    using ahead_Cons(1) [OF ahead_next [OF assms(1)]] by simp
  moreover have "here st \<noteq> Some 0"
    using ahead_Cons(1) [OF assms(1)] assms(2) by (simp add: unsigned_eq_0_iff)
  ultimately show ?thesis
    by (subst header_loop.simps) (simp add: fromDecimalCode_def)
qed

lemma header_reads:
  assumes "ahead st (124 # (case ch of Clip \<Rightarrow> [] | Strip \<Rightarrow> [45] | Keep \<Rightarrow> [43]) @ 10 # xs)"
  shows "\<exists>st'. header_loop n st \<lparr>bh_chomping = Clip, bh_detected = False, bh_indent = n\<rparr> =
      Inr (st', \<lparr>bh_chomping = ch, bh_detected = False, bh_indent = n\<rparr>) \<and> ahead st' (10 # xs) \<and>
    core st' = core st \<and> result st' = result st"
proof (cases "ch = Clip")
  case True
  then have a: "ahead st (124 # 10 # xs)"
    using assms by simp
  show ?thesis
    using header_end [OF a] ahead_next [OF a] True by simp
next
  case False
  define c where "c = (if ch = Strip then 45 else 43 :: code_unit)"
  have a: "ahead st (124 # c # 10 # xs)"
    using assms False by (cases ch) (simp_all add: c_def)
  let ?st = "st\<lparr>position := position st + 1\<rparr>"
  have a1: "ahead ?st (c # 10 # xs)"
    using ahead_next [OF a] by simp
  have "header_loop n st \<lparr>bh_chomping = Clip, bh_detected = False, bh_indent = n\<rparr> =
      header_loop n ?st \<lparr>bh_chomping = ch, bh_detected = False, bh_indent = n\<rparr>"
    using ahead_Cons(1) [OF a] ahead_Cons(1) [OF a1] False
    by (subst header_loop.simps) (cases ch; simp add: c_def)
  also have "\<dots> = Inr (?st\<lparr>position := position ?st + 1\<rparr>, \<lparr>bh_chomping = ch, bh_detected = False, bh_indent = n\<rparr>)"
    by (rule header_end [OF a1]) (simp add: c_def)
  finally show ?thesis
    using ahead_next [OF a1] by simp
qed

lemma first_line:
  "dropWhile ((=) []) (split_lines s) = l # ls \<Longrightarrow>
   dropWhile (\<lambda>c. c = 10) s \<noteq> [] \<and> hd l = hd (dropWhile (\<lambda>c. c = 10) s)"
  by (induction s) (auto split: if_splits)

lemma first_content_line:
  assumes "dropWhile ((=) []) (content_lines s) = l # ls" "\<not> needIndentIndicator s"
  shows "hd l \<noteq> 32"
proof -
  have "\<exists>ls'. dropWhile ((=) []) (split_lines s) = l # ls'"
  proof (cases "last s = 10")
    case True
    then have b: "dropWhile ((=) []) (butlast (split_lines s)) = l # ls"
      using assms(1) by (simp add: content_lines_def)
    have "dropWhile ((=) []) (xs @ ys) = dropWhile ((=) []) xs @ ys" if "dropWhile ((=) []) xs \<noteq> []" for xs ys :: "jsstring list"
      using that by (induction xs) auto
    from this [of "butlast (split_lines s)" "[last (split_lines s)]"]
    have "dropWhile ((=) []) (split_lines s) = (l # ls) @ [last (split_lines s)]"
      using b by simp
    then show ?thesis
      by simp
  qed (use assms(1) in \<open>auto simp: content_lines_def\<close>)
  then show ?thesis
    using first_line [of s l] assms(2) by (auto simp: needIndentIndicator_def Let_def)
qed

text \<open>The literal scalar that the dumper writes for a string, at the end of the input.\<close>

lemma literal_read:
  assumes "s \<noteq> []" "\<not> needIndentIndicator s" "list_all (\<lambda>c. c = 10 \<or> isPrintable (Some (uint c))) s" "0 < n"
    "ahead st ([124] @ blockHeader s n0 @ dropEndingNewline (indentString s n) @ [10, 0])"
  shows "\<exists>st'. readBlockScalar st 0 = Inr (True, st') \<and> ahead st' [0] \<and> result st' = YStr s \<and>
    core st' = core (st\<lparr>s_kind := Some Scalar\<rparr>)"
proof -
  let ?ch = "chomping_of s" and ?ls = "content_lines s" and ?D = "dropEndingNewline (indentString s n)"
  let ?st = "st\<lparr>s_kind := Some Scalar, result := YStr []\<rparr>"
  have "ahead ?st (124 # (case ?ch of Clip \<Rightarrow> [] | Strip \<Rightarrow> [45] | Keep \<Rightarrow> [43]) @ 10 # ?D @ [10, 0])"
    using assms(5) block_header_text [OF assms(1,2), of n0] by (simp add: ahead_def)
  from header_reads [OF this, of 0] obtain st1 where
    st1: "header_loop 0 ?st \<lparr>bh_chomping = Clip, bh_detected = False, bh_indent = 0\<rparr> =
        Inr (st1, \<lparr>bh_chomping = ?ch, bh_detected = False, bh_indent = 0\<rparr>)"
      "ahead st1 (10 # ?D @ [10, 0])" "core st1 = core ?st" "result st1 = YStr []"
    by auto
  have "rendered (nat n) ?ls @ [10, 0] = (10 # ?D @ [10]) @ [0]"
    unfolding block_text(1) [OF assms(1)] by simp
  then have a: "ahead st1 (rendered (nat n) ?ls @ [10, 0])"
    using st1(2) by simp
  have hc: "header_comment st1 = Inr st1"
    using ahead_Cons(1) [OF st1(2)] by (simp add: header_comment_def is_WHITE_SPACE_def)
  obtain d e r where g: "gather False 0 [] ?ls = (d, e, r)"
    by (cases "gather False 0 [] ?ls")
  have "set ?ls \<subseteq> set (split_lines s)"
    by (auto simp: content_lines_def dest: in_set_butlastD)
  then have p: "list_all (list_all (\<lambda>c. isPrintable (Some (uint c)))) ?ls"
    using assms(3) split_lines_set by (fastforce simp: list_all_iff)
  have "\<exists>st'. block_loop False ?ch st1 False 0 False 0 False = Inr st' \<and> ahead st' [0] \<and> core st' = core st1 \<and>
    result st' = YStr (r @ (if d then block_tail ?ch d e else newlines e))"
    by (rule block_lines [OF a st1(4) _ p _ g]) (use assms(4) first_content_line [OF _ assms(2)] in auto)
  then obtain st' where st': "block_loop False ?ch st1 False 0 False 0 False = Inr st'" "ahead st' [0]" "core st' = core ?st"
    "result st' = YStr s"
    using chomping_restores [OF assms(1) g] st1(3) by auto
  have "here st = Some 124"
    using ahead_Cons(1) [of st 124] assms(5) by simp
  then have "readBlockScalar st 0 = Inr (True, st')"
    using st1(1) hc st'(1) by (simp add: readBlockScalar_def)
  then show ?thesis
    using st'(2-4) by simp
qed

section \<open>The scalar as a document\<close>

lemma reset_grown [simp]: "reset (grown st) = grown st"
  by (simp add: reset_def grown_def)

lemma grown_fields [simp]:
  "s_tag (grown st) = None" "anchor (grown st) = None" "here (grown st) = here st" "position (grown st) = position st"
  "code_at (grown st) i = code_at st i" "input (grown st) = input st"
  by (simp_all add: grown_def reset_def code_at_def)

lemma no_flow_node:
  assumes "ahead st (124 # xs)"
  shows "composeNode (Suc d) (grown st) 0 FLOW_OUT False True = Inr (False, grown st)"
proof -
  have a: "ahead (grown st) (124 # xs)"
    using assms by simp
  note h = ahead_Cons(1) [OF a]
  have "property_loop (grown st) 0 False False False 1 = Inr (grown st, False, False, 1)"
    by (rule property_loop_none) (use h ahead_Cons(2) [OF a] in simp_all)
  moreover have "read_content (composeNode d) (grown st) 0 FLOW_OUT False 1 = Inr (False, grown st)"
    using h by (simp add: read_content_def or_read_def no_read_def readFlowCollection_def is_block_def set_anchor_def
        read_scalar_def readSingleQuotedScalar_def readDoubleQuotedScalar_def read_alias_checked_def readAlias_def
        read_plain_tagged_def readPlainScalar_def plain_first_excluded_def Let_def)
  ultimately show ?thesis
    by (simp add: compose_with_def seek_node_def is_block_def resolve_tag_def reset_def [symmetric])
qed

lemma compose_literal:
  assumes "ahead st (124 # xs)" "readBlockScalar (grown st) 0 = Inr (True, st1)" "s_tag st1 = None" "anchor st1 = None"
  shows "composeNode (Suc (Suc d)) st (- 1) BLOCK_OUT False True = Inr (True, st1)"
proof -
  have r: "ahead (reset st) (124 # xs)" and g: "ahead (grown st) (124 # xs)"
    using assms(1) by simp_all
  note h = ahead_Cons(1) [OF r] and hg = ahead_Cons(1) [OF g]
  let ?cn = "composeNode (Suc d)" and ?st1 = "(reset st)\<lparr>heap := heap st @ [YArr []]\<rparr>"
  have p: "property_loop (reset st) (- 1) True False True 1 = Inr (reset st, False, True, 1)"
    by (rule property_loop_none) (use h ahead_Cons(2) [OF r] in simp_all)
  have s: "readBlockSequence ?cn (reset st) i = Inr (False, ?st1)" for i
    using h by (simp add: readBlockSequence_def alloc_anchored_def Let_def block_fuel_def reset_def)
  have k: "read_key ?cn (grown st) 0 a None None no_vars = Inr (Break (grown st))" for a
    using hg no_flow_node [OF assms(1), of d] by (simp add: read_key_def del: composeNode.simps)
  have m: "readBlockMapping ?cn ?st1 i 0 = Inr (False, grown st)" for i
  proof -
    have al: "alloc_anchored ?st1 (YMap []) = (grown st, length (heap st @ [YArr []]))"
      by (simp add: alloc_anchored_def Let_def reset_def grown_def)
    have "map_loop ?cn (block_fuel ?st1) i 0 (length (heap st @ [YArr []])) None None (grown st) no_vars =
        Inr (Entry (grown st) no_vars)"
      using hg k by (simp add: block_fuel_def del: composeNode.simps)
    then show ?thesis
      unfolding readBlockMapping_def al Let_def
      by (simp add: reset_def store_explicit_def no_vars_def del: composeNode.simps)
  qed
  have "read_content ?cn (reset st) (- 1) BLOCK_OUT True 1 = Inr (True, st1)"
    using s m hg assms(2,4)
    by (simp add: read_content_def or_read_def is_block_def readFlowCollection_def read_scalar_def set_anchor_def
        del: composeNode.simps)
  then show ?thesis
    using p assms(3,4)
    by (simp add: compose_with_def seek_node_def reset_def [symmetric] is_block_def resolve_tag_def
        composeNode.simps(2) [of "Suc d"] del: composeNode.simps)
qed

lemma core_fields:
  assumes "core st' = core st"
  shows "s_tag st' = s_tag st" "anchor st' = anchor st" "documents st' = documents st" "len st' = len st"
    "input st' = input st" "heap st' = heap st"
  using arg_cong [OF assms, of s_tag] arg_cong [OF assms, of anchor] arg_cong [OF assms, of documents]
    arg_cong [OF assms, of len] arg_cong [OF assms, of input] arg_cong [OF assms, of heap]
  by (simp_all add: core_def)

lemma load_literal:
  assumes "s \<noteq> []" "\<not> needIndentIndicator s" "list_all (\<lambda>c. c = 10 \<or> isPrintable (Some (uint c))) s" "0 < n"
  shows "safeLoad ev (([124] @ blockHeader s n0 @ dropEndingNewline (indentString s n)) @ [10]) no_options =
    Inr (YStr s, [YArr [], YMap []])"
proof -
  let ?t' = "blockHeader s n0 @ dropEndingNewline (indentString s n)"
  have c: "starts_scalar 124"
    by (simp add: starts_scalar_def)
  show ?thesis
  proof (rule load_of_document [OF _ c, of _ ?t'])
    fix st d
    assume st: "ahead st (([124] @ ?t') @ [10, 0])" "position st = 0" "lineIndent st = 0"
      "len st = length ([124] @ ?t') + 1" "documents st = []" "heap st = []"
    have a: "ahead (fresh st) (124 # ?t' @ [10, 0])" "ahead (grown (fresh st)) ([124] @ ?t' @ [10, 0])"
      using st(1) by simp_all
    obtain st1 where st1: "readBlockScalar (grown (fresh st)) 0 = Inr (True, st1)" "ahead st1 [0]" "result st1 = YStr s"
      "core st1 = core ((grown (fresh st))\<lparr>s_kind := Some Scalar\<rparr>)"
      using literal_read [OF assms, of "grown (fresh st)" n0] a(2) by auto
    note f = core_fields [OF st1(4)]
    have "composeNode (Suc (Suc d)) (fresh st) (- 1) BLOCK_OUT False True = Inr (True, st1)"
      by (rule compose_literal [OF a(1) st1(1)]) (simp_all add: f)
    moreover have "length (input st1) = len st + 1"
      using f(5) ahead_length [OF a(1)] st(2,4) by (simp add: fresh_def)
    moreover have "documents st1 = documents st" "len st1 = len st" "heap st1 = [YArr [], YMap []]"
      using f st(6) by (simp_all add: grown_def reset_def fresh_def)
    ultimately show "\<exists>st'. readDocument (Suc (Suc d)) st = Inr st' \<and> documents st' = [YStr s] \<and> heap st' = [YArr [], YMap []] \<and>
        len st' = len st \<and> len st \<le> position st'"
      using document_of_node [of st 124 "?t' @ [10, 0]", OF _ c st(3), of "Suc (Suc d)" st1] st1(2,3) st(1,5) by auto
  qed simp_all
qed

section \<open>The style of a string with several lines\<close>

definition narrow_lines :: "int \<Rightarrow> jsstring \<Rightarrow> bool" where
  "narrow_lines w s = list_all (\<lambda>l. int (length l) \<le> w) (split_lines s)"

lemma multi_line_loop_lines:
  assumes "multi_line_loop t w s i v = Some v'" "w = - 1 \<or> list_all (\<lambda>l. int (length l) \<le> w) (tl (split_lines s)) \<and>
    i - sv_previousLineBreak v - 1 + int (length (hd (split_lines s))) \<le> w"
  shows "list_all (\<lambda>c. c = 10 \<or> isPrintable (Some (uint c))) s \<and> sv_hasLineBreak v' = (sv_hasLineBreak v \<or> 10 \<in> set s) \<and>
    sv_hasFoldableLine v' = sv_hasFoldableLine v \<and>
    (w = - 1 \<or> i + int (length s) - sv_previousLineBreak v' - 1 \<le> w)"
  using assms
proof (induction s arbitrary: i v)
  case (Cons c s)
  obtain x xs where x: "split_lines s = x # xs"
    by (cases "split_lines s") simp_all
  show ?case
  proof (cases "c = 10")
    case True
    let ?p = "sv_plain v \<and> isPlainSafe (Some (uint c))"
    show ?thesis
    proof (cases "w = - 1")
      case w: True
      then show ?thesis
        using Cons(1) [of "i + 1" "v\<lparr>sv_plain := ?p, sv_hasLineBreak := True\<rparr>"] Cons(2) True by (simp add: Let_def)
    next
      case w: False
      have "\<not> foldable t i (sv_previousLineBreak v) w"
        using Cons(3) True w by (simp add: foldable_def)
      then have "multi_line_loop t w s (i + 1) (v\<lparr>sv_plain := ?p, sv_hasLineBreak := True,
          sv_hasFoldableLine := sv_hasFoldableLine v, sv_previousLineBreak := i\<rparr>) = Some v'"
        using Cons(2) True w by (simp add: Let_def)
      from Cons(1) [OF this] show ?thesis
        using Cons(3) True w x by (simp add: algebra_simps)
    qed
  next
    case False
    have p: "isPrintable (Some (uint c))"
      and l: "multi_line_loop t w s (i + 1) (v\<lparr>sv_plain := sv_plain v \<and> isPlainSafe (Some (uint c))\<rparr>) = Some v'"
      using Cons(2) False by (auto simp: Let_def split: if_splits)
    from Cons(1) [OF l] show ?thesis
      using Cons(3) False p x by (simp add: algebra_simps)
  qed
qed auto

lemma chooseScalarStyle_lines:
  assumes "w = - 1 \<or> narrow_lines w s" "10 \<in> set s"
  shows "chooseScalarStyle s False ind w amb = STYLE_DOUBLE \<or>
    chooseScalarStyle s False ind w amb = STYLE_LITERAL \<and> list_all (\<lambda>c. c = 10 \<or> isPrintable (Some (uint c))) s"
proof -
  let ?p = "isPlainSafeFirst (charCodeAt s 0) \<and> \<not> isWhitespace (charCodeAt s (int (length s) - 1))"
  show ?thesis
  proof (cases "scan_style s False w ?p")
    case None
    then show ?thesis
      by (simp add: chooseScalarStyle_def Let_def)
  next
    case (Some v)
    let ?v0 = "\<lparr>sv_plain = ?p, sv_hasLineBreak = False, sv_hasFoldableLine = False, sv_previousLineBreak = - 1\<rparr>"
    obtain v1 where v1: "multi_line_loop s w s 0 ?v0 = Some v1"
      "v = v1\<lparr>sv_hasFoldableLine := (sv_hasFoldableLine v1 \<or>
         w \<noteq> - 1 \<and> foldable s (int (length s)) (sv_previousLineBreak v1) w)\<rparr>"
      using Some by (auto simp: scan_style_def Let_def)
    have "w = - 1 \<or> list_all (\<lambda>l. int (length l) \<le> w) (tl (split_lines s)) \<and>
        0 - sv_previousLineBreak ?v0 - 1 + int (length (hd (split_lines s))) \<le> w"
      using assms(1) by (cases "split_lines s") (auto simp: narrow_lines_def)
    from multi_line_loop_lines [OF v1(1) this]
    have "list_all (\<lambda>c. c = 10 \<or> isPrintable (Some (uint c))) s" "sv_hasLineBreak v" "\<not> sv_hasFoldableLine v"
      using assms(2) v1(2) by (auto simp: foldable_def)
    then show ?thesis
      using Some by (auto simp: chooseScalarStyle_def Let_def)
  qed
qed

section \<open>Strings through the dumper and the loader\<close>

lemma narrow_lines_mono: "narrow_lines w s \<Longrightarrow> w \<le> w' \<Longrightarrow> narrow_lines w' s"
  by (auto simp: narrow_lines_def list_all_iff)

lemma multi_line_text:
  assumes "10 \<in> set s" "\<not> needIndentIndicator s" "d_flowLevel st \<noteq> 0" "1 \<le> d_indent st"
    "d_lineWidth st = - 1 \<or> narrow_lines 40 s \<and> 40 \<le> d_lineWidth st"
  shows "\<exists>t. scalar_text st s 0 False = Inr t \<and> safeLoad ev (t @ [10]) no_options = Inr (YStr s, [YArr [], YMap []])"
proof -
  let ?y = "chooseScalarStyle s False (d_indent st) (scalar_width st) (testImplicitResolving st)"
  have ne: "s \<noteq> []"
    using assms(1) by auto
  moreover have "s \<notin> set DEPRECATED_BOOLEANS_SYNTAX"
    using assms(1) by (auto simp: DEPRECATED_BOOLEANS_SYNTAX_def jstr_def)
  ultimately have t: "scalar_text st s 0 False = styled_text st s ?y"
    using scalar_text_style [of s st] assms(3) by simp
  have "scalar_width st = - 1 \<or> narrow_lines (scalar_width st) s"
    using assms(5) by (auto simp: scalar_width_def intro: narrow_lines_mono)
  from chooseScalarStyle_lines [OF this assms(1), of "d_indent st" "testImplicitResolving st"]
  show ?thesis
  proof
    assume y: "?y = STYLE_DOUBLE"
    obtain e where e: "escapeString s = Inr e"
      using escapeString_total by blast
    have "starts_scalar 34"
      by (simp add: starts_scalar_def)
    from load_scalar [OF refl this _ double_reads [OF e]] show ?thesis
      using t y e by (simp add: styled_text_def)
  next
    assume "?y = STYLE_LITERAL \<and> list_all (\<lambda>c. c = 10 \<or> isPrintable (Some (uint c))) s"
    then show ?thesis
      using load_literal [OF ne assms(2), of "d_indent st" ev "d_indent st"] assms(4) t by (simp add: styled_text_def)
  qed
qed



end
