(* ===== verification/Yaml_Fold.thy ===== *)
theory Yaml_Fold
  imports Yaml_Print
begin

text \<open>The folding of long lines in the folded style of the dumper.\<close>

section \<open>Segments\<close>

definition is_break :: "jsstring \<Rightarrow> nat \<Rightarrow> bool" where
  "is_break line p \<longleftrightarrow> Suc p < length line \<and> line ! p = 32 \<and> line ! Suc p \<noteq> 32"

lemma set_break_positions: "set (break_positions line) = {p. is_break line p}"
  by (auto simp: break_positions_def is_break_def)

lemma sorted_break_positions: "sorted_wrt (<) (break_positions line)"
  unfolding break_positions_def by (intro sorted_wrt_filter) (simp add: sorted_wrt_upt)

text \<open>A segment is narrow enough or cannot be broken.\<close>

definition narrow :: "int \<Rightarrow> jsstring \<Rightarrow> bool" where
  "narrow width s \<longleftrightarrow> int (length s) \<le> width \<or> break_positions s = []"

definition piece :: "jsstring \<Rightarrow> nat \<Rightarrow> nat \<Rightarrow> jsstring" where
  "piece line a b = take (b - a) (drop a line)"

lemma piece_fits:
  assumes "b \<le> length line" "\<And>p. a \<le> p \<Longrightarrow> Suc p < b \<Longrightarrow> \<not> is_break line p"
  shows "break_positions (piece line a b) = []"
proof -
  have "\<not> is_break (piece line a b) p" for p
  proof
    assume i: "is_break (piece line a b) p"
    then have "Suc p < b - a"
      by (simp add: is_break_def piece_def)
    then have "Suc (a + p) < b"
      by simp
    then show False
      using i assms(2) [of "a + p"] assms(1) by (auto simp: is_break_def piece_def)
  qed
  then show ?thesis
    using set_break_positions [of "piece line a b"] by auto
qed

lemma length_piece: "b \<le> length line \<Longrightarrow> length (piece line a b) = b - a"
  by (simp add: piece_def)

lemma take_piece: "a \<le> b \<Longrightarrow> take a line @ piece line a b = take b line"
  by (metis piece_def le_add_diff_inverse take_add)

text \<open>\<open>join c\<close>: every segment behind a separator.\<close>

definition seps :: "code_unit \<Rightarrow> jsstring list \<Rightarrow> jsstring" where
  "seps c segs = concat (map ((#) c) segs)"

lemma seps_snoc [simp]: "seps c (segs @ [s]) = seps c segs @ c # s"
  by (simp add: seps_def)

section \<open>The loop\<close>

text \<open>
  \<open>folded line width rest start cur segs\<close>: the text before \<open>start\<close> is in the segments; \<open>cur\<close> is the
  last place to break before those of \<open>rest\<close>, and is taken when the next one is too far.
\<close>

definition folded :: "jsstring \<Rightarrow> int \<Rightarrow> nat list \<Rightarrow> nat \<Rightarrow> nat \<Rightarrow> jsstring list \<Rightarrow> bool" where
  "folded line width rest start cur segs \<longleftrightarrow>
     seps 32 segs @ [32] = 32 # take start line \<and> start < length line \<and> line ! start \<noteq> 32 \<and>
     list_all (narrow width) segs \<and> sorted_wrt (<) (cur # rest) \<and> (\<forall>p\<in>set rest. is_break line p) \<and>
     (\<forall>p. is_break line p \<longrightarrow> p \<in> set rest \<or> p \<le> cur) \<and> start \<le> Suc cur \<and>
     (start < cur \<longrightarrow> is_break line cur \<and> narrow width (piece line start cur))"

lemma folded_emit:
  assumes "folded line width rest start cur segs" "is_break line stop" "start \<le> stop" "narrow width (piece line start stop)"
  shows "seps 32 (segs @ [piece line start stop]) @ [32] = 32 # take (Suc stop) line" "Suc stop < length line"
    "line ! Suc stop \<noteq> 32" "list_all (narrow width) (segs @ [piece line start stop])"
proof -
  have s: "stop < length line" "line ! stop = 32"
    using assms(2) by (simp_all add: is_break_def)
  have "seps 32 segs @ 32 # piece line start stop @ [32] = (seps 32 segs @ [32]) @ piece line start stop @ [32]"
    by simp
  also have "\<dots> = 32 # (take start line @ piece line start stop) @ [32]"
    using assms(1) by (simp add: folded_def)
  also have "\<dots> = 32 # take (Suc stop) line"
    using take_piece [OF assms(3)] s by (simp add: take_Suc_conv_app_nth)
  finally show "seps 32 (segs @ [piece line start stop]) @ [32] = 32 # take (Suc stop) line"
    by simp
qed (use assms in \<open>auto simp: folded_def is_break_def\<close>)

lemma folded_step:
  assumes "folded line width (nxt # rest) start cur segs"
  shows "width < int nxt - int start \<Longrightarrow> start < cur \<Longrightarrow> folded line width rest (Suc cur) nxt (segs @ [piece line start cur])"
    "width < int nxt - int start \<Longrightarrow> \<not> start < cur \<Longrightarrow> folded line width rest (Suc nxt) nxt (segs @ [piece line start nxt])"
    "\<not> width < int nxt - int start \<Longrightarrow> folded line width rest start nxt segs"
proof -
  have b: "is_break line nxt" "cur < nxt" "\<forall>p\<in>set rest. is_break line p" "\<forall>p\<in>set rest. nxt < p" "sorted_wrt (<) rest"
    "start \<le> Suc cur" "line ! start \<noteq> 32"
    and br: "\<And>p. is_break line p \<Longrightarrow> p = nxt \<or> p \<in> set rest \<or> p \<le> cur"
    using assms by (auto simp: folded_def)
  have br': "\<forall>p. is_break line p \<longrightarrow> p \<in> set rest \<or> p \<le> nxt"
    using br b(2) by fastforce
  have n: "nxt \<le> length line"
    using b(1) by (simp add: is_break_def)
  {
    assume "start < cur"
    then have c: "is_break line cur" "narrow width (piece line start cur)"
      using assms by (simp_all add: folded_def)
    have f: "narrow width (piece line (Suc cur) nxt)"
      unfolding narrow_def by (rule disjI2, rule piece_fits [OF n]) (use br b(4) in fastforce)
    show "folded line width rest (Suc cur) nxt (segs @ [piece line start cur])"
      using folded_emit [OF assms c(1) _ c(2)] \<open>start < cur\<close> b br' f by (auto simp: folded_def)
  next
    assume "\<not> start < cur"
    have f: "narrow width (piece line start nxt)"
    proof -
      have "\<not> is_break line p" if "start \<le> p" "Suc p < nxt" for p
      proof
        assume p: "is_break line p"
        then have "p \<le> cur"
          using br [OF p] that(2) b(4) by auto
        then have "p = start"
          using that(1) \<open>\<not> start < cur\<close> by simp
        then show False
          using p b(7) by (simp add: is_break_def)
      qed
      then show ?thesis
        unfolding narrow_def by (intro disjI2 piece_fits [OF n])
    qed
    show "folded line width rest (Suc nxt) nxt (segs @ [piece line start nxt])"
      using folded_emit [OF assms b(1) _ f] b br' by (auto simp: folded_def)
  next
    assume w: "\<not> width < int nxt - int start"
    then have "narrow width (piece line start nxt)"
      using b(2,6) by (simp add: narrow_def length_piece [OF n])
    then show "folded line width rest start nxt segs"
      using assms b br' by (auto simp: folded_def)
  }
qed

lemma fold_line_loop_folded:
  assumes "folded line width rest start cur segs" "fold_line_loop line width rest start cur (seps 10 segs) = (start', cur', r)"
  shows "\<exists>segs'. r = seps 10 segs' \<and> folded line width [] start' cur' segs'"
  using assms
proof (induction rest arbitrary: start cur segs)
  case (Cons nxt rest)
  note f = folded_step [OF Cons(2)]
  have le: "start \<le> nxt"
    using Cons(2) by (auto simp: folded_def)
  have slice: "seps 10 segs @ [10] @ str_slice line (int start) (int stop) = seps 10 (segs @ [piece line start stop])" for stop
    by (simp add: str_slice_def piece_def nat_diff_distrib')
  show ?case
  proof (cases "width < int nxt - int start")
    case True
    show ?thesis
    proof (cases "start < cur")
      case True
      then show ?thesis
        using Cons(3) \<open>width < _\<close> slice [of cur] by (intro Cons(1) [OF f(1)]) simp_all
    next
      case False
      then show ?thesis
        using Cons(3) \<open>width < _\<close> slice [of nxt] by (intro Cons(1) [OF f(2)]) simp_all
    qed
  next
    case False
    then show ?thesis
      using Cons(3) by (intro Cons(1) [OF f(3)]) simp_all
  qed
qed auto

text \<open>The last segments, with and without a break at the last place.\<close>

lemma folded_last_break:
  assumes "folded line width [] start cur segs" "start < cur"
  shows "list_all (narrow width) (segs @ [piece line start cur, drop (Suc cur) line])"
    "seps 32 (segs @ [piece line start cur, drop (Suc cur) line]) = 32 # line"
proof -
  have c: "is_break line cur" "narrow width (piece line start cur)" and br: "\<And>p. is_break line p \<Longrightarrow> p \<le> cur"
    using assms by (simp_all add: folded_def)
  note e = folded_emit [OF assms(1) c(1) less_imp_le [OF assms(2)] c(2)]
  have "piece line (Suc cur) (length line) = drop (Suc cur) line"
    by (simp add: piece_def)
  then have "break_positions (drop (Suc cur) line) = []"
    using piece_fits [of "length line" line "Suc cur"] br by fastforce
  then show "list_all (narrow width) (segs @ [piece line start cur, drop (Suc cur) line])"
    using e(4) by (simp add: narrow_def)
  have "seps 32 (segs @ [piece line start cur, drop (Suc cur) line]) =
      (seps 32 (segs @ [piece line start cur]) @ [32]) @ drop (Suc cur) line"
    by (simp add: seps_def)
  also have "\<dots> = 32 # line"
    unfolding e(1) by simp
  finally show "seps 32 (segs @ [piece line start cur, drop (Suc cur) line]) = 32 # line" .
qed

lemma folded_last_rest:
  assumes "folded line width [] start cur segs" "\<not> (width < int (length line) - int start \<and> start < cur)"
  shows "list_all (narrow width) (segs @ [drop start line])" "seps 32 (segs @ [drop start line]) = 32 # line"
proof -
  have st: "start < length line" "line ! start \<noteq> 32" "list_all (narrow width) segs"
    "seps 32 segs @ [32] = 32 # take start line" and br: "\<And>p. is_break line p \<Longrightarrow> p \<le> cur"
    using assms(1) by (simp_all add: folded_def)
  have "narrow width (drop start line)"
  proof (cases "start < cur")
    case True
    then show ?thesis
      using assms(2) st(1) by (simp add: narrow_def)
  next
    case False
    have "piece line start (length line) = drop start line"
      by (simp add: piece_def)
    moreover have "\<not> is_break line p" if "start \<le> p" for p
    proof
      assume p: "is_break line p"
      have "p = start"
        using br [OF p] that False by simp
      then show False
        using p st(2) by (simp add: is_break_def)
    qed
    ultimately show ?thesis
      using piece_fits [of "length line" line start] by (fastforce simp: narrow_def)
  qed
  then show "list_all (narrow width) (segs @ [drop start line])"
    using st(3) by simp
  have "seps 32 (segs @ [drop start line]) = (seps 32 segs @ [32]) @ drop start line"
    by simp
  also have "\<dots> = 32 # line"
    unfolding st(4) by simp
  finally show "seps 32 (segs @ [drop start line]) = 32 # line" .
qed

text \<open>
  C27: Folding a line that does not start with a space only turns spaces into line breaks: the
  output consists of the segments of the line separated by line feeds where the line has single
  spaces, and each segment narrow into the width or has no place where it could be broken.
\<close>

theorem foldLine_breaks:
  assumes "line \<noteq> []" "hd line \<noteq> 32"
  shows "\<exists>segs. segs \<noteq> [] \<and> line = tl (concat (map ((#) 32) segs)) \<and> foldLine line width = tl (concat (map ((#) 10) segs)) \<and>
    list_all (\<lambda>s. int (length s) \<le> width \<or> break_positions s = []) segs"
proof -
  have h: "line ! 0 \<noteq> 32" "0 < length line"
    using assms by (simp_all add: hd_conv_nth)
  have "sorted_wrt (<) (0 # break_positions line)"
    using sorted_break_positions [of line] h set_break_positions [of line] by (auto simp: is_break_def intro: gr0I)
  then have "folded line width (break_positions line) 0 0 []"
    using h by (auto simp: folded_def seps_def set_break_positions)
  moreover obtain start cur r where l: "fold_line_loop line width (break_positions line) 0 0 [] = (start, cur, r)"
    by (cases "fold_line_loop line width (break_positions line) 0 0 []")
  ultimately obtain segs where segs: "r = seps 10 segs" "folded line width [] start cur segs"
    using fold_line_loop_folded [of line width "break_positions line" 0 0 "[]" start cur r] by (auto simp: seps_def)
  have "\<exists>ss. ss \<noteq> [] \<and> seps 32 ss = 32 # line \<and> foldLine line width = tl (seps 10 ss) \<and> list_all (narrow width) ss"
  proof (cases "width < int (length line) - int start \<and> start < cur")
    case True
    have "foldLine line width = tl (seps 10 (segs @ [piece line start cur, drop (Suc cur) line]))"
      using True segs(1) assms l by (simp add: foldLine_def str_slice_def piece_def nat_diff_distrib' seps_def)
    then show ?thesis
      using folded_last_break [OF segs(2)] True
      by (intro exI [of _ "segs @ [piece line start cur, drop (Suc cur) line]"]) simp
  next
    case False
    have "foldLine line width = tl (seps 10 (segs @ [drop start line]))"
      using False segs(1) assms l by (auto simp: foldLine_def)
    then show ?thesis
      using folded_last_rest [OF segs(2) False] by (intro exI [of _ "segs @ [drop start line]"]) simp
  qed
  then obtain ss where "ss \<noteq> []" "seps 32 ss = 32 # line" "foldLine line width = tl (seps 10 ss)" "list_all (narrow width) ss"
    by blast
  then show ?thesis
    unfolding narrow_def [abs_def] seps_def by (intro exI [of _ ss]) simp
qed

theorem foldLine_breaks_witness:
  "\<exists>segs. segs \<noteq> [] \<and> jstr ''a bb  ccc'' = tl (concat (map ((#) 32) segs)) \<and>
     foldLine (jstr ''a bb  ccc'') 4 = tl (concat (map ((#) 10) segs)) \<and>
     list_all (\<lambda>s. int (length s) \<le> 4 \<or> break_positions s = []) segs"
  by (rule foldLine_breaks) simp_all

end
