(* ===== verification/Yaml_Pairs.thy ===== *)
theory Yaml_Pairs
  imports Yaml_Total
begin

text \<open>
  A mapping that is being read, against an abstract specification: the entries written in the
  document (explicit) and those of merge keys (merged).  An explicit entry hides a merged one
  wherever it stands, of several merged ones the first counts, and a repeated explicit key is an
  error unless the loader is in its JSON mode.
\<close>

section \<open>The specification\<close>

type_synonym entries = "jsstring \<Rightarrow> yval option"

datatype entry = Pair jsstring yval | Merge "props list"

definition add_merge :: "entries \<Rightarrow> props \<Rightarrow> entries" where
  "add_merge m src = (\<lambda>k. case m k of Some v \<Rightarrow> Some v | None \<Rightarrow> if k = proto then None else map_of src k)"

fun spec_step :: "bool \<Rightarrow> entries \<times> entries \<Rightarrow> entry \<Rightarrow> (entries \<times> entries) option" where
  "spec_step js (e, m) (Pair k v) =
     (if \<not> js \<and> e k \<noteq> None then None else Some (if k = proto then e else e(k \<mapsto> v), m))"
| "spec_step js (e, m) (Merge srcs) = Some (e, foldl add_merge m srcs)"

text \<open>The entry that a call of \<open>storeMappingPair\<close> adds.\<close>

definition merge_sources :: "state \<Rightarrow> yval \<Rightarrow> yval list" where
  "merge_sources st v = (if isArray (heap st) v then elements_of (heap st) v else [v])"

definition entry_of :: "state \<Rightarrow> jsstring option \<Rightarrow> yval \<Rightarrow> yval \<Rightarrow> entry" where
  "entry_of st keyTag keyNode valueNode =
     (if keyTag = Some merge_tag then Merge (map (own_props (heap st)) (merge_sources st valueNode))
      else Pair (js_String (s_host st) (heap st) keyNode) valueNode)"

section \<open>The simulation\<close>

definition represents :: "props \<Rightarrow> (jsstring \<times> bool) list \<Rightarrow> entries \<times> entries \<Rightarrow> bool" where
  "represents dest ov em \<longleftrightarrow>
     fst em proto = None \<and> snd em proto = None \<and>
     (\<forall>k. map_of dest k = (snd em ++ fst em) k) \<and> (\<forall>k. has_prop ov k \<longleftrightarrow> snd em k \<noteq> None \<and> fst em k = None)"

lemma merge_loop_map:
  "merge_loop src dest ov = (dest', ov') \<Longrightarrow>
   map_of dest' k = (if map_of dest k \<noteq> None then map_of dest k else if k = proto then None else map_of src k) \<and>
   (has_prop ov' k \<longleftrightarrow> has_prop ov k \<or> map_of dest k = None \<and> k \<noteq> proto \<and> map_of src k \<noteq> None)"
proof (induction src dest ov rule: merge_loop.induct)
  case (2 key v rest dest ov)
  show ?case
  proof (cases "has_prop dest key")
    case True
    then show ?thesis
      using 2 by (cases "k = key") (auto simp: has_prop_def)
  next
    case False
    then have "merge_loop rest (put_prop dest key v) (put_prop ov key True) = (dest', ov')"
      using 2(3) by simp
    from 2(2) [OF False this] False show ?thesis
      by (cases "k = key"; cases "k = proto") (auto simp: has_prop_def map_of_put_prop)
  qed
qed simp

lemma represents_merge:
  assumes "represents dest ov (e, m)" "merge_loop src dest ov = (dest', ov')"
  shows "represents dest' ov' (e, add_merge m src)"
proof -
  have r: "e proto = None" "m proto = None" "map_of dest k = (m ++ e) k" "has_prop ov k \<longleftrightarrow> m k \<noteq> None \<and> e k = None" for k
    using assms(1) by (simp_all add: represents_def)
  have "map_of dest' k = (add_merge m src ++ e) k" for k
    using merge_loop_map [OF assms(2), of k] r(1,2) r(3) [of k]
    by (cases "m k"; cases "e k") (simp_all add: add_merge_def map_add_def)
  moreover have "has_prop ov' k \<longleftrightarrow> add_merge m src k \<noteq> None \<and> e k = None" for k
    using merge_loop_map [OF assms(2), of k] r(1,2) r(3,4) [of k]
    by (cases "m k"; cases "e k") (simp_all add: add_merge_def map_add_def)
  ultimately show ?thesis
    using r(1,2) by (simp add: represents_def add_merge_def)
qed

lemma has_delete_prop: "has_prop (delete_prop m k) k' \<longleftrightarrow> has_prop m k' \<and> k' \<noteq> k"
  by (induction m) (auto simp: has_prop_def delete_prop_def)

lemma represents_put:
  assumes "represents dest ov (e, m)"
  shows "represents (put_prop dest k v) (delete_prop ov k) (if k = proto then e else e(k \<mapsto> v), m)"
proof -
  have r: "e proto = None" "m proto = None" "map_of dest k = (m ++ e) k" "has_prop ov k \<longleftrightarrow> m k \<noteq> None \<and> e k = None" for k
    using assms by (simp_all add: represents_def)
  show ?thesis
    unfolding represents_def using r(1,2)
    by (simp add: map_of_put_prop has_delete_prop r(3,4) map_add_def) (metis option.distinct(1))
qed

lemma mergeAll_represents:
  assumes "a < length (heap st)" "heap st ! a = YMap dest" "represents dest ov (e, m)"
    "list_all isObject vs" "YRef a \<notin> set vs"
  shows "\<exists>st' ov' dest'. mergeAll vs st a ov = Inr (st', ov') \<and> st' = st\<lparr>heap := (heap st)[a := YMap dest']\<rparr> \<and>
    represents dest' ov' (e, foldl add_merge m (map (own_props (heap st)) vs))"
  using assms
proof (induction vs arbitrary: st dest ov m)
  case Nil
  then show ?case
    using list_update_id [of "heap st" a] by (auto intro!: exI [of _ dest])
next
  case (Cons v vs)
  obtain dest1 ov1 where l: "merge_loop (own_props (heap st) v) dest ov = (dest1, ov1)"
    by (cases "merge_loop (own_props (heap st) v) dest ov")
  define st1 where "st1 = st\<lparr>heap := (heap st)[a := YMap dest1]\<rparr>"
  have m: "mergeMappings st a v ov = Inr (st1, ov1)"
    using l Cons(3,5) by (simp add: mergeMappings_def map_at_def st1_def)
  have same: "own_props (heap st1) w = own_props (heap st) w" if "w \<noteq> YRef a" for w
    using that by (cases w) (simp_all add: own_props_def st1_def)
  have "map (own_props (heap st1)) vs = map (own_props (heap st)) vs"
  proof (rule map_cong [OF refl])
    fix w
    assume "w \<in> set vs"
    with Cons(6) show "own_props (heap st1) w = own_props (heap st) w"
      by (intro same) auto
  qed
  then have props: "map (own_props (heap st1)) vs = map (own_props (heap st)) vs" .
  have "\<exists>st' ov' dest'. mergeAll vs st1 a ov1 = Inr (st', ov') \<and> st' = st1\<lparr>heap := (heap st1)[a := YMap dest']\<rparr> \<and>
    represents dest' ov' (e, foldl add_merge (add_merge m (own_props (heap st) v)) (map (own_props (heap st1)) vs))"
    by (rule Cons(1)) (use Cons(2,5,6) represents_merge [OF Cons(4) l] in \<open>simp_all add: st1_def\<close>)
  then obtain ov' dest' where "mergeAll vs st1 a ov1 = Inr (st1\<lparr>heap := (heap st1)[a := YMap dest']\<rparr>, ov')"
    "represents dest' ov' (e, foldl add_merge (add_merge m (own_props (heap st) v)) (map (own_props (heap st)) vs))"
    unfolding props by blast
  then show ?case
    by (intro exI [of _ "st\<lparr>heap := (heap st)[a := YMap dest']\<rparr>"] exI [of _ ov'] exI [of _ dest'])
      (simp add: m, simp add: st1_def)
qed

text \<open>
  C26: \<open>storeMappingPair\<close> refines the specification of a mapping with merge keys.  When the stored
  properties and the overridable keys represent a pair of explicit and merged entries, a call
  leaves a representation of the next pair, changes no other object, or reports the duplicated
  key exactly where the specification has an error; a merge source that is no object is refused.
\<close>

theorem storeMappingPair_refines:
  assumes "a < length (heap st)" "heap st ! a = YMap dest" "represents dest ov em"
    "keyTag = Some merge_tag \<Longrightarrow> YRef a \<notin> set (merge_sources st valueNode)"
    "keyTag = Some merge_tag \<Longrightarrow> list_all isObject (merge_sources st valueNode)"
  shows "case spec_step (json st) em (entry_of st keyTag keyNode valueNode) of
      None \<Rightarrow> storeMappingPair st (Some a) ov keyTag keyNode valueNode startLine startPos =
        throwError (st\<lparr>line := or_else startLine (line st), position := or_else startPos (position st)\<rparr>)
          (jstr ''duplicated mapping key'')
    | Some em' \<Rightarrow> \<exists>dest' ov'. represents dest' ov' em' \<and>
        storeMappingPair st (Some a) ov keyTag keyNode valueNode startLine startPos =
        Inr (st\<lparr>heap := (heap st)[a := YMap dest']\<rparr>, a, ov')"
proof -
  obtain e m where em: "em = (e, m)"
    by (cases em)
  show ?thesis
  proof (cases "keyTag = Some merge_tag")
    case True
    let ?vs = "merge_sources st valueNode"
    obtain ov' dest' where r: "mergeAll ?vs st a ov = Inr (st\<lparr>heap := (heap st)[a := YMap dest']\<rparr>, ov')"
      "represents dest' ov' (e, foldl add_merge m (map (own_props (heap st)) ?vs))"
      using mergeAll_represents [OF assms(1,2) assms(3) [unfolded em] assms(5) [OF True] assms(4) [OF True]] by blast
    have "storeMappingPair st (Some a) ov keyTag keyNode valueNode startLine startPos =
        bind_r (mergeAll ?vs st a ov) (\<lambda>(st', ov). Inr (st', a, ov))"
      by (cases "mergeMappings st a valueNode ov") (auto simp: storeMappingPair_def True merge_sources_def)
    then show ?thesis
      using r by (auto simp: em entry_of_def True)
  next
    case False
    let ?k = "js_String (s_host st) (heap st) keyNode"
    have d: "map_at st a = dest"
      using assms(2) by (simp add: map_at_def)
    have dup: "\<not> has_prop ov ?k \<and> has_prop dest ?k \<longleftrightarrow> e ?k \<noteq> None"
      using assms(3) by (auto simp: represents_def em has_prop_def [of dest] map_add_def split: option.splits)
    have store: "storeMappingPair st (Some a) ov keyTag keyNode valueNode startLine startPos =
        (if \<not> json st \<and> e ?k \<noteq> None
         then throwError (st\<lparr>line := or_else startLine (line st), position := or_else startPos (position st)\<rparr>)
                (jstr ''duplicated mapping key'')
         else Inr (st\<lparr>heap := (heap st)[a := YMap (put_prop dest ?k valueNode)]\<rparr>, a, delete_prop ov ?k))"
      unfolding dup [symmetric] storeMappingPair_def using False by (simp add: d Let_def)
    show ?thesis
    proof (cases "\<not> json st \<and> e ?k \<noteq> None")
      case True
      then show ?thesis
        unfolding store using False by (simp add: em entry_of_def)
    next
      case False
      have "spec_step (json st) em (entry_of st keyTag keyNode valueNode) =
          Some (if ?k = proto then e else e(?k \<mapsto> valueNode), m)"
        unfolding em entry_of_def if_not_P [OF \<open>keyTag \<noteq> Some merge_tag\<close>] spec_step.simps if_not_P [OF False] ..
      moreover have "represents (put_prop dest ?k valueNode) (delete_prop ov ?k) (if ?k = proto then e else e(?k \<mapsto> valueNode), m)"
        by (rule represents_put) (use assms(3) em in simp)
      ultimately show ?thesis
        unfolding store if_not_P [OF False] by auto
    qed
  qed
qed

theorem storeMappingPair_refines_witness:
  "\<exists>dest' ov'.
     represents dest' ov'
       ([jstr ''a'' \<mapsto> YNull], add_merge Map.empty (own_props [YMap [(jstr ''a'', YNull)], YMap [(jstr ''b'', YNull)]] (YRef 1))) \<and>
     storeMappingPair (sample_state\<lparr>heap := [YMap [(jstr ''a'', YNull)], YMap [(jstr ''b'', YNull)]]\<rparr>)
       (Some 0) [] (Some merge_tag) (YStr (jstr ''<<'')) (YRef 1) None None =
     Inr (sample_state\<lparr>heap := [YMap dest', YMap [(jstr ''b'', YNull)]]\<rparr>, 0, ov')"
proof -
  let ?h = "[YMap [(jstr ''a'', YNull)], YMap [(jstr ''b'', YNull)]]"
  let ?st = "sample_state\<lparr>heap := ?h\<rparr>" and ?em = "([jstr ''a'' \<mapsto> YNull], Map.empty)"
  have s: "merge_sources ?st (YRef 1) = [YRef 1]"
    by (simp add: merge_sources_def isArray_def)
  have "represents [(jstr ''a'', YNull)] [] ?em"
    by (simp add: represents_def has_prop_def proto_def)
  then have "case spec_step (json ?st) ?em (entry_of ?st (Some merge_tag) (YStr (jstr ''<<'')) (YRef 1)) of
      None \<Rightarrow> storeMappingPair ?st (Some 0) [] (Some merge_tag) (YStr (jstr ''<<'')) (YRef 1) None None =
        throwError (?st\<lparr>line := or_else None (line ?st), position := or_else None (position ?st)\<rparr>)
          (jstr ''duplicated mapping key'')
    | Some em' \<Rightarrow> \<exists>dest' ov'. represents dest' ov' em' \<and>
        storeMappingPair ?st (Some 0) [] (Some merge_tag) (YStr (jstr ''<<'')) (YRef 1) None None =
        Inr (?st\<lparr>heap := (heap ?st)[0 := YMap dest']\<rparr>, 0, ov')"
    by (intro storeMappingPair_refines) (simp_all add: merge_sources_def isArray_def isObject_def)
  then show ?thesis
    by (simp add: entry_of_def merge_sources_def isArray_def)
qed

end
