(* ===== verification/Yaml_Refs.thy ===== *)
theory Yaml_Refs
  imports Yaml_Trip
begin

text \<open>
  The dumper follows the references of the objects it writes.  This theory shows that the search
  for shared objects (\<open>getDuplicateReferences\<close>) finds every object that is met twice, so that
  the writers print an alias instead of descending into an object they are inside of: dumping
  ends on cyclic objects, too.
\<close>

section \<open>Objects and their references\<close>

definition in_store :: "store \<Rightarrow> yval \<Rightarrow> bool" where
  "in_store h v = (case v of YRef a \<Rightarrow> a < length h | _ \<Rightarrow> True)"

definition closed_store :: "store \<Rightarrow> bool" where
  "closed_store h =
     list_all (\<lambda>c. case c of YArr xs \<Rightarrow> list_all (in_store h) xs | YMap m \<Rightarrow> list_all (\<lambda>p. in_store h (snd p)) m) h"

lemma children_in_store:
  assumes "closed_store h" "in_store h v" "x \<in> set (children h v)"
  shows "in_store h x"
proof (cases v)
  case (YRef a)
  then have a: "h ! a \<in> set h"
    using assms(2) by (simp add: in_store_def)
  show ?thesis
  proof (cases "h ! a")
    case (YArr xs)
    then show ?thesis
      using assms(1,3) a YRef by (auto simp: closed_store_def list_all_iff children_def isArray_def)
  next
    case (YMap m)
    then obtain k where k: "k \<in> fst ` set m" "x = the (map_of m k)"
      using assms(3) YRef by (auto simp: children_def isArray_def own_props_def)
    then have "(k, x) \<in> set m"
      by (metis map_of_SomeD map_of_eq_None_iff option.exhaust_sel)
    then show ?thesis
      using assms(1) a YMap by (force simp: closed_store_def list_all_iff)
  qed
qed (use assms(3) in \<open>auto simp: children_def isArray_def own_props_def index_props_def in_store_def dest!: set_zip_rightD\<close>)

definition refs_in :: "store \<Rightarrow> yval list \<Rightarrow> nat \<Rightarrow> nat" where
  "refs_in h os a = sum_list (map (\<lambda>v. count_list (children h v) (YRef a)) os)"

lemma refs_in_append [simp]: "refs_in h (os @ [v]) a = refs_in h os a + count_list (children h v) (YRef a)"
  by (simp add: refs_in_def)

lemma no_ref_children:
  assumes "\<not> is_shared h v" "in_store h v"
  shows "count_list (children h v) (YRef a) = 0"
proof -
  have "YRef a \<notin> set (children h v)"
    using assms by (cases v) (auto simp: is_shared_def in_store_def children_def isArray_def own_props_def index_props_def
        dest!: set_zip_rightD)
  then show ?thesis
    by (simp add: count_list_0_iff)
qed

lemma index_in_Some: "index_in v xs = Some i \<Longrightarrow> i < length xs \<and> xs ! i = v"
  by (induction xs arbitrary: i) (auto split: if_splits)

text \<open>\<open>E a\<close> counts how often the search has met the object \<open>a\<close>.\<close>

definition counted :: "store \<Rightarrow> (nat \<Rightarrow> nat) \<Rightarrow> (nat \<Rightarrow> nat) \<Rightarrow> yval list \<Rightarrow> yval list \<Rightarrow> nat list \<Rightarrow> bool" where
  "counted h r E work os ds \<longleftrightarrow>
     (\<forall>i\<in>set ds. i < length os) \<and> (\<forall>a. 0 < E a \<longleftrightarrow> YRef a \<in> set os) \<and>
     (\<forall>a. 2 \<le> E a \<longrightarrow> YRef a \<in> (!) os ` set ds) \<and>
     (\<forall>a. E a + count_list work (YRef a) = r a + refs_in h os a)"

lemma counted_skip:
  assumes "counted h r E (v # rest) os ds" "\<And>a. v \<noteq> YRef a"
  shows "counted h r E rest os ds"
  using assms by (simp add: counted_def)

lemma counted_value:
  assumes "counted h r E (v # rest) os ds" "\<not> is_shared h v" "in_store h v"
  shows "counted h r E rest (os @ [v]) ds"
proof -
  have v: "v \<noteq> YRef a" for a
    using assms(2,3) by (auto simp: is_shared_def in_store_def)
  have "(\<lambda>i. (os @ [v]) ! i) ` set ds = (!) os ` set ds"
    using assms(1) by (intro image_cong) (auto simp: counted_def nth_append)
  then show ?thesis
    using counted_skip [OF assms(1) v] v no_ref_children [OF assms(2,3)] by (auto simp: counted_def)
qed

lemma countedD:
  assumes "counted h r E work os ds"
  shows "i \<in> set ds \<Longrightarrow> i < length os" "0 < E a \<longleftrightarrow> YRef a \<in> set os" "2 \<le> E a \<Longrightarrow> YRef a \<in> (!) os ` set ds"
    "E a + count_list work (YRef a) = r a + refs_in h os a"
  using assms by (simp_all add: counted_def)

lemma counted_again:
  assumes "counted h r E (v # rest) os ds" "v = YRef a" "index_in v os = Some i"
  shows "counted h r (E(a := E a + 1)) rest os (if i \<in> set ds then ds else ds @ [i])"
proof -
  note c = countedD [OF assms(1)] and i = index_in_Some [OF assms(3)]
  let ?ds = "if i \<in> set ds then ds else ds @ [i]"
  have ds: "set ?ds = insert i (set ds)"
    by auto
  have "YRef a \<in> set os"
    using i assms(2) nth_mem by metis
  moreover have "(E(a := E a + 1)) b + count_list rest (YRef b) = r b + refs_in h os b" for b
    using c(4) [of b] assms(2) by (cases "b = a") simp_all
  moreover have "YRef b \<in> (!) os ` set ?ds" if "2 \<le> (E(a := E a + 1)) b" for b
    unfolding ds using that i assms(2) c(3) [of b] by (cases "b = a") auto
  ultimately show ?thesis
    unfolding counted_def ds using c(1,2) i by auto
qed

lemma counted_first:
  assumes "counted h r E (v # rest) os ds" "v = YRef a" "index_in v os = None"
  shows "counted h r (E(a := E a + 1)) (children h v @ rest) (os @ [v]) ds"
proof -
  note c = countedD [OF assms(1)]
  have a: "E a = 0"
    using assms(2,3) c(2) [of a] by (simp add: index_in_None)
  have "(!) (os @ [v]) ` set ds = (!) os ` set ds"
    using c(1) by (intro image_cong) (simp_all add: nth_append)
  moreover have "(E(a := E a + 1)) b + count_list (children h v @ rest) (YRef b) = r b + refs_in h (os @ [v]) b" for b
    using c(4) [of b] assms(2) by (cases "b = a") simp_all
  ultimately show ?thesis
    unfolding counted_def using c(1-3) a assms(2) by (auto simp: less_SucI)
qed

lemma inspectNodes_counts:
  assumes "closed_store h" "list_all (in_store h) work" "counted h r E work os ds"
    "inspectNodes h work os ds = (os', ds')"
  shows "\<exists>E'. counted h r E' [] os' ds'"
  using assms
proof (induction h work os ds arbitrary: E rule: inspectNodes.induct)
  case (1 h os ds)
  then show ?case
    by (auto simp: inspectNodes.simps)
next
  case (2 h v rest os ds)
  have v: "in_store h v" "list_all (in_store h) rest"
    using "2.prems"(2) by simp_all
  consider (other) "\<not> isObject v" | (simple) "isObject v" "\<not> is_shared h v"
    | (again) a i where "v = YRef a" "isObject v" "is_shared h v" "index_in v os = Some i"
    | (first) a where "v = YRef a" "isObject v" "is_shared h v" "index_in v os = None"
    by (cases v; cases "index_in v os") (auto simp: is_shared_def isObject_def)
  then show ?case
  proof cases
    case other
    then have "counted h r E rest os ds"
      using "2.prems"(3) by (auto simp: isObject_def intro: counted_skip)
    then show ?thesis
      using "2.IH"(1) [OF other "2.prems"(1) v(2)] "2.prems"(4) other by (simp add: inspectNodes.simps)
  next
    case simple
    then show ?thesis
      using "2.IH"(2) [OF _ _ "2.prems"(1) v(2) counted_value [OF "2.prems"(3) simple(2) v(1)]] "2.prems"(4)
      by (simp add: inspectNodes.simps)
  next
    case again
    then show ?thesis
      using "2.IH"(4) [OF _ _ again(4) "2.prems"(1) v(2) counted_again [OF "2.prems"(3) again(1,4)]] "2.prems"(4)
      by (simp add: inspectNodes.simps)
  next
    case first
    have "list_all (in_store h) (children h v @ rest)"
      using v children_in_store [OF "2.prems"(1) v(1)] by (auto simp: list_all_iff)
    then show ?thesis
      using "2.IH"(3) [OF _ _ first(4) "2.prems"(1) _ counted_first [OF "2.prems"(3) first(1,4)]] "2.prems"(4) first
      by (simp add: inspectNodes.simps)
  qed
qed

text \<open>The objects that \<open>getDuplicateReferences\<close> finds in a value, and those met more than once.\<close>

definition objects_of :: "store \<Rightarrow> yval \<Rightarrow> yval list" where
  "objects_of h v = fst (inspectNodes h [v] [] [])"

definition shared :: "store \<Rightarrow> yval \<Rightarrow> yval list" where
  "shared h v = map (\<lambda>i. objects_of h v ! i) (snd (inspectNodes h [v] [] []))"

definition met :: "store \<Rightarrow> yval \<Rightarrow> nat \<Rightarrow> nat" where
  "met h v a = (if v = YRef a then 1 else 0) + refs_in h (objects_of h v) a"

lemma met_shared:
  assumes "closed_store h" "in_store h v"
  shows "0 < met h v a \<longleftrightarrow> YRef a \<in> set (objects_of h v)" "2 \<le> met h v a \<Longrightarrow> YRef a \<in> set (shared h v)"
proof -
  let ?r = "\<lambda>a. if v = YRef a then 1 else 0"
  have "counted h ?r (\<lambda>_. 0) [v] [] []"
    by (simp add: counted_def refs_in_def)
  then obtain E where E: "counted h ?r E [] (objects_of h v) (snd (inspectNodes h [v] [] []))"
    using inspectNodes_counts [OF assms(1), of "[v]"] assms(2) by (fastforce simp: objects_of_def)
  have e: "E b = met h v b" for b
    using countedD(4) [OF E, of b] by (simp add: met_def)
  show "0 < met h v a \<longleftrightarrow> YRef a \<in> set (objects_of h v)" "2 \<le> met h v a \<Longrightarrow> YRef a \<in> set (shared h v)"
    using countedD(2,3) [OF E, of a] by (simp_all add: e shared_def)
qed

section \<open>Paths\<close>

text \<open>\<open>path h v P x\<close>: from \<open>v\<close> through the objects \<open>P\<close> to the value \<open>x\<close>.\<close>

inductive path :: "store \<Rightarrow> yval \<Rightarrow> nat list \<Rightarrow> yval \<Rightarrow> bool" for h v where
  start: "path h v [] v"
| descend: "path h v P (YRef a) \<Longrightarrow> x \<in> set (children h (YRef a)) \<Longrightarrow> path h v (P @ [a]) x"

inductive_cases path_NilE: "path h v [] x"
inductive_cases path_snocE: "path h v (P @ [a]) x"

lemma path_in_store: "path h v P x \<Longrightarrow> closed_store h \<Longrightarrow> in_store h v \<Longrightarrow> in_store h x \<and> (\<forall>a\<in>set P. a < length h)"
proof (induction rule: path.induct)
  case (descend P a x)
  then show ?case
    using children_in_store [of h "YRef a" x] by (auto simp: in_store_def [of h "YRef a"])
qed simp

lemma path_prefix: "path h v (P @ a # Q) x \<Longrightarrow> path h v P (YRef a)"
proof (induction Q arbitrary: x rule: rev_induct)
  case (snoc b Q)
  have "path h v ((P @ a # Q) @ [b]) x"
    using snoc(2) by simp
  then show ?case
    by (rule path_snocE) (auto intro: snoc(1))
qed (auto elim: path_snocE)

lemma refs_in_one: "x \<in> set os \<Longrightarrow> count_list (children h x) (YRef a) \<le> refs_in h os a"
  by (induction os) (auto simp: refs_in_def)

lemma refs_in_two:
  assumes "x \<in> set os" "y \<in> set os" "x \<noteq> y"
  shows "count_list (children h x) (YRef a) + count_list (children h y) (YRef a) \<le> refs_in h os a"
  using assms
proof (induction os)
  case (Cons z os)
  consider "x = z" "y \<in> set os" | "y = z" "x \<in> set os" | "x \<in> set os" "y \<in> set os"
    using Cons(2-4) by auto
  then show ?case
    using Cons(1,4) refs_in_one [of x os h a] refs_in_one [of y os h a] by cases (simp_all add: refs_in_def)
qed simp

lemma path_objects:
  assumes "path h v P (YRef a)" "closed_store h" "in_store h v"
  shows "YRef a \<in> set (objects_of h v)"
proof -
  have "path h v P x \<Longrightarrow> x = YRef b \<Longrightarrow> YRef b \<in> set (objects_of h v)" for P x b
  proof (induction arbitrary: b rule: path.induct)
    case start
    then show ?case
      using met_shared(1) [OF assms(2,3), of b] by (simp add: met_def)
  next
    case (descend P a x)
    have "0 < count_list (children h (YRef a)) (YRef b)"
      using descend(2,4) count_list_0_iff [of "children h (YRef a)" "YRef b"] by auto
    also have "\<dots> \<le> refs_in h (objects_of h v) b"
      by (rule refs_in_one) (rule descend(3) [OF refl])
    finally show ?case
      using met_shared(1) [OF assms(2,3), of b] by (simp add: met_def)
  qed
  then show ?thesis
    using assms(1) by blast
qed

text \<open>An object that is reached from inside itself is shared.\<close>

lemma path_repeat:
  assumes "path h v P (YRef a)" "distinct P" "a \<in> set P" "closed_store h" "in_store h v"
  shows "YRef a \<in> set (shared h v)"
proof -
  let ?os = "objects_of h v"
  obtain P1 P2 where P: "P = P1 @ a # P2"
    using split_list [OF assms(3)] by blast
  have some: "1 \<le> count_list (children h (YRef c)) (YRef a)" if "path h v (Q @ [c]) (YRef a)" for Q c
    using that count_list_0_iff [of "children h (YRef c)" "YRef a"] by (auto elim!: path_snocE simp: Suc_le_eq)
  have ob: "YRef c \<in> set ?os" if "path h v (Q @ [c]) (YRef a)" for Q c
    using path_prefix [of h v Q c "[]"] that path_objects [OF _ assms(4,5)] by blast
  obtain Q b where b: "P = Q @ [b]"
    by (rule rev_exhaust [of P]) (use P in auto)
  have pb: "path h v (Q @ [b]) (YRef a)"
    using assms(1) b by simp
  have "2 \<le> met h v a"
  proof (cases P1 rule: rev_cases)
    case Nil
    then have "v = YRef a"
      using path_prefix [of h v P1 a P2] assms(1) P by (auto elim: path_NilE)
    then show ?thesis
      using some [OF pb] refs_in_one [OF ob [OF pb], of h a] by (simp add: met_def)
  next
    case (snoc R c)
    have pc: "path h v (R @ [c]) (YRef a)"
      using path_prefix [of h v P1 a P2] assms(1) P snoc by simp
    have "c \<noteq> b"
      using assms(2) P b snoc by (cases P2 rule: rev_cases) auto
    then show ?thesis
      using some [OF pb] some [OF pc] refs_in_two [OF ob [OF pb] ob [OF pc], of h a] by (simp add: met_def)
  qed
  then show ?thesis
    by (rule met_shared(2) [OF assms(4,5)])
qed

section \<open>The writers\<close>

text \<open>
  While the writers are inside the objects \<open>P\<close>, the shared ones among them are marked as used.
\<close>

definition writing :: "store \<Rightarrow> yval list \<Rightarrow> nat list \<Rightarrow> dstate \<Rightarrow> bool" where
  "writing h D P st \<longleftrightarrow>
     d_store st = h \<and> d_duplicates st = D \<and> length (d_usedDuplicates st) = length D \<and>
     (\<forall>a\<in>set P. \<forall>i. index_in (YRef a) D = Some i \<longrightarrow> d_usedDuplicates st ! i)"

lemma writing_update [simp]:
  "writing h D P (st\<lparr>d_tag := t\<rparr>) = writing h D P st" "writing h D P (st\<lparr>d_dump := v\<rparr>) = writing h D P st"
  "writing h D P (set_text st s) = writing h D P st"
  by (simp_all add: writing_def set_text_def)

lemma writing_add [simp]:
  "writing h D P (add_anchor dup sep st) = writing h D P st" "writing h D P (add_tag st) = writing h D P st"
  by (simp_all add: add_anchor_def add_tag_def split: option.split)

lemma writing_less: "writing h D P st \<Longrightarrow> set Q \<subseteq> set P \<Longrightarrow> writing h D Q st"
  by (auto simp: writing_def)

lemma writing_unshared: "writing h D P st \<Longrightarrow> index_in (YRef a) D = None \<Longrightarrow> writing h D (P @ [a]) st"
  by (auto simp: writing_def)

lemma writing_mark:
  assumes "writing h D P st" "index_in (YRef a) D = Some i"
  shows "writing h D (P @ [a]) (st\<lparr>d_usedDuplicates := (d_usedDuplicates st)[i := True]\<rparr>)"
proof -
  have "i < length (d_usedDuplicates st)"
    using assms index_in_Some [OF assms(2)] by (simp add: writing_def)
  then show ?thesis
    using assms by (auto simp: writing_def nth_list_update)
qed

lemma writing_used:
  "writing h D P st \<Longrightarrow> index_in (YRef a) D = Some i \<Longrightarrow> a \<in> set P \<Longrightarrow> d_usedDuplicates st ! i"
  by (simp add: writing_def)

text \<open>What the writers are called on at \<open>P\<close>: what the path leads to, keys, and no value.\<close>

definition at_path :: "store \<Rightarrow> yval \<Rightarrow> nat list \<Rightarrow> yval \<Rightarrow> bool" where
  "at_path h v P ob \<longleftrightarrow>
     closed_store h \<and> in_store h v \<and> (\<exists>x. path h v P x \<and> (ob = x \<or> (\<forall>a. ob \<noteq> YRef a)))"

lemma at_path_other: "at_path h v P x \<Longrightarrow> (\<forall>a. ob \<noteq> YRef a) \<Longrightarrow> at_path h v P ob"
  by (auto simp: at_path_def)

lemma at_path_ref: "at_path h v P (YRef a) \<Longrightarrow> path h v P (YRef a)"
  by (auto simp: at_path_def)

lemma at_path_child:
  assumes "at_path h v P (YRef a)" "x \<in> set (children h (YRef a)) \<or> (\<forall>b. x \<noteq> YRef b)" "children h (YRef a) \<noteq> []"
  shows "at_path h v (P @ [a]) x"
proof -
  obtain y where "path h v (P @ [a]) y" "x = y \<or> (\<forall>b. x \<noteq> YRef b)"
    using assms(2,3) path.descend [OF at_path_ref [OF assms(1)]] by (metis list.set_intros(1) neq_Nil_conv)
  then show ?thesis
    using assms(1) by (auto simp: at_path_def)
qed

lemma at_path_length:
  assumes "at_path h v P x" "distinct P"
  shows "length P \<le> length h"
proof -
  have "set P \<subseteq> {..<length h}"
    using assms(1) path_in_store by (fastforce simp: at_path_def)
  then have "card (set P) \<le> card {..<length h}"
    by (intro card_mono) simp_all
  then show ?thesis
    using distinct_card [OF assms(2)] by simp
qed

lemma set_insert_keys: "set (foldr insert_key ps qs) = set ps \<union> set qs"
proof (induction ps)
  case (Cons p ps)
  have "set (insert_key p rs) = insert p (set rs)" for rs :: "(jsstring \<times> 'a) list"
    by (induction rs) auto
  then show ?case
    using Cons by simp
qed simp

lemma sorted_props_wp:
  "wp (sorted_props sk ps) (\<lambda>qs. list_all (\<lambda>q. snd q \<in> snd ` set ps \<or> snd q = YUndef) qs)"
proof (cases sk)
  case (SortFun f)
  have "(case map_of ps k of None \<Rightarrow> YUndef | Some x \<Rightarrow> x) \<in> snd ` set ps \<or>
      (case map_of ps k of None \<Rightarrow> YUndef | Some x \<Rightarrow> x) = YUndef" for k
    by (cases "map_of ps k") (auto dest: map_of_SomeD intro: rev_image_eqI)
  then show ?thesis
    by (auto simp: sorted_props_def SortFun list_all_iff)
qed (auto simp: sorted_props_def list_all_iff set_insert_keys wp_def)

lemma wp_YAMLException [simp]: "wp (Inl (YAMLException m k)) Q"
  by (simp add: wp_def)

lemma scalar_text_wp: "wp (scalar_text st s l k) (\<lambda>_. True)"
proof -
  obtain e where "escapeString s = Inr e"
    using escapeString_total by blast
  then show ?thesis
    by (simp add: scalar_text_def Let_def split: style.split)
qed

definition detected :: "store \<Rightarrow> yval list \<Rightarrow> nat list \<Rightarrow> yval \<Rightarrow> dstate \<Rightarrow> bool" where
  "detected h D P ob st \<longleftrightarrow> writing h D P st \<and> (d_dump st = ob \<or> (\<exists>s. d_dump st = YStr s))"

lemma detected_update [simp]:
  "detected h D P ob (st\<lparr>d_tag := t\<rparr>) = detected h D P ob st"
  "writing h D P st \<Longrightarrow> detected h D P ob (set_text st s)"
  by (auto simp: detected_def) (auto simp: set_text_def)

lemma represent_wp: "detected h D P ob st \<Longrightarrow> wp (represent_with st t ob) (detected h D P ob)"
proof -
  assume d: "detected h D P ob st"
  then have "writing h D P st"
    by (simp add: detected_def)
  then show ?thesis
    using d by (simp add: represent_with_def split: represent.split option.split)
qed

lemma detectType_wp: "detected h D P ob st \<Longrightarrow> wp (detectType st ob e) (\<lambda>(_, st'). detected h D P ob st')"
  unfolding detectType_def by (cases "find (\<lambda>t. type_applies t ob) (if e then d_explicitTypes st else d_implicitTypes st)")
    (auto intro!: wp_bindI [OF represent_wp])

lemma detect_wp:
  assumes "writing h D P st"
  shows "wp (detect st ob) (detected h D P ob)"
proof -
  have "detected h D P ob (st\<lparr>d_tag := None, d_dump := ob\<rparr>)"
    using assms by (simp add: detected_def)
  then show ?thesis
    unfolding detect_def
    by (rule wp_bind2I [OF detectType_wp]) (auto simp: wp_bind case_prod_unfold dest: detectType_wp [of h D P ob])
qed

lemma value_wp:
  assumes "writing h D P st"
  shows "wp (write_content wn st l (CString s) None b c k) (\<lambda>(_, st'). writing h D P st')"
    "wp (write_content wn st l (COther t) None b c k) (\<lambda>(_, st'). writing h D P st')"
  using assms scalar_text_wp [of st s l k] by (auto simp: write_content_def writeScalar_def wp_bind elim: wp_mono)

text \<open>The part of \<open>write_with\<close> after the type of the value is detected.\<close>

definition write_found :: "write_fun \<Rightarrow> write_fun" where
  "write_found wn st level ob block cmp iskey =
     (let cls = class_of (d_store st) (d_dump st);
          block1 = (block \<and> (d_flowLevel st < 0 \<or> level < d_flowLevel st));
          dup = (case cls of CObject _ \<Rightarrow> index_in ob (d_duplicates st)
                 | CArray _ \<Rightarrow> index_in ob (d_duplicates st) | _ \<Rightarrow> None);
          cmp1 = (cmp \<and> \<not> (d_tag st \<noteq> None \<and> d_tag st \<noteq> Some (jstr ''?'') \<or> dup \<noteq> None \<or>
                            d_indent st \<noteq> 2 \<and> 0 < level))
      in case dup of
           None \<Rightarrow> write_content wn st level cls None block1 cmp1 iskey
         | Some i \<Rightarrow>
             if d_usedDuplicates st ! i then Inr (True, set_text st (jstr ''*'' @ ref_name i))
             else write_content wn (st\<lparr>d_usedDuplicates := (d_usedDuplicates st)[i := True]\<rparr>) level cls
                    (Some i) block1 cmp1 iskey)"

lemma write_with_found: "write_with wn st l ob b c k = bind_r (detect st ob) (\<lambda>st. write_found wn st l ob b c k)"
  unfolding write_with_def write_found_def ..

text \<open>
  The contract of \<open>writeNode\<close> that the writers of collections rely on, with \<open>n\<close> calls left: it
  ends and keeps the marks.
\<close>

locale node_writer =
  fixes wn :: write_fun and h :: store and v :: yval and n :: nat
  assumes node: "at_path h v P ob \<Longrightarrow> distinct P \<Longrightarrow> length h < length P + n \<Longrightarrow> writing h (shared h v) P st \<Longrightarrow>
    wp (wn st l ob b c k) (\<lambda>(_, st'). writing h (shared h v) P st')"
begin

definition inside :: "nat list \<Rightarrow> dstate \<Rightarrow> bool" where
  "inside P st \<longleftrightarrow> distinct P \<and> length h < length P + n \<and> writing h (shared h v) P st"

lemma node_inside:
  "at_path h v P ob \<Longrightarrow> inside P st \<Longrightarrow> wp (wn st l ob b c k) (\<lambda>(_, st'). inside P st')"
  using node [of P ob st l b c k] by (auto simp: inside_def elim!: wp_mono)

lemma flow_items_wp:
  "list_all (at_path h v P) xs \<Longrightarrow> inside P st \<Longrightarrow> wp (flow_items wn l xs i st r) (\<lambda>(st', _). inside P st')"
proof (induction xs arbitrary: i st r)
  case (Cons x xs)
  then show ?case
    by (auto intro!: wp_bind2I [OF node_inside])
qed simp

lemma block_items_wp:
  "list_all (at_path h v P) xs \<Longrightarrow> inside P st \<Longrightarrow> wp (block_items wn l cmp xs i st r) (\<lambda>(st', _). inside P st')"
proof (induction xs arbitrary: i st r)
  case (Cons x xs)
  then show ?case
    by (auto intro!: wp_bind2I [OF node_inside])
qed simp

lemma flow_pair_wp:
  "at_path h v P x \<Longrightarrow> inside P st \<Longrightarrow> wp (flow_pair wn l key x i st) (\<lambda>(st', _). inside P st')"
  unfolding flow_pair_def Let_def
  by (rule wp_bind2I [OF node_inside]) (auto intro: at_path_other intro!: wp_bind2I [OF node_inside])

lemma block_pair_wp:
  "at_path h v P x \<Longrightarrow> inside P st \<Longrightarrow> wp (block_pair wn l cmp key x i st) (\<lambda>(st', _). inside P st')"
  unfolding block_pair_def Let_def
  by (rule wp_bind2I [OF node_inside]) (auto intro: at_path_other intro!: wp_bind2I [OF node_inside])

lemma flow_pairs_wp:
  "list_all (\<lambda>p. at_path h v P (snd p)) ps \<Longrightarrow> inside P st \<Longrightarrow>
   wp (flow_pairs wn l ps i st r) (\<lambda>(st', _). inside P st')"
proof (induction ps arbitrary: i st r)
  case (Cons p ps)
  then show ?case
    by (cases p) (auto intro!: wp_bind2I [OF flow_pair_wp])
qed simp

lemma block_pairs_wp:
  "list_all (\<lambda>p. at_path h v P (snd p)) ps \<Longrightarrow> inside P st \<Longrightarrow>
   wp (block_pairs wn l cmp ps i st r) (\<lambda>(st', _). inside P st')"
proof (induction ps arbitrary: i st r)
  case (Cons p ps)
  then show ?case
    by (cases p) (auto intro!: wp_bind2I [OF block_pair_wp])
qed simp

text \<open>The content of an object: every branch ends and keeps the marks.\<close>

lemma collection_wp:
  assumes "inside (P @ [a]) st" "at_path h v P (YRef a)" "cls = class_of h (YRef a)"
  shows "wp (write_content wn st l cls dup b c k) (\<lambda>(_, st'). writing h (shared h v) P st')"
proof -
  have fin: "inside (P @ [a]) st' \<Longrightarrow> writing h (shared h v) P st'" for st'
    by (auto simp: inside_def elim: writing_less)
  show ?thesis
  proof (cases "h ! a")
    case (YArr xs)
    then have "children h (YRef a) = xs"
      by (simp add: children_def isArray_def)
    then have xs: "list_all (at_path h v (P @ [a])) xs"
      using at_path_child [OF assms(2)] by (fastforce simp: list_all_iff)
    have cls: "cls = CArray xs"
      using assms(3) YArr by (simp add: class_of_def)
    let ?W = "writing h (shared h v) P"
    have fl: "wp (writeFlowSequence wn st l xs) ?W"
      unfolding writeFlowSequence_def by (rule wp_bind2I [OF flow_items_wp [OF xs assms(1)]]) (use fin in simp)
    have bl: "wp (writeBlockSequence wn st l xs cmp) ?W" for cmp
      unfolding writeBlockSequence_def by (rule wp_bind2I [OF block_items_wp [OF xs assms(1)]]) (use fin in simp)
    show ?thesis
      unfolding cls write_content_def dump_class.case
      by (rule wp_if) (auto intro!: wp_bindI [OF fl] wp_bindI [OF bl])
  next
    case (YMap m)
    then have c: "children h (YRef a) = map snd (own_props h (YRef a))" and cls: "cls = CObject (own_props h (YRef a))"
      using assms(3) by (simp_all add: children_def isArray_def class_of_def)
    have at: "at_path h v (P @ [a]) y"
      if "y \<in> snd ` set (own_props h (YRef a)) \<or> y = YUndef" "own_props h (YRef a) \<noteq> []" for y
    proof -
      have "y \<in> set (children h (YRef a)) \<or> (\<forall>b. y \<noteq> YRef b)" "children h (YRef a) \<noteq> []"
        using that unfolding c by auto
      then show ?thesis
        by (rule at_path_child [OF assms(2)])
    qed
    have ps: "list_all (\<lambda>p. at_path h v (P @ [a]) (snd p)) qs"
      if "list_all (\<lambda>q. snd q \<in> snd ` set (own_props h (YRef a)) \<or> snd q = YUndef) qs" "own_props h (YRef a) \<noteq> []" for qs :: props
      using that(1) at [OF _ that(2)] unfolding list_all_iff by blast
    let ?ps = "own_props h (YRef a)" and ?W = "writing h (shared h v) P"
    have "list_all (\<lambda>p. at_path h v (P @ [a]) (snd p)) ?ps"
      using ps [of ?ps] by (cases "?ps = []") (auto simp: list_all_iff)
    from flow_pairs_wp [OF this assms(1)] have fl: "wp (writeFlowMapping wn st l ?ps) ?W"
      unfolding writeFlowMapping_def by (rule wp_bind2I) (use fin in simp)
    have bl: "wp (writeBlockMapping wn st l ?ps cmp) ?W" if "?ps \<noteq> []" for cmp
      unfolding writeBlockMapping_def
    proof (rule wp_bindI [OF sorted_props_wp])
      fix qs :: props
      assume "list_all (\<lambda>q. snd q \<in> snd ` set ?ps \<or> snd q = YUndef) qs"
      from block_pairs_wp [OF ps [OF this that] assms(1)]
      show "wp (bind_r (block_pairs wn l cmp qs 0 st [])
          (\<lambda>(st1, r). Inr (set_text (st1\<lparr>d_tag := d_tag st\<rparr>) (if r \<noteq> [] then r else jstr ''{}'')))) ?W"
        by (rule wp_bind2I) (use fin in simp)
    qed
    show ?thesis
      unfolding cls write_content_def dump_class.case
      by (rule wp_if) (auto intro!: wp_bindI [OF fl] wp_bindI [OF bl])
  qed
qed

lemma write_found_wp:
  assumes "at_path h v P ob" "distinct P" "length h < length P + Suc n" "detected h (shared h v) P ob st1"
  shows "wp (write_found wn st1 l ob b c k) (\<lambda>(_, st'). writing h (shared h v) P st')"
proof -
  have w: "writing h (shared h v) P st1" and d: "d_dump st1 = ob \<or> (\<exists>s. d_dump st1 = YStr s)"
    using assms(4) by (simp_all add: detected_def)
  have store: "d_store st1 = h" and D: "d_duplicates st1 = shared h v"
    using w by (simp_all add: writing_def)
  show ?thesis
  proof (cases "\<exists>a. d_dump st1 = YRef a")
    case False
    then show ?thesis
      using value_wp [OF w] by (cases "d_dump st1") (simp_all add: write_found_def store Let_def class_of_def)
  next
    case True
    then obtain a where a: "d_dump st1 = YRef a" "ob = YRef a"
      using d by auto
    have dup: "(case class_of h (YRef a) of CObject _ \<Rightarrow> x | CArray _ \<Rightarrow> x | _ \<Rightarrow> y) = x" for x y :: "nat option"
      by (simp add: class_of_def split: yobj.split)
    have at: "at_path h v P (YRef a)"
      using assms(1) a by simp
    show ?thesis
    proof (cases "index_in (YRef a) (shared h v)")
      case None
      then have "a \<notin> set P"
        using path_repeat [OF at_path_ref [OF at] assms(2)] at unfolding index_in_None at_path_def by blast
      then have "inside (P @ [a]) st1"
        using assms(2,3) writing_unshared [OF w None] by (simp add: inside_def)
      then show ?thesis
        unfolding write_found_def Let_def store D a dup None option.case by (rule collection_wp [OF _ at refl])
    next
      case (Some i)
      show ?thesis
      proof (cases "d_usedDuplicates st1 ! i")
        case True
        then show ?thesis
          unfolding write_found_def Let_def store D a dup Some option.case using w by simp
      next
        case False
        then have "a \<notin> set P"
          using writing_used [OF w Some] by blast
        then have "inside (P @ [a]) (st1\<lparr>d_usedDuplicates := (d_usedDuplicates st1)[i := True]\<rparr>)"
          using assms(2,3) writing_mark [OF w Some] by (simp add: inside_def)
        then show ?thesis
          unfolding write_found_def Let_def store D a dup Some option.case if_not_P [OF False] by (rule collection_wp [OF _ at refl])
      qed
    qed
  qed
qed

lemma write_with_wp:
  assumes "at_path h v P ob" "distinct P" "length h < length P + Suc n" "writing h (shared h v) P st"
  shows "wp (write_with wn st l ob b c k) (\<lambda>(_, st'). writing h (shared h v) P st')"
  unfolding write_with_found
  by (rule wp_bindI [OF detect_wp [OF assms(4)]]) (rule write_found_wp [OF assms(1-3)])

end

lemma writeNode_node:
  "at_path h v P ob \<Longrightarrow> distinct P \<Longrightarrow> length h < length P + n \<Longrightarrow> writing h (shared h v) P st \<Longrightarrow>
   wp (writeNode n st l ob b c k) (\<lambda>(_, st'). writing h (shared h v) P st')"
proof (induction n arbitrary: P ob st l b c k)
  case 0
  then show ?case
    using at_path_length by fastforce
next
  case (Suc n)
  have "node_writer (writeNode n) h v n"
    by unfold_locales (rule Suc.IH)
  from node_writer.write_with_wp [OF this Suc.prems] show ?case
    by simp
qed

interpretation written: node_writer "writeNode n" h v n for n h v
  by unfold_locales (rule writeNode_node)

section \<open>Dumping ends\<close>

lemma writing_start:
  assumes "d_store st = h" "d_duplicates st = []"
  shows "writing h (shared h v) [] (getDuplicateReferences v st)"
  using assms
  by (simp add: writing_def getDuplicateReferences_def shared_def objects_of_def case_prod_unfold Let_def)

lemma dump_wp:
  assumes "closed_store h" "in_store h v" "\<not> p_noRefs opts" "length h < n"
  shows "wp (writeNode n (getDuplicateReferences v (DumpState js h opts)) l v b c k) (\<lambda>_. True)"
proof -
  have "writing h (shared h v) [] (getDuplicateReferences v (DumpState js h opts))"
    by (rule writing_start) (simp_all add: DumpState_def Let_def)
  moreover have "at_path h v [] v"
    using assms(1,2) path.start by (auto simp: at_path_def)
  ultimately show ?thesis
    using assms(4) by (intro wp_mono [OF writeNode_node [of h v "[]" v n]]) simp_all
qed

text \<open>
  C2: Dumping ends on every value of a closed store, with any schema and any options that keep
  references (the default), also when objects contain themselves: the result is a text or an
  exception.  An object the writers are inside of is always among the duplicates and marked as
  used, so that its next occurrence is written as an alias.
\<close>

theorem dump_terminates:
  assumes "closed_store h" "in_store h v" "\<not> p_noRefs opts"
  shows "dump js h v opts \<noteq> Inl Diverges"
proof -
  have n: "\<not> d_noRefs (DumpState js h opts)"
    using assms(3) by (simp add: DumpState_def Let_def)
  have "wp (dump js h v opts) (\<lambda>_. True)"
    using dump_wp [OF assms, of "dump_depth h" js 0 True True False] n
    by (auto simp: dump_def Let_def dump_depth_def wp_bind elim: wp_mono)
  then show ?thesis
    by (simp add: wp_def)
qed

theorem dump_terminates_witness:
  "closed_store [YArr [YRef 0, YRef 1], YMap [(jstr ''k'', YRef 0)]] \<and> in_store [YArr [YRef 0, YRef 1], YMap [(jstr ''k'', YRef 0)]] (YRef 0) \<and>
   dump (e_js sample_env) [YArr [YRef 0, YRef 1], YMap [(jstr ''k'', YRef 0)]] (YRef 0) sample_dump_options \<noteq> Inl Diverges"
proof (intro conjI)
  let ?h = "[YArr [YRef 0, YRef 1], YMap [(jstr ''k'', YRef 0)]]"
  show c: "closed_store ?h" "in_store ?h (YRef 0)"
    by (simp_all add: closed_store_def in_store_def)
  show "dump (e_js sample_env) ?h (YRef 0) sample_dump_options \<noteq> Inl Diverges"
    by (rule dump_terminates [OF c]) (simp add: sample_dump_options_def)
qed

text \<open>Where a smaller number of calls is enough, a larger one gives the same result.\<close>

definition le_write :: "write_fun \<Rightarrow> write_fun \<Rightarrow> bool" where
  "le_write w w' \<longleftrightarrow> (\<forall>st l ob b c k. le (w st l ob b c k) (w' st l ob b c k))"

lemma le_writeD: "le_write w w' \<Longrightarrow> le (w st l ob b c k) (w' st l ob b c k)"
  by (simp add: le_write_def)

lemma flow_items_le: "le_write w w' \<Longrightarrow> le (flow_items w l xs i st r) (flow_items w' l xs i st r)"
  by (induction xs arbitrary: i st r) (auto intro!: le_intros intro: le_writeD)

lemma block_items_le: "le_write w w' \<Longrightarrow> le (block_items w l cmp xs i st r) (block_items w' l cmp xs i st r)"
  by (induction xs arbitrary: i st r) (auto intro!: le_intros intro: le_writeD)

lemma flow_pair_le:
  assumes "le_write w w'"
  shows "le (flow_pair w l key x i st) (flow_pair w' l key x i st)"
  unfolding flow_pair_def Let_def by (intro le_intros le_writeD [OF assms])

lemma block_pair_le:
  assumes "le_write w w'"
  shows "le (block_pair w l cmp key x i st) (block_pair w' l cmp key x i st)"
  unfolding block_pair_def Let_def by (intro le_intros le_writeD [OF assms])

lemma flow_pairs_le: "le_write w w' \<Longrightarrow> le (flow_pairs w l ps i st r) (flow_pairs w' l ps i st r)"
proof (induction ps arbitrary: i st r)
  case (Cons p ps)
  then show ?case
    by (cases p) (auto intro!: le_intros intro: flow_pair_le)
qed (simp add: le_refl)

lemma block_pairs_le: "le_write w w' \<Longrightarrow> le (block_pairs w l cmp ps i st r) (block_pairs w' l cmp ps i st r)"
proof (induction ps arbitrary: i st r)
  case (Cons p ps)
  then show ?case
    by (cases p) (auto intro!: le_intros intro: block_pair_le)
qed (simp add: le_refl)

lemma write_content_le:
  "le_write w w' \<Longrightarrow> le (write_content w st l cls dup b c k) (write_content w' st l cls dup b c k)"
  by (cases cls) (auto simp: write_content_def writeFlowSequence_def writeBlockSequence_def writeFlowMapping_def
      writeBlockMapping_def intro!: le_intros intro: flow_items_le block_items_le flow_pairs_le block_pairs_le)

lemma write_with_le: "le_write w w' \<Longrightarrow> le_write (write_with w) (write_with w')"
  unfolding le_write_def [of "write_with w"] write_with_def Let_def
  by (auto intro!: le_bind le_refl split: option.split intro: write_content_le)

lemma writeNode_le: "m \<le> n \<Longrightarrow> le_write (writeNode m) (writeNode n)"
proof (induction m arbitrary: n)
  case 0
  then show ?case
    by (simp add: le_write_def le_Diverges)
next
  case (Suc m)
  then obtain n' where n: "n = Suc n'" "m \<le> n'"
    by (cases n) auto
  from write_with_le [OF Suc(1) [OF n(2)]] show ?case
    by (simp add: n(1) le_write_def)
qed



section \<open>What the writers leave alone\<close>

text \<open>
  The writers change the tag, the dump and the marks of a state, and a mark that is set stays
  set.
\<close>

definition setup_of :: "dstate \<Rightarrow> dstate" where
  "setup_of st = st\<lparr>d_tag := None, d_dump := YUndef, d_usedDuplicates := []\<rparr>"

definition evolves :: "dstate \<Rightarrow> dstate \<Rightarrow> bool" where
  "evolves st st' \<longleftrightarrow>
     setup_of st' = setup_of st \<and> length (d_usedDuplicates st') = length (d_usedDuplicates st) \<and>
     (\<forall>i < length (d_usedDuplicates st). d_usedDuplicates st ! i \<longrightarrow> d_usedDuplicates st' ! i)"

lemma evolves_refl [simp]: "evolves st st"
  by (simp add: evolves_def)

lemma evolves_trans: "evolves st st' \<Longrightarrow> evolves st' st'' \<Longrightarrow> evolves st st''"
  by (simp add: evolves_def)

lemma evolves_update [simp]:
  "evolves st (st'\<lparr>d_tag := t\<rparr>) = evolves st st'" "evolves st (st'\<lparr>d_dump := v\<rparr>) = evolves st st'"
  "evolves st (set_text st' s) = evolves st st'"
  by (simp_all add: evolves_def setup_of_def set_text_def)

lemma evolves_add [simp]:
  "evolves st (add_anchor dup sep st') = evolves st st'" "evolves st (add_tag st') = evolves st st'"
  by (simp_all add: add_anchor_def add_tag_def split: option.split)

lemma evolves_mark: "evolves st st' \<Longrightarrow> evolves st (st'\<lparr>d_usedDuplicates := (d_usedDuplicates st')[i := True]\<rparr>)"
  by (auto simp: evolves_def setup_of_def) (metis list_update_beyond not_less nth_list_update)

definition is_text :: "yval \<Rightarrow> bool" where
  "is_text v \<longleftrightarrow> (\<exists>t. v = YStr t)"

lemma is_text_add [simp]:
  "is_text (d_dump (set_text st s))" "is_text (d_dump st) \<Longrightarrow> is_text (d_dump (add_anchor dup sep st))"
  "is_text (d_dump st) \<Longrightarrow> is_text (d_dump (add_tag st))"
  by (auto simp: is_text_def set_text_def add_anchor_def add_tag_def split: option.split)

text \<open>The result, when there is one, satisfies the condition.\<close>

definition post :: "'a yres \<Rightarrow> ('a \<Rightarrow> bool) \<Rightarrow> bool" where
  "post r Q \<longleftrightarrow> (\<forall>x. r = Inr x \<longrightarrow> Q x)"

lemma post_simps [simp]: "post (Inr x) Q = Q x" "post (Inl e) Q"
  by (simp_all add: post_def)

lemma post_bindI: "post m P \<Longrightarrow> (\<And>x. P x \<Longrightarrow> post (f x) Q) \<Longrightarrow> post (bind_r m f) Q"
  by (cases m) (auto simp: post_def)

lemma post_bind2I: "post m (\<lambda>(x, y). P x y) \<Longrightarrow> (\<And>x y. P x y \<Longrightarrow> post (f (x, y)) Q) \<Longrightarrow> post (bind_r m f) Q"
  by (cases m) (auto simp: post_def)

lemma post_mono: "post r P \<Longrightarrow> (\<And>x. P x \<Longrightarrow> Q x) \<Longrightarrow> post r Q"
  by (auto simp: post_def)

lemma post_if: "(c \<Longrightarrow> post a Q) \<Longrightarrow> (\<not> c \<Longrightarrow> post b Q) \<Longrightarrow> post (if c then a else b) Q"
  by simp

text \<open>The contract that every level of the writers keeps: only that part changes, and what is written is a text.\<close>

locale framed_writer =
  fixes wn :: write_fun
  assumes frame: "post (wn st l ob b c k) (\<lambda>(written, st'). evolves st st' \<and> (written \<longrightarrow> is_text (d_dump st')))"
begin

lemma frame_from: "evolves st0 st \<Longrightarrow> post (wn st l ob b c k) (\<lambda>(_, st'). evolves st0 st')"
  using frame [of st l ob b c k] by (auto simp: post_def intro: evolves_trans)

lemma flow_items_frame: "evolves st0 st \<Longrightarrow> post (flow_items wn l xs i st r) (\<lambda>(st', _). evolves st0 st')"
  by (induction xs arbitrary: i st r) (auto intro!: post_bind2I [OF frame_from])

lemma block_items_frame: "evolves st0 st \<Longrightarrow> post (block_items wn l cmp xs i st r) (\<lambda>(st', _). evolves st0 st')"
  by (induction xs arbitrary: i st r) (auto intro!: post_bind2I [OF frame_from])

lemma flow_pair_frame: "evolves st0 st \<Longrightarrow> post (flow_pair wn l key x i st) (\<lambda>(st', _). evolves st0 st')"
  unfolding flow_pair_def Let_def
  by (rule post_bind2I [OF frame_from]) (auto intro!: post_bind2I [OF frame_from])

lemma block_pair_frame: "evolves st0 st \<Longrightarrow> post (block_pair wn l cmp key x i st) (\<lambda>(st', _). evolves st0 st')"
  unfolding block_pair_def Let_def
  by (rule post_bind2I [OF frame_from]) (auto intro!: post_bind2I [OF frame_from])

lemma flow_pairs_frame: "evolves st0 st \<Longrightarrow> post (flow_pairs wn l ps i st r) (\<lambda>(st', _). evolves st0 st')"
proof (induction ps arbitrary: i st r)
  case (Cons p ps)
  then show ?case
    by (cases p) (auto intro!: post_bind2I [OF flow_pair_frame])
qed simp

lemma block_pairs_frame: "evolves st0 st \<Longrightarrow> post (block_pairs wn l cmp ps i st r) (\<lambda>(st', _). evolves st0 st')"
proof (induction ps arbitrary: i st r)
  case (Cons p ps)
  then show ?case
    by (cases p) (auto intro!: post_bind2I [OF block_pair_frame])
qed simp

lemma collections_frame:
  assumes "evolves st0 st"
  shows "post (writeFlowSequence wn st l xs) (\<lambda>st'. evolves st0 st' \<and> is_text (d_dump st'))"
    "post (writeBlockSequence wn st l xs cmp) (\<lambda>st'. evolves st0 st' \<and> is_text (d_dump st'))"
    "post (writeFlowMapping wn st l ps) (\<lambda>st'. evolves st0 st' \<and> is_text (d_dump st'))"
    "post (writeBlockMapping wn st l ps cmp) (\<lambda>st'. evolves st0 st' \<and> is_text (d_dump st'))"
proof -
  show "post (writeFlowSequence wn st l xs) (\<lambda>st'. evolves st0 st' \<and> is_text (d_dump st'))"
    unfolding writeFlowSequence_def by (rule post_bind2I [OF flow_items_frame [OF assms]]) simp
  show "post (writeBlockSequence wn st l xs cmp) (\<lambda>st'. evolves st0 st' \<and> is_text (d_dump st'))"
    unfolding writeBlockSequence_def by (rule post_bind2I [OF block_items_frame [OF assms]]) simp
  show "post (writeFlowMapping wn st l ps) (\<lambda>st'. evolves st0 st' \<and> is_text (d_dump st'))"
    unfolding writeFlowMapping_def by (rule post_bind2I [OF flow_pairs_frame [OF assms]]) simp
  have "post (bind_r (block_pairs wn l cmp qs 0 st []) (\<lambda>(st1, r). Inr (set_text (st1\<lparr>d_tag := d_tag st\<rparr>)
      (if r \<noteq> [] then r else jstr ''{}'')))) (\<lambda>st'. evolves st0 st' \<and> is_text (d_dump st'))" for qs
    by (rule post_bind2I [OF block_pairs_frame [OF assms]]) simp
  then show "post (writeBlockMapping wn st l ps cmp) (\<lambda>st'. evolves st0 st' \<and> is_text (d_dump st'))"
    unfolding writeBlockMapping_def by (cases "sorted_props (d_sortKeys st) ps") simp_all
qed

lemma content_frame:
  assumes "evolves st0 st" "\<And>s. cls = CString s \<Longrightarrow> is_text (d_dump st)"
  shows "post (write_content wn st l cls dup b c k) (\<lambda>(written, st'). evolves st0 st' \<and> (written \<longrightarrow> is_text (d_dump st')))"
proof (cases cls)
  case (CString s)
  then show ?thesis
    using assms by (auto simp: write_content_def writeScalar_def post_def bind_r_Inr_iff)
qed (use assms in \<open>auto simp: write_content_def intro!: post_bindI [OF collections_frame(1)] post_bindI [OF collections_frame(2)]
    post_bindI [OF collections_frame(3)] post_bindI [OF collections_frame(4)]\<close>)

lemma detect_frame: "post (detect st ob) (\<lambda>st'. evolves st st')"
proof -
  have rep: "evolves st st0 \<Longrightarrow> post (represent_with st0 t ob) (evolves st)" for st0 t
    by (auto simp: represent_with_def split: represent.split option.split)
  have det: "evolves st st0 \<Longrightarrow> post (detectType st0 ob e) (\<lambda>(_, st'). evolves st st')" for st0 e
    unfolding detectType_def
    by (cases "find (\<lambda>t. type_applies t ob) (if e then d_explicitTypes st0 else d_implicitTypes st0)")
      (auto intro!: post_bindI [OF rep])
  show ?thesis
    unfolding detect_def by (rule post_bind2I [OF det]) (auto intro!: post_bind2I [OF det])
qed

lemma found_frame:
  assumes "evolves st0 st"
  shows "post (write_found wn st l ob b c k) (\<lambda>(written, st'). evolves st0 st' \<and> (written \<longrightarrow> is_text (d_dump st')))"
proof -
  have t: "is_text (d_dump st)" if "class_of (d_store st) (d_dump st) = CString s" for s
    using that by (auto simp: class_of_def is_text_def split: yval.splits yobj.splits)
  show ?thesis
    unfolding write_found_def Let_def
    by (split option.split) (use assms t in \<open>auto intro!: content_frame evolves_mark\<close>)
qed

lemma with_frame:
  "post (write_with wn st l ob b c k) (\<lambda>(written, st'). evolves st st' \<and> (written \<longrightarrow> is_text (d_dump st')))"
  unfolding write_with_found by (rule post_bindI [OF detect_frame]) (rule found_frame)

end

lemma writeNode_frame:
  "post (writeNode n st l ob b c k) (\<lambda>(written, st'). evolves st st' \<and> (written \<longrightarrow> is_text (d_dump st')))"
proof (induction n arbitrary: st l ob b c k)
  case (Suc n)
  have "framed_writer (writeNode n)"
    by unfold_locales (rule Suc)
  from framed_writer.with_frame [OF this] show ?case
    by simp
qed simp

interpretation framed: framed_writer "writeNode n" for n
  by unfold_locales (rule writeNode_frame)

text \<open>
  C29: A writer that reports success leaves a string in the state, in every branch (scalars,
  represented types, aliases, collections of both styles with anchors and tags): the callers may
  append it.
\<close>

theorem written_is_text:
  assumes "writeNode n st level ob block cmp iskey = Inr (True, st')"
  shows "\<exists>t. d_dump st' = YStr t"
  using writeNode_frame [of n st level ob block cmp iskey] assms by (simp add: post_def is_text_def)

definition sample_dump_state :: dstate where
  "sample_dump_state =
     (DumpState (e_js sample_env) [YArr [YRef 0]] sample_dump_options)
       \<lparr>d_implicitTypes := [], d_explicitTypes := [], d_duplicates := [YRef 0], d_usedDuplicates := [False]\<rparr>"

lemma sample_written:
  "\<exists>st'. writeNode (Suc (Suc 0)) sample_dump_state 0 (YRef 0) True True False = Inr (True, st') \<and>
     d_dump st' = YStr (jstr ''&ref_0'' @ [10] @ jstr ''- *ref_0'') \<and> d_usedDuplicates st' = [True]"
proof -
  have n: "int_text 10 0 = [48]"
    by code_simp
  show ?thesis
    by (simp add: sample_dump_state_def DumpState_def sample_dump_options_def Let_def write_with_def
        detect_def detectType_def class_of_def write_content_def writeBlockSequence_def add_anchor_def add_tag_def
        set_text_def dump_text_def ref_name_def n indicator_def generateNextLine_def repeat_def)
qed

theorem written_is_text_witness:
  "\<exists>st' t. writeNode (Suc (Suc 0)) sample_dump_state 0 (YRef 0) True True False = Inr (True, st') \<and> d_dump st' = YStr t"
  using sample_written written_is_text [of "Suc (Suc 0)" sample_dump_state 0 "YRef 0" True True False] by blast

text \<open>
  C28: The writers change nothing of the state but the tag, the dump and the marks of the
  duplicates; there is still one mark for each, and a mark that is set stays set, so that an
  object gets at most one anchor.
\<close>

theorem writers_keep_setup:
  assumes "writeNode n st level ob block cmp iskey = Inr (written, st')"
  shows "st' = st\<lparr>d_tag := d_tag st', d_dump := d_dump st', d_usedDuplicates := d_usedDuplicates st'\<rparr> \<and>
    length (d_usedDuplicates st') = length (d_usedDuplicates st) \<and>
    (\<forall>i < length (d_usedDuplicates st). d_usedDuplicates st ! i \<longrightarrow> d_usedDuplicates st' ! i)"
proof -
  have e: "evolves st st'"
    using writeNode_frame [of n st level ob block cmp iskey] assms by (simp add: post_def)
  have "st' = (setup_of st')\<lparr>d_tag := d_tag st', d_dump := d_dump st', d_usedDuplicates := d_usedDuplicates st'\<rparr>"
    by (simp add: setup_of_def)
  also have "\<dots> = (setup_of st)\<lparr>d_tag := d_tag st', d_dump := d_dump st', d_usedDuplicates := d_usedDuplicates st'\<rparr>"
    using e by (simp add: evolves_def)
  also have "\<dots> = st\<lparr>d_tag := d_tag st', d_dump := d_dump st', d_usedDuplicates := d_usedDuplicates st'\<rparr>"
    by (simp add: setup_of_def)
  finally show ?thesis
    using e by (simp add: evolves_def)
qed

theorem writers_keep_setup_witness:
  "\<exists>st'. writeNode (Suc (Suc 0)) sample_dump_state 0 (YRef 0) True True False = Inr (True, st') \<and>
     d_duplicates st' = d_duplicates sample_dump_state \<and> length (d_usedDuplicates st') = 1"
proof -
  obtain st' where st': "writeNode (Suc (Suc 0)) sample_dump_state 0 (YRef 0) True True False = Inr (True, st')"
    using sample_written by blast
  note k = writers_keep_setup [OF st']
  have "d_duplicates st' = d_duplicates sample_dump_state"
    by (subst conjunct1 [OF k]) simp
  moreover have "length (d_usedDuplicates st') = 1"
    using k by (simp add: sample_dump_state_def)
  ultimately show ?thesis
    using st' by blast
qed

end
